(* ===== verification/Prelude.thy ===== *)
theory Prelude
  imports Main "HOL-Library.Word" "HOL-Library.Sublist"
begin

text \<open>
  Shared vocabulary of the Asolaria kernel development.

  \<^item> Machine integers are words of their Rust width (\<open>u8\<close> ... \<open>u64\<close>); \<open>usize\<close> is 64 bits wide, as on
    the \<^verbatim>\<open>x86_64-unknown-uefi\<close> target. Arithmetic wraps, as in the release profile of
    \<^verbatim>\<open>kernel/Cargo.toml\<close>, which does not enable overflow checks.
  \<^item> A byte slice is a list of \<open>u8\<close>. A Rust \<open>str\<close> is the list of its UTF-8 bytes, a \<open>string\<close> of
    Isabelle (whose characters are bytes), so \<open>length\<close> is Rust's \<open>len()\<close>; \<open>as_bytes\<close> reads it as
    a byte slice.
  \<^item> \<open>Result<T, E>\<close> is the datatype \<open>result\<close>; an early \<open>return Err(...)\<close> or \<open>?\<close> is a branch to \<open>Err\<close>.
  \<^item> The string operations of Rust's standard library the kernel calls (\<open>contains\<close>, \<open>starts_with\<close>,
    \<open>rfind\<close>, \<open>split\<close>, decimal and hexadecimal formatting) are defined here with the lemmas that
    characterise them.
\<close>

unbundle bit_operations_syntax

section \<open>Types\<close>

type_synonym u8 = "8 word"
type_synonym u16 = "16 word"
type_synonym u32 = "32 word"
type_synonym u64 = "64 word"
type_synonym usize = "64 word"
type_synonym bytes = "u8 list"

datatype ('a, 'e) result = Ok 'a | Err 'e

named_theorems bytes_simps \<open>lengths and injectivity of byte encodings\<close>
named_theorems str_simps \<open>characterisations of the string operations\<close>

definition is_ok :: "('a, 'e) result \<Rightarrow> bool" where
  "is_ok r = (case r of Ok _ \<Rightarrow> True | Err _ \<Rightarrow> False)"

definition map_err :: "('e \<Rightarrow> 'f) \<Rightarrow> ('a, 'e) result \<Rightarrow> ('a, 'f) result" where
  "map_err f r = (case r of Ok a \<Rightarrow> Ok a | Err e \<Rightarrow> Err (f e))"

section \<open>Checked and saturating arithmetic\<close>

definition saturating_add :: "'a::len word \<Rightarrow> 'a word \<Rightarrow> 'a word" where
  "saturating_add a b = (if unat a + unat b < 2 ^ LENGTH('a) then a + b else - 1)"

definition saturating_mul :: "'a::len word \<Rightarrow> 'a word \<Rightarrow> 'a word" where
  "saturating_mul a b = (if unat a * unat b < 2 ^ LENGTH('a) then a * b else - 1)"

definition checked_add :: "'a::len word \<Rightarrow> 'a word \<Rightarrow> 'a word option" where
  "checked_add a b = (if unat a + unat b < 2 ^ LENGTH('a) then Some (a + b) else None)"

section \<open>Bytes of integers and strings\<close>

definition as_bytes :: "string \<Rightarrow> bytes" where
  "as_bytes s = map of_char s"

text \<open>\<open>to_be_bytes\<close> / \<open>to_le_bytes\<close> of an integer that is \<open>n\<close> bytes wide.\<close>

definition be_bytes :: "nat \<Rightarrow> 'a::len word \<Rightarrow> bytes" where
  "be_bytes n w = map (\<lambda>i. ucast (drop_bit (8 * i) w)) (rev [0..<n])"

definition le_bytes :: "nat \<Rightarrow> 'a::len word \<Rightarrow> bytes" where
  "le_bytes n w = map (\<lambda>i. ucast (drop_bit (8 * i) w)) [0..<n]"

text \<open>The fold \<open>v = (v << 8) | byte\<close> that reads a big-endian \<open>u64\<close>.\<close>

definition u64_of_be :: "bytes \<Rightarrow> u64" where
  "u64_of_be bs = foldl (\<lambda>v b. push_bit 8 v OR ucast b) 0 bs"

section \<open>Strings\<close>

definition starts_with :: "string \<Rightarrow> string \<Rightarrow> bool" where
  "starts_with s p = prefix p s"

definition ends_with :: "string \<Rightarrow> string \<Rightarrow> bool" where
  "ends_with s p = suffix p s"

fun str_contains :: "'a list \<Rightarrow> 'a list \<Rightarrow> bool" where
  "str_contains [] n = (n = [])"
| "str_contains (c # cs) n = (prefix n (c # cs) \<or> str_contains cs n)"

text \<open>\<open>str::find\<close> and \<open>str::rfind\<close>: the least and the greatest byte offset of a match.\<close>

fun str_find :: "string \<Rightarrow> string \<Rightarrow> nat option" where
  "str_find [] n = (if n = [] then Some 0 else None)"
| "str_find (c # cs) n =
     (if prefix n (c # cs) then Some 0 else map_option Suc (str_find cs n))"

fun str_rfind :: "string \<Rightarrow> string \<Rightarrow> nat option" where
  "str_rfind [] n = (if n = [] then Some 0 else None)"
| "str_rfind (c # cs) n =
     (case str_rfind cs n of
        Some i \<Rightarrow> Some (Suc i)
      | None \<Rightarrow> if prefix n (c # cs) then Some 0 else None)"

text \<open>\<open>str::split\<close> at a one-byte separator: always at least one segment.\<close>

fun str_split :: "char \<Rightarrow> string \<Rightarrow> string list" where
  "str_split d [] = [[]]"
| "str_split d (c # cs) =
     (if c = d then [] # str_split d cs
      else (case str_split d cs of [] \<Rightarrow> [[c]] | seg # segs \<Rightarrow> (c # seg) # segs))"

text \<open>ASCII classes of \<^verbatim>\<open>u8\<close>, on the byte of a character.\<close>

definition byte_of :: "char \<Rightarrow> nat" where
  "byte_of c = of_char c"

definition is_ascii_digit :: "char \<Rightarrow> bool" where
  "is_ascii_digit c = (48 \<le> byte_of c \<and> byte_of c \<le> 57)"

definition is_ascii_uppercase :: "char \<Rightarrow> bool" where
  "is_ascii_uppercase c = (65 \<le> byte_of c \<and> byte_of c \<le> 90)"

definition is_ascii_lowercase :: "char \<Rightarrow> bool" where
  "is_ascii_lowercase c = (97 \<le> byte_of c \<and> byte_of c \<le> 122)"

definition is_ascii_hexdigit :: "char \<Rightarrow> bool" where
  "is_ascii_hexdigit c =
     (is_ascii_digit c \<or> 65 \<le> byte_of c \<and> byte_of c \<le> 70 \<or> 97 \<le> byte_of c \<and> byte_of c \<le> 102)"

definition ascii_lower :: "char \<Rightarrow> char" where
  "ascii_lower c = (if is_ascii_uppercase c then char_of (byte_of c + 32) else c)"

text \<open>Decimal digits, as \<open>format!("{}", n)\<close> prints an unsigned integer.\<close>

definition digit_char :: "nat \<Rightarrow> char" where
  "digit_char d = char_of (48 + d)"

fun decimal :: "nat \<Rightarrow> string" where
  "decimal n = (if n < 10 then [digit_char n] else decimal (n div 10) @ [digit_char (n mod 10)])"

declare decimal.simps [simp del]

text \<open>The lookup table \<open>b"0123456789abcdef"\<close> the kernel's hexadecimal writers share.\<close>

definition HEX :: string where
  "HEX = ''0123456789abcdef''"

definition hex_byte :: "u8 \<Rightarrow> string" where
  "hex_byte b = [HEX ! unat (drop_bit 4 b), HEX ! unat (b AND 0x0f)]"

definition hex_bytes :: "bytes \<Rightarrow> string" where
  "hex_bytes bs = concat (map hex_byte bs)"

section \<open>Lemmas on results and arithmetic\<close>

lemma is_ok_simps [simp]: "is_ok (Ok a)" "\<not> is_ok (Err e)"
  by (simp_all add: is_ok_def)

lemma is_ok_iff: "is_ok r \<longleftrightarrow> (\<exists>a. r = Ok a)"
  by (cases r) simp_all

lemma map_err_simps [simp]: "map_err f (Ok a) = Ok a" "map_err f (Err e) = Err (f e)"
  by (simp_all add: map_err_def)

lemma map_err_Ok_iff [simp]: "map_err f r = Ok a \<longleftrightarrow> r = Ok a"
  by (cases r) simp_all

lemma unat_minus_one_eq: "unat (- 1 :: 'a::len word) = 2 ^ LENGTH('a) - 1"
  by (simp add: unsigned_minus_1_eq_mask mask_eq_exp_minus_1)

lemma unat_bound: "unat w < 2 ^ LENGTH('a)" for w :: "'a::len word"
  by (rule unsigned_less)

lemma unat_saturating_add:
  "unat (saturating_add a b) = min (unat a + unat b) (2 ^ LENGTH('a) - 1)" for a b :: "'a::len word"
  by (auto simp: saturating_add_def unat_word_ariths unat_minus_one_eq)

lemma unat_checked_add:
  "checked_add a b = Some c \<Longrightarrow> unat c = unat a + unat b" for a b :: "'a::len word"
  by (auto simp: checked_add_def unat_word_ariths split: if_splits)

section \<open>Lemmas on byte encodings\<close>

lemma length_as_bytes [simp, bytes_simps]: "length (as_bytes s) = length s"
  by (simp add: as_bytes_def)

lemma as_bytes_append [simp]: "as_bytes (s @ t) = as_bytes s @ as_bytes t"
  by (simp add: as_bytes_def)

lemma as_bytes_Nil_iff [simp]: "as_bytes s = [] \<longleftrightarrow> s = []"
  by (simp add: as_bytes_def)

lemma unat_of_char [simp]: "unat (of_char c :: u8) = of_char c"
proof -
  have "unat (of_nat (of_char c) :: u8) = of_char c"
    by (simp only: unat_of_nat) simp
  then show ?thesis by (simp only: of_nat_of_char)
qed

lemma of_char_word_inj: "(of_char c :: u8) = of_char d \<Longrightarrow> c = d"
  by (metis unat_of_char of_char_eqI)

lemma as_bytes_inj [simp, bytes_simps]: "as_bytes s = as_bytes t \<longleftrightarrow> s = t"
proof
  show "as_bytes s = as_bytes t \<Longrightarrow> s = t"
    unfolding as_bytes_def by (induction s arbitrary: t) (auto dest: of_char_word_inj)
qed simp

lemma length_be_bytes [simp, bytes_simps]: "length (be_bytes n w) = n"
  by (simp add: be_bytes_def)

lemma length_le_bytes [simp, bytes_simps]: "length (le_bytes n w) = n"
  by (simp add: le_bytes_def)

lemma be_bytes_rev_le: "be_bytes n w = rev (le_bytes n w)"
  by (simp add: be_bytes_def le_bytes_def rev_map)

lemma le_bytes_inj [bytes_simps]:
  fixes v w :: "'a::len word"
  assumes "LENGTH('a) \<le> 8 * n"
  shows "le_bytes n v = le_bytes n w \<longleftrightarrow> v = w"
proof
  assume eq: "le_bytes n v = le_bytes n w"
  show "v = w"
  proof (rule bit_word_eqI)
    fix k assume k: "k < LENGTH('a)"
    let ?i = "k div 8" and ?j = "k mod 8"
    have i: "?i < n" using assms k by auto
    have "(ucast (drop_bit (8 * ?i) v) :: u8) = ucast (drop_bit (8 * ?i) w)"
      using eq i by (simp add: le_bytes_def)
    then have "bit (ucast (drop_bit (8 * ?i) v) :: u8) ?j = bit (ucast (drop_bit (8 * ?i) w) :: u8) ?j"
      by simp
    then show "bit v k = bit w k"
      by (simp add: bit_ucast_iff bit_drop_bit_eq)
  qed
qed simp

lemma be_bytes_inj [bytes_simps]:
  "LENGTH('a) \<le> 8 * n \<Longrightarrow> be_bytes n v = be_bytes n w \<longleftrightarrow> v = w" for v w :: "'a::len word"
  by (simp add: be_bytes_rev_le le_bytes_inj)

section \<open>Lemmas on lists\<close>

text \<open>A separator that does not occur in the first part determines the cut.\<close>

lemma append_sep_eq:
  "c \<notin> set x \<Longrightarrow> c \<notin> set x' \<Longrightarrow> x @ c # y = x' @ c # y' \<longleftrightarrow> x = x' \<and> y = y'"
proof (induction x arbitrary: x')
  case Nil
  then show ?case by (cases x') auto
next
  case (Cons a x)
  then show ?case by (cases x') auto
qed

lemma xor_eq_zero_iff: "x XOR y = 0 \<longleftrightarrow> x = y" for x y :: "'a::len word"
proof
  assume "x XOR y = 0"
  then have "(x XOR y) XOR y = y" by simp
  then show "x = y" by (simp add: xor.assoc)
qed simp

section \<open>Lemmas on strings\<close>

lemma str_contains_iff [str_simps]: "str_contains h n \<longleftrightarrow> sublist n h"
  by (induction h) (auto simp: sublist_Cons_right)

lemma starts_with_iff [str_simps]: "starts_with s p \<longleftrightarrow> (\<exists>t. s = p @ t)"
  by (auto simp: starts_with_def prefix_def)

lemma str_contains_append: "str_contains (xs @ n @ ys) n"
  by (auto simp: str_contains_iff sublist_def)

lemma str_rfind_None: "str_rfind s n = None \<longleftrightarrow> \<not> str_contains s n"
  by (induction s) (auto split: option.splits)

lemma str_rfind_Some:
  "str_rfind s n = Some i \<Longrightarrow> i + length n \<le> length s \<and> s = take i s @ n @ drop (i + length n) s"
proof (induction s arbitrary: i)
  case Nil
  then show ?case by (auto split: if_splits)
next
  case (Cons c cs)
  then show ?case
    by (auto split: option.splits if_splits simp: prefix_def dest: arg_cong [where f = length])
qed

lemma str_rfind_last:
  "str_rfind s n = Some i \<Longrightarrow> \<not> str_contains (drop (Suc i) s) n \<or> n = []"
proof (induction s arbitrary: i)
  case (Cons c cs)
  then show ?case
    by (auto split: option.splits if_splits simp: str_rfind_None)
qed simp

text \<open>
  When the text after a match has no further match, not even one that overlaps the first,
  \<open>rfind\<close> finds that match.
\<close>

lemma str_rfind_append:
  assumes "n \<noteq> []" and "\<not> str_contains (tl n @ t) n"
  shows "str_rfind (r @ n @ t) n = Some (length r)"
proof (induction r)
  case Nil
  from assms(1) obtain x xs where n: "n = x # xs" by (cases n) auto
  then have "str_rfind (xs @ t) n = None"
    using assms(2) by (simp add: str_rfind_None)
  then show ?case using n by (auto simp: prefix_def)
next
  case (Cons c r)
  then show ?case by simp
qed

lemma str_split_nonempty [simp]: "str_split d s \<noteq> []"
  by (induction s) (auto split: list.splits)

lemma str_split_no_sep: "d \<notin> set s \<Longrightarrow> str_split d s = [s]"
  by (induction s) auto

lemma str_split_append:
  "d \<notin> set s \<Longrightarrow> str_split d (s @ d # t) = s # str_split d t"
  by (induction s) auto

lemma str_split_seg_no_sep: "seg \<in> set (str_split d s) \<Longrightarrow> d \<notin> set seg"
proof (induction s arbitrary: seg)
  case (Cons c cs)
  obtain sg sgs where sp: "str_split d cs = sg # sgs"
    by (cases "str_split d cs") auto
  with Cons show ?case by (cases "c = d") auto
qed simp

text \<open>Joining the segments with the separator gives the string back.\<close>

lemma str_split_seg_subset: "seg \<in> set (str_split d s) \<Longrightarrow> set seg \<subseteq> set s"
proof (induction s arbitrary: seg)
  case (Cons c cs)
  obtain sg sgs where sp: "str_split d cs = sg # sgs"
    by (cases "str_split d cs") auto
  then show ?case using Cons.prems Cons.IH [of sg] Cons.IH [of seg] by (auto split: if_splits)
qed simp

fun str_join :: "char \<Rightarrow> string list \<Rightarrow> string" where
  "str_join d [] = []"
| "str_join d [s] = s"
| "str_join d (s # t # ts) = s @ d # str_join d (t # ts)"

lemma str_join_split: "str_join d (str_split d s) = s"
proof (induction s)
  case (Cons c cs)
  obtain sg sgs where sp: "str_split d cs = sg # sgs"
    by (cases "str_split d cs") auto
  then show ?case using Cons by (cases "c = d"; cases sgs) auto
qed simp

section \<open>Lemmas on decimal and hexadecimal text\<close>

lemma byte_of_digit_char: "d < 10 \<Longrightarrow> byte_of (digit_char d) = 48 + d"
  by (simp add: byte_of_def digit_char_def)

lemma digit_char_inj: "d < 10 \<Longrightarrow> e < 10 \<Longrightarrow> digit_char d = digit_char e \<longleftrightarrow> d = e"
  by (metis byte_of_digit_char add_left_imp_eq)

lemma is_ascii_digit_digit_char: "d < 10 \<Longrightarrow> is_ascii_digit (digit_char d)"
  by (simp add: is_ascii_digit_def byte_of_digit_char)

lemma decimal_digits: "c \<in> set (decimal n) \<Longrightarrow> is_ascii_digit c"
proof (induction n rule: decimal.induct)
  case (1 n)
  then show ?case
    by (subst (asm) (2) decimal.simps) (auto split: if_splits simp: is_ascii_digit_digit_char)
qed

lemma decimal_nonempty [simp]: "decimal n \<noteq> []" "[] \<noteq> decimal n"
  by (subst decimal.simps, simp)+

lemma decimal_inj: "decimal m = decimal n \<Longrightarrow> m = n"
proof (induction m arbitrary: n rule: decimal.induct)
  case (1 m)
  show ?case
  proof (cases "m < 10"; cases "n < 10")
    assume "m < 10" "n < 10"
    with "1.prems" show ?thesis by (simp add: decimal.simps digit_char_inj)
  next
    assume "m < 10" "\<not> n < 10"
    with "1.prems" show ?thesis by (simp add: decimal.simps [of m] decimal.simps [of n])
  next
    assume "\<not> m < 10" "n < 10"
    with "1.prems" show ?thesis by (simp add: decimal.simps [of m] decimal.simps [of n])
  next
    assume mn: "\<not> m < 10" "\<not> n < 10"
    with "1.prems" have "decimal (m div 10) = decimal (n div 10)"
      and "digit_char (m mod 10) = digit_char (n mod 10)"
      by (simp_all add: decimal.simps [of m] decimal.simps [of n])
    with "1.IH" mn have "m div 10 = n div 10" and "m mod 10 = n mod 10"
      by (simp_all add: digit_char_inj)
    then show ?thesis by (metis div_mult_mod_eq)
  qed
qed

lemma length_hex_byte [simp]: "length (hex_byte b) = 2"
  by (simp add: hex_byte_def)

lemma length_hex_bytes [simp]: "length (hex_bytes bs) = 2 * length bs"
  by (induction bs) (simp_all add: hex_bytes_def)

lemma nth_HEX_inj: "i < 16 \<Longrightarrow> j < 16 \<Longrightarrow> HEX ! i = HEX ! j \<longleftrightarrow> i = j"
proof -
  have "distinct HEX" by (simp add: HEX_def)
  moreover have "length HEX = 16" by (simp add: HEX_def)
  ultimately show "i < 16 \<Longrightarrow> j < 16 \<Longrightarrow> HEX ! i = HEX ! j \<longleftrightarrow> i = j"
    by (simp add: nth_eq_iff_index_eq)
qed

lemma nibbles_bound: "unat (drop_bit 4 (b :: u8)) < 16" "unat (b AND 0x0f) < 16" for b :: u8
proof -
  have "unat b < 2 ^ 8" using unsigned_less [of b] by simp
  then have "unat b div 2 ^ 4 < 16" by simp
  then show "unat (drop_bit 4 b) < 16"
    by (simp add: drop_bit_eq_div unat_div)
  have "b AND 0x0f \<le> 0x0f" by (rule word_and_le1)
  then show "unat (b AND 0x0f) < 16" by (simp add: word_le_nat_alt)
qed

lemma nibbles_eq:
  "drop_bit 4 (a :: u8) = drop_bit 4 b \<Longrightarrow> a AND 0x0f = b AND 0x0f \<Longrightarrow> a = b"
proof -
  assume hi: "drop_bit 4 a = drop_bit 4 b" and lo: "a AND 0x0f = b AND 0x0f"
  have m: "x AND 0x0f = take_bit 4 x" for x :: u8
    by (simp add: take_bit_eq_mask mask_eq_exp_minus_1)
  have "push_bit 4 (drop_bit 4 a) + take_bit 4 a = push_bit 4 (drop_bit 4 b) + take_bit 4 b"
    using hi lo by (simp add: m)
  then show "a = b" by (simp only: bits_ident)
qed

lemma hex_byte_inj [simp]: "hex_byte a = hex_byte b \<longleftrightarrow> a = b"
proof
  assume "hex_byte a = hex_byte b"
  then have "HEX ! unat (drop_bit 4 a) = HEX ! unat (drop_bit 4 b)"
    and "HEX ! unat (a AND 0x0f) = HEX ! unat (b AND 0x0f)"
    by (simp_all only: hex_byte_def list.inject)
  then have "drop_bit 4 a = drop_bit 4 b" and "a AND 0x0f = b AND 0x0f"
    by (simp_all only: nth_HEX_inj nibbles_bound unsigned_word_eqI)
  then show "a = b" by (rule nibbles_eq)
qed simp

lemma hex_bytes_inj: "length as = length bs \<Longrightarrow> hex_bytes as = hex_bytes bs \<longleftrightarrow> as = bs"
  by (induction as bs rule: list_induct2) (simp_all add: hex_bytes_def)

lemma hex_byte_lower: "c \<in> set (hex_byte b) \<Longrightarrow> c \<in> set HEX"
proof -
  have "length HEX = 16" by (simp add: HEX_def)
  then show "c \<in> set (hex_byte b) \<Longrightarrow> c \<in> set HEX"
    using nibbles_bound [of b] by (auto simp: hex_byte_def)
qed

lemma hex_bytes_lower: "c \<in> set (hex_bytes bs) \<Longrightarrow> c \<in> set HEX"
  by (auto simp: hex_bytes_def dest: hex_byte_lower)

end
