(* ===== verification/Hash_Chain.thy ===== *)
theory Hash_Chain
  imports Prelude
begin

text \<open>
  Hash-linked logs. The cosign chain and the reflection room both keep a list of records in which
  each record carries the hash of its predecessor. The locale \<open>hash_chain\<close> states what the two have in
  common: the canonical bytes of a record determine its link, hashes and the genesis value are
  well-formed links. Its lemmas show what such a log commits to, up to an explicit collision of the
  hash function, so no injectivity of the hash is assumed.
\<close>

locale hash_chain =
  fixes H :: "'b \<Rightarrow> 'h"
    and canon :: "'r \<Rightarrow> 'b"
    and link :: "'r \<Rightarrow> 'h"
    and genesis :: 'h
    and wf_link :: "'h \<Rightarrow> bool"
    and wf_rec :: "'r \<Rightarrow> bool"
  assumes canon_link: "wf_rec r \<Longrightarrow> wf_rec r' \<Longrightarrow> wf_link (link r) \<Longrightarrow> wf_link (link r') \<Longrightarrow>
      canon r = canon r' \<Longrightarrow> link r = link r'"
    and wf_hash: "wf_link (H b)"
    and wf_genesis: "wf_link genesis"
begin

fun linked_from :: "'h \<Rightarrow> 'r list \<Rightarrow> bool" where
  "linked_from p [] = True"
| "linked_from p (r # rs) = (link r = p \<and> linked_from (H (canon r)) rs)"

fun head_from :: "'h \<Rightarrow> 'r list \<Rightarrow> 'h" where
  "head_from p [] = p"
| "head_from p (r # rs) = head_from (H (canon r)) rs"

definition collision_in :: "'r list \<Rightarrow> 'r list \<Rightarrow> bool" where
  "collision_in xs ys \<longleftrightarrow> (\<exists>x \<in> set xs. \<exists>y \<in> set ys. canon x \<noteq> canon y \<and> H (canon x) = H (canon y))"

lemma linked_snoc [simp]: "linked_from p (rs @ [r]) \<longleftrightarrow> linked_from p rs \<and> link r = head_from p rs"
  by (induction rs arbitrary: p) auto

lemma head_snoc [simp]: "head_from p (rs @ [r]) = H (canon r)"
  by (induction rs arbitrary: p) auto

lemma linked_append: "linked_from p (xs @ ys) \<longleftrightarrow> linked_from p xs \<and> linked_from (head_from p xs) ys"
  by (induction xs arbitrary: p) auto

lemma wf_head: "wf_link p \<Longrightarrow> wf_link (head_from p rs)"
  by (cases rs rule: rev_cases) (auto intro: wf_hash)

lemma collision_mono:
  "collision_in xs ys \<Longrightarrow> set xs \<subseteq> set xs' \<Longrightarrow> set ys \<subseteq> set ys' \<Longrightarrow> collision_in xs' ys'"
  unfolding collision_in_def by blast

text \<open>The head commits to the whole log: two logs of the same length with the same head have the
  same canonical bytes, record by record, or exhibit a collision.\<close>

lemma head_commits:
  assumes "length xs = length ys" and "linked_from genesis xs" and "linked_from genesis ys"
    and "list_all wf_rec xs" and "list_all wf_rec ys" and "head_from genesis xs = head_from genesis ys"
  shows "map canon xs = map canon ys \<or> collision_in xs ys"
  using assms
proof (induction xs arbitrary: ys rule: rev_induct)
  case (snoc x xs)
  obtain zs z where ys: "ys = zs @ [z]" using snoc.prems(1) by (cases ys rule: rev_cases) auto
  show ?case
  proof (cases "canon x = canon z")
    case False
    then show ?thesis using snoc.prems(6) ys by (auto simp: collision_in_def)
  next
    case True
    have "wf_link (link x)" "wf_link (link z)"
      using snoc.prems(2,3) ys wf_head wf_genesis by auto
    then have "link x = link z" using True snoc.prems(4,5) ys canon_link by simp
    then have "head_from genesis xs = head_from genesis zs" using snoc.prems(2,3) ys by simp
    then have "map canon xs = map canon zs \<or> collision_in xs zs"
      using snoc.IH snoc.prems ys by simp
    then show ?thesis using True ys by (auto intro: collision_mono)
  qed
qed simp

text \<open>Every record but the last is pinned by the link of its successor.\<close>

lemma prefix_commits:
  assumes "length xs = length ys" and "linked_from genesis (xs @ [x])" and "linked_from genesis (ys @ [y])"
    and "list_all wf_rec xs" and "list_all wf_rec ys" and "link x = link y"
  shows "map canon xs = map canon ys \<or> collision_in xs ys"
  using assms by (intro head_commits) auto

end

end
