(* ===== verification/Tickets.thy ===== *)
theory Tickets
  imports Prelude
begin

text \<open>
  Counters that hand out numbers. Transit ids, cosign sequence numbers, process handles and the
  kernel clock all come from a 64-bit \<open>fetch_add(1)\<close>, which wraps. The locale \<open>ticket_counter\<close> is that
  contract; its lemmas give the promise the callers want (no number twice, increasing order) together
  with the bound under which it holds.
\<close>

locale ticket_counter =
  fixes issue :: "'r \<Rightarrow> 's \<Rightarrow> u64 option \<times> 's"
    and counter :: "'s \<Rightarrow> u64"
    and off :: u64
  assumes issued: "issue r s = (Some v, t) \<Longrightarrow> v = counter s + off \<and> counter t = counter s + 1"
    and refused: "issue r s = (None, t) \<Longrightarrow> counter t = counter s"
begin

text \<open>The numbers a sequence of requests is given.\<close>

fun tickets :: "'r list \<Rightarrow> 's \<Rightarrow> u64 list" where
  "tickets [] s = []"
| "tickets (r # rs) s =
     (case issue r s of (Some v, t) \<Rightarrow> v # tickets rs t | (None, t) \<Rightarrow> tickets rs t)"

lemma length_tickets: "length (tickets rs s) \<le> length rs"
proof (induction rs arbitrary: s)
  case (Cons r rs)
  show ?case
  proof (cases "issue r s")
    case (Pair v t)
    then show ?thesis using Cons.IH [of t] by (cases v) auto
  qed
qed simp

lemma tickets_nth:
  "i < length (tickets rs s) \<Longrightarrow> tickets rs s ! i = counter s + word_of_nat i + off"
proof (induction rs arbitrary: s i)
  case (Cons r rs)
  obtain v t where iss: "issue r s = (v, t)" by fastforce
  show ?case
  proof (cases v)
    case None
    then show ?thesis using Cons iss refused [of r s t] by simp
  next
    case (Some x)
    note p = issued [of r s x t]
    show ?thesis
    proof (cases i)
      case 0
      then show ?thesis using iss Some p by simp
    next
      case (Suc j)
      then show ?thesis using Cons iss Some p by simp
    qed
  qed
qed simp

lemma tickets_distinct:
  assumes "length rs < 2 ^ 64"
  shows "distinct (tickets rs s)"
proof (subst distinct_conv_nth, intro allI impI)
  fix i j assume ij: "i < length (tickets rs s)" "j < length (tickets rs s)" "i \<noteq> j"
  then have b: "i < 2 ^ 64" "j < 2 ^ 64" using length_tickets [of rs s] assms by linarith+
  show "tickets rs s ! i \<noteq> tickets rs s ! j"
  proof
    assume "tickets rs s ! i = tickets rs s ! j"
    then have "(word_of_nat i :: u64) = word_of_nat j" using ij by (simp add: tickets_nth)
    then have "unat (word_of_nat i :: u64) = unat (word_of_nat j :: u64)" by simp
    then show False using b ij(3) by (simp add: unat_of_nat)
  qed
qed

lemma tickets_increasing:
  assumes "unat (counter s + off) + length rs < 2 ^ 64"
  shows "sorted_wrt (<) (tickets rs s)"
proof (subst sorted_wrt_iff_nth_less, intro allI impI)
  fix i j assume ij: "i < j" "j < length (tickets rs s)"
  then have b: "j < length rs" "i < length rs" using length_tickets [of rs s] by linarith+
  have val: "unat (counter s + word_of_nat k + off) = unat (counter s + off) + k" if "k < length rs" for k
  proof -
    have "unat (word_of_nat k :: u64) = k" using that assms by (simp add: unat_of_nat)
    then have "unat (counter s + off + word_of_nat k) = unat (counter s + off) + k"
      using that assms by (simp add: unat_word_ariths(1) [of "counter s + off"])
    then show ?thesis by (simp add: ac_simps)
  qed
  show "tickets rs s ! i < tickets rs s ! j"
    using ij val [OF b(1)] val [OF b(2)] by (simp add: tickets_nth word_less_nat_alt)
qed

end

end
