(* ===== verification/Syscall_Types.thy ===== *)
theory Syscall_Types
  imports Prelude
begin

text \<open>
  The types that \<^verbatim>\<open>kernel/core/src/syscall/mod.rs\<close> declares and every other component uses: the error
  type, the hookwall verdict and the seven access tiers with their order.
\<close>

datatype SyscallErr =
  Unimplemented | Invalid | WouldBlock | PermissionDenied | HookwallBlock | Exhausted | CosignReject

datatype HookwallVerdict = Proceed | Hold | Block

datatype AccessTier = Public | Restricted | Stealth | Hidden | Shadow | Secret | Sovereignty

text \<open>\<open>tier_gate::tier_rank\<close>: the declaration order of the tiers, ascending in sensitivity.\<close>

fun tier_rank :: "AccessTier \<Rightarrow> u8" where
  "tier_rank AccessTier.Public = 0"
| "tier_rank AccessTier.Restricted = 1"
| "tier_rank AccessTier.Stealth = 2"
| "tier_rank AccessTier.Hidden = 3"
| "tier_rank AccessTier.Shadow = 4"
| "tier_rank AccessTier.Secret = 5"
| "tier_rank AccessTier.Sovereignty = 6"

lemma tier_rank_inj [simp]: "tier_rank a = tier_rank b \<longleftrightarrow> a = b"
  by (cases a; cases b; simp)

text \<open>The documented order: Public < Restricted < ... < Sovereignty.\<close>

instantiation AccessTier :: linorder
begin

definition less_eq_AccessTier :: "AccessTier \<Rightarrow> AccessTier \<Rightarrow> bool" where
  "a \<le> b \<longleftrightarrow> tier_rank a \<le> tier_rank b"

definition less_AccessTier :: "AccessTier \<Rightarrow> AccessTier \<Rightarrow> bool" where
  "a < b \<longleftrightarrow> tier_rank a < tier_rank b"

instance
proof
  fix x y z :: AccessTier
  show "x < y \<longleftrightarrow> x \<le> y \<and> \<not> y \<le> x"
    unfolding less_eq_AccessTier_def less_AccessTier_def by (rule less_le_not_le)
  show "x \<le> x" "x \<le> y \<or> y \<le> x"
    unfolding less_eq_AccessTier_def by (rule order_refl, rule linear)
  show "x \<le> y \<Longrightarrow> y \<le> z \<Longrightarrow> x \<le> z"
    unfolding less_eq_AccessTier_def by (rule order_trans)
  show "x \<le> y \<Longrightarrow> y \<le> x \<Longrightarrow> x = y"
    unfolding less_eq_AccessTier_def using order_antisym tier_rank_inj by blast
qed

end

lemmas tier_order = less_eq_AccessTier_def less_AccessTier_def

lemma tier_all: "(\<forall>t. P t) \<longleftrightarrow> P AccessTier.Public \<and> P AccessTier.Restricted \<and> P AccessTier.Stealth \<and>
  P AccessTier.Hidden \<and> P AccessTier.Shadow \<and> P AccessTier.Secret \<and> P AccessTier.Sovereignty"
  by (metis AccessTier.exhaust)

text \<open>The strictest verdict wins: Proceed < Hold < Block.\<close>

fun verdict_rank :: "HookwallVerdict \<Rightarrow> nat" where
  "verdict_rank Proceed = 0"
| "verdict_rank Hold = 1"
| "verdict_rank Block = 2"

lemma verdict_rank_inj: "verdict_rank a = verdict_rank b \<Longrightarrow> a = b"
  by (cases a; cases b; simp)

instantiation HookwallVerdict :: linorder
begin

definition less_eq_HookwallVerdict :: "HookwallVerdict \<Rightarrow> HookwallVerdict \<Rightarrow> bool" where
  "a \<le> b \<longleftrightarrow> verdict_rank a \<le> verdict_rank b"

definition less_HookwallVerdict :: "HookwallVerdict \<Rightarrow> HookwallVerdict \<Rightarrow> bool" where
  "a < b \<longleftrightarrow> verdict_rank a < verdict_rank b"

instance
  by standard (auto simp: less_eq_HookwallVerdict_def less_HookwallVerdict_def intro: verdict_rank_inj)

end

lemmas verdict_order = less_eq_HookwallVerdict_def less_HookwallVerdict_def

end
