(* ===== verification/Frame_Alloc.thy ===== *)
theory Frame_Alloc
  imports Prelude
begin

text \<open>
  The frame allocator \<^verbatim>\<open>kernel/core/src/frame_alloc/mod.rs\<close>: a bump allocator over the synthetic
  range \<open>[VIRTUAL_BASE_START, VIRTUAL_BASE_END)\<close>. The static \<open>NEXT_VIRTUAL_BASE\<close> is the state, passed
  explicitly. \<open>alloc_pages\<close> is the call as it runs without contention (its compare-exchange loop
  succeeds at once); \<open>alloc_step\<close> is the same loop with every atomic access a step of its own, run by
  any number of threads in any order. The contract of a bump allocator is the locale
  \<open>bump_allocator\<close>, interpreted on \<open>alloc_pages\<close>.
\<close>

section \<open>Constants, errors and operations\<close>

definition PAGE_BYTES :: usize where "PAGE_BYTES = 4096"
definition POOL_PAGES :: usize where "POOL_PAGES = 16384"
definition POOL_BYTES :: usize where "POOL_BYTES = POOL_PAGES * PAGE_BYTES"
definition VIRTUAL_BASE_START :: usize where "VIRTUAL_BASE_START = 0x1000"
definition VIRTUAL_BASE_END :: usize where "VIRTUAL_BASE_END = VIRTUAL_BASE_START + POOL_BYTES"

datatype FrameErr = PoolExhausted | InvalidLen | InvalidPointer | NotPageAligned | Unimplemented

text \<open>\<open>pages_needed * PAGE_BYTES\<close>, with the wrap-around of the unchecked \<open>len + PAGE_BYTES - 1\<close>.\<close>

definition bytes_needed :: "usize \<Rightarrow> usize" where
  "bytes_needed len = (let pages_needed = (len + PAGE_BYTES - 1) div PAGE_BYTES
                       in pages_needed * PAGE_BYTES)"

definition alloc_pages :: "usize \<Rightarrow> usize \<Rightarrow> (usize, FrameErr) result \<times> usize" where
  "alloc_pages len next =
     (if len = 0 then (Err FrameErr.InvalidLen, next)
      else let new_next = saturating_add next (bytes_needed len)
           in if new_next > VIRTUAL_BASE_END then (Err FrameErr.PoolExhausted, next)
              else (Ok next, new_next))"

definition free_pages :: "usize \<Rightarrow> usize \<Rightarrow> (unit, FrameErr) result" where
  "free_pages ptr len =
     (if ptr = 0 then Err FrameErr.InvalidPointer
      else if len = 0 then Err FrameErr.InvalidLen
      else if ptr < VIRTUAL_BASE_START \<or> ptr \<ge> VIRTUAL_BASE_END then Err FrameErr.InvalidPointer
      else if ptr mod PAGE_BYTES \<noteq> 0 then Err FrameErr.NotPageAligned
      else Ok ())"

definition used_bytes :: "usize \<Rightarrow> usize" where
  "used_bytes next = next - VIRTUAL_BASE_START"

definition free_bytes :: "usize \<Rightarrow> usize" where
  "free_bytes next = VIRTUAL_BASE_END - next"

section \<open>The compare-exchange loop, step by step\<close>

text \<open>
  A thread is about to call \<open>alloc_pages(len)\<close>, or is at the head of its loop with its local
  \<open>bytes_needed\<close> and \<open>current\<close>, or has returned.
\<close>

datatype alloc_pc =
    AReq usize
  | ALoop usize usize
  | ADone usize "(usize, FrameErr) result"

record alloc_sys =
  watermark :: usize
  threads :: "nat \<Rightarrow> alloc_pc"

definition set_pc :: "alloc_sys \<Rightarrow> nat \<Rightarrow> alloc_pc \<Rightarrow> alloc_sys" where
  "set_pc s i p = s\<lparr>threads := (threads s)(i := p)\<rparr>"

inductive alloc_step :: "alloc_sys \<Rightarrow> alloc_sys \<Rightarrow> bool" where
  reject: "threads s i = AReq 0 \<Longrightarrow>
     alloc_step s (set_pc s i (ADone 0 (Err FrameErr.InvalidLen)))"
| load: "threads s i = AReq len \<Longrightarrow> len \<noteq> 0 \<Longrightarrow>
     alloc_step s (set_pc s i (ALoop (bytes_needed len) (watermark s)))"
| exhausted: "threads s i = ALoop b cur \<Longrightarrow> saturating_add cur b > VIRTUAL_BASE_END \<Longrightarrow>
     alloc_step s (set_pc s i (ADone b (Err FrameErr.PoolExhausted)))"
| cas_ok: "threads s i = ALoop b cur \<Longrightarrow> \<not> saturating_add cur b > VIRTUAL_BASE_END \<Longrightarrow>
     watermark s = cur \<Longrightarrow>
     alloc_step s ((set_pc s i (ADone b (Ok cur)))\<lparr>watermark := saturating_add cur b\<rparr>)"
| cas_fail: "threads s i = ALoop b cur \<Longrightarrow> \<not> saturating_add cur b > VIRTUAL_BASE_END \<Longrightarrow>
     watermark s \<noteq> cur \<Longrightarrow>
     alloc_step s (set_pc s i (ALoop b (watermark s)))"

text \<open>Boot state: the watermark at its base and every thread yet to make its request.\<close>

definition alloc_init :: "alloc_sys \<Rightarrow> bool" where
  "alloc_init s \<longleftrightarrow> watermark s = VIRTUAL_BASE_START \<and> (\<forall>i. \<exists>len. threads s i = AReq len)"

inductive alloc_reachable :: "alloc_sys \<Rightarrow> bool" where
  start: "alloc_init s \<Longrightarrow> alloc_reachable s"
| step: "alloc_reachable s \<Longrightarrow> alloc_step s t \<Longrightarrow> alloc_reachable t"

section \<open>The contract of a bump allocator\<close>

text \<open>
  \<open>alloc\<close> on the watermark \<open>n\<close> either leaves it, or returns it and moves it up by at least the size
  requested, inside \<open>[lo, hi]\<close>. \<open>fits\<close> is the range of requests the promise is made for.
\<close>

locale bump_allocator =
  fixes alloc :: "'r \<Rightarrow> nat \<Rightarrow> nat option \<times> nat"
    and size_of :: "'r \<Rightarrow> nat"
    and fits :: "'r \<Rightarrow> bool"
    and lo :: nat and hi :: nat
  assumes alloc_None: "alloc r n = (None, n') \<Longrightarrow> n' = n"
    and alloc_Some: "alloc r n = (Some p, n') \<Longrightarrow> fits r \<Longrightarrow>
          n \<le> p \<and> p + size_of r \<le> n' \<and> n' \<le> hi"
begin

text \<open>The blocks a sequence of requests is given, with their sizes.\<close>

fun blocks :: "'r list \<Rightarrow> nat \<Rightarrow> (nat \<times> nat) list" where
  "blocks [] n = []"
| "blocks (r # rs) n =
     (case alloc r n of (None, n') \<Rightarrow> blocks rs n'
                      | (Some p, n') \<Rightarrow> (p, size_of r) # blocks rs n')"

lemma blocks_above:
  "list_all fits rs \<Longrightarrow> (p, k) \<in> set (blocks rs n) \<Longrightarrow> n \<le> p \<and> p + k \<le> hi"
proof (induction rs arbitrary: n)
  case (Cons r rs)
  obtain res n' where al: "alloc r n = (res, n')" by fastforce
  show ?case
  proof (cases res)
    case None
    with al Cons show ?thesis by (auto dest: alloc_None)
  next
    case (Some q)
    with al Cons.prems(1) have "n \<le> q \<and> q + size_of r \<le> n' \<and> n' \<le> hi"
      by (auto dest: alloc_Some)
    with al Some Cons show ?thesis by fastforce
  qed
qed simp

lemma blocks_disjoint:
  "list_all fits rs \<Longrightarrow>
   sorted_wrt (\<lambda>(p, k) (q, l). p + k \<le> q) (blocks rs n)"
proof (induction rs arbitrary: n)
  case (Cons r rs)
  obtain res n' where al: "alloc r n = (res, n')" by fastforce
  show ?case
  proof (cases res)
    case None
    with al Cons show ?thesis by simp
  next
    case (Some q)
    with al Cons.prems have "q + size_of r \<le> n'" by (auto dest: alloc_Some)
    with al Some Cons show ?thesis
      by (auto dest!: blocks_above [rotated])
  qed
qed simp

end

section \<open>Arithmetic of the constants and of the rounding\<close>

lemmas frame_consts = PAGE_BYTES_def POOL_PAGES_def POOL_BYTES_def VIRTUAL_BASE_START_def
  VIRTUAL_BASE_END_def

definition frame_inv :: "usize \<Rightarrow> bool" where
  "frame_inv n \<longleftrightarrow> VIRTUAL_BASE_START \<le> n \<and> n \<le> VIRTUAL_BASE_END \<and> unat n mod 4096 = 0"

lemma unat_END: "unat VIRTUAL_BASE_END = 67112960"
  by (simp add: frame_consts)

lemma unat_START: "unat VIRTUAL_BASE_START = 4096"
  by (simp add: frame_consts)

lemma frame_inv_init: "frame_inv VIRTUAL_BASE_START"
  by (simp add: frame_inv_def frame_consts)

lemma unat_bytes_needed:
  assumes "unat len + 4095 < 2 ^ 64"
  shows "unat (bytes_needed len) = (unat len + 4095) div 4096 * 4096"
proof -
  have eq: "len + PAGE_BYTES - 1 = len + 4095" by (simp add: PAGE_BYTES_def)
  have 1: "unat (len + 4095) = unat len + 4095"
    using assms by (simp add: unat_word_ariths)
  then have 2: "unat ((len + 4095) div 4096) = (unat len + 4095) div 4096"
    by (simp add: unat_div)
  moreover have "(unat len + 4095) div 4096 * 4096 < 2 ^ 64"
    using assms by (auto intro: le_less_trans [OF div_times_less_eq_dividend])
  ultimately show ?thesis
    unfolding bytes_needed_def Let_def eq by (simp add: PAGE_BYTES_def unat_word_ariths)
qed

lemma bytes_needed_overflow:
  assumes "2 ^ 64 \<le> unat len + 4095"
  shows "bytes_needed len = 0"
proof -
  have eq: "len + PAGE_BYTES - 1 = len + 4095" by (simp add: PAGE_BYTES_def)
  have "unat len < 2 ^ 64" using unat_bound [of len] by simp
  with assms have "unat (len + 4095) < 4096"
    by (auto simp: unat_word_ariths mod_if)
  then have "unat ((len + 4095) div 4096) = 0" by (simp add: unat_div)
  then show ?thesis unfolding bytes_needed_def Let_def eq by (simp add: PAGE_BYTES_def unat_eq_zero)
qed

lemma bytes_needed_aligned: "unat (bytes_needed len) mod 4096 = 0"
proof (cases "unat len + 4095 < 2 ^ 64")
  case True
  then show ?thesis by (simp add: unat_bytes_needed)
next
  case False
  then have "bytes_needed len = 0" by (intro bytes_needed_overflow) simp
  then show ?thesis by simp
qed

text \<open>When the new watermark is not past the end of the pool, the addition did not saturate.\<close>

lemma saturating_add_in_pool:
  assumes "\<not> saturating_add n b > VIRTUAL_BASE_END"
  shows "unat (saturating_add n b) = unat n + unat b" and "unat n + unat b \<le> 67112960"
proof -
  have "unat (saturating_add n b) \<le> 67112960"
    using assms by (simp add: not_less word_le_nat_alt unat_END)
  then show "unat (saturating_add n b) = unat n + unat b" and "unat n + unat b \<le> 67112960"
    by (simp_all add: unat_saturating_add)
qed

lemma frame_inv_advance:
  assumes "frame_inv n" and "unat b mod 4096 = 0" and "\<not> saturating_add n b > VIRTUAL_BASE_END"
  shows "frame_inv (saturating_add n b)"
  using assms saturating_add_in_pool [OF assms(3)]
  by (auto simp: frame_inv_def word_le_nat_alt unat_END not_less mod_eq_0_iff_dvd)

section \<open>Sequential behaviour\<close>

lemma alloc_pages_cases:
  obtains "len = 0" "alloc_pages len n = (Err FrameErr.InvalidLen, n)"
  | "len \<noteq> 0" "saturating_add n (bytes_needed len) > VIRTUAL_BASE_END"
      "alloc_pages len n = (Err FrameErr.PoolExhausted, n)"
  | "len \<noteq> 0" "\<not> saturating_add n (bytes_needed len) > VIRTUAL_BASE_END"
      "alloc_pages len n = (Ok n, saturating_add n (bytes_needed len))"
  by (cases "len = 0"; cases "saturating_add n (bytes_needed len) > VIRTUAL_BASE_END")
    (auto simp: alloc_pages_def Let_def)

lemma alloc_pages_inv: "frame_inv n \<Longrightarrow> frame_inv (snd (alloc_pages len n))"
  by (cases rule: alloc_pages_cases [of len n]) (auto intro: frame_inv_advance bytes_needed_aligned)

lemma alloc_pages_Err: "alloc_pages len n = (Err e, n') \<Longrightarrow> n' = n"
  by (cases rule: alloc_pages_cases [of len n]) auto

lemma alloc_pages_Ok:
  assumes "alloc_pages len n = (Ok p, n')"
  shows "p = n" and "len \<noteq> 0" and "unat n' = unat n + unat (bytes_needed len)" and "unat n' \<le> 67112960"
  using assms saturating_add_in_pool [of n "bytes_needed len"]
  by (cases rule: alloc_pages_cases [of len n]; simp)+

lemma bytes_needed_covers:
  assumes "unat len + 4095 < 2 ^ 64"
  shows "unat len \<le> unat (bytes_needed len)" and "unat (bytes_needed len) < unat len + 4096"
proof -
  show "unat len \<le> unat (bytes_needed len)" and "unat (bytes_needed len) < unat len + 4096"
    using assms div_mult_mod_eq [of "unat len + 4095" 4096] by (simp_all add: unat_bytes_needed)
qed

text \<open>C32: a successful allocation returns the old watermark, page-aligned and inside the pool, and
  reserves a whole number of pages that covers the request and exceeds it by less than one page; the
  watermark stays well-formed. The hypothesis excludes the requests of the last 4095 byte counts of
  \<open>usize\<close>, for which the rounding wraps around.\<close>

theorem alloc_pages_correct:
  assumes "frame_inv n" and "alloc_pages len n = (Ok p, n')" and "unat len + 4095 < 2 ^ 64"
  shows "p = n \<and> unat p mod 4096 = 0 \<and> VIRTUAL_BASE_START \<le> p \<and> p < VIRTUAL_BASE_END \<and> frame_inv n' \<and>
         unat n' mod 4096 = 0 \<and> unat p + unat len \<le> unat n' \<and> unat n' < unat p + unat len + 4096"
proof -
  note ok = alloc_pages_Ok [OF assms(2)]
  note cov = bytes_needed_covers [OF assms(3)]
  have inv': "frame_inv n'" using alloc_pages_inv [OF assms(1), of len] assms(2) by simp
  have "0 < unat len" using ok(2) by (simp add: unat_gt_0)
  then have "unat p < 67112960" using ok cov by simp
  then have "p < VIRTUAL_BASE_END" by (simp add: word_less_nat_alt unat_END)
  then show ?thesis using assms(1) inv' ok cov by (simp add: frame_inv_def)
qed

theorem alloc_pages_correct_witness:
  "frame_inv VIRTUAL_BASE_START \<and> alloc_pages 8000 VIRTUAL_BASE_START = (Ok 4096, 12288) \<and>
   unat (4096 :: usize) + unat (8000 :: usize) \<le> unat (12288 :: usize)"
proof -
  have run: "alloc_pages 8000 VIRTUAL_BASE_START = (Ok 4096, 12288)"
    by (simp add: alloc_pages_def bytes_needed_def saturating_add_def frame_consts)
  show ?thesis
    using alloc_pages_correct [OF frame_inv_init run] frame_inv_init run by (auto simp: unat_START)
qed

text \<open>a request within 4095 bytes of the largest \<open>usize\<close> is granted although nothing is reserved for
  it: the rounding wraps to zero pages, the watermark does not move, and the next caller is given the
  same address.\<close>

theorem alloc_pages_overflow:
  assumes "frame_inv n" and "2 ^ 64 \<le> unat len + 4095"
  shows "alloc_pages len n = (Ok n, n)"
proof -
  have "len \<noteq> 0" using assms(2) by auto
  moreover have "bytes_needed len = 0" using assms(2) by (rule bytes_needed_overflow)
  moreover have "saturating_add n 0 = n"
    using unat_bound [of n] by (simp add: saturating_add_def)
  moreover have "\<not> n > VIRTUAL_BASE_END" using assms(1) by (simp add: frame_inv_def not_less)
  ultimately show ?thesis by (simp add: alloc_pages_def)
qed

theorem alloc_pages_overflow_witness:
  "alloc_pages (- 1) VIRTUAL_BASE_END = (Ok VIRTUAL_BASE_END, VIRTUAL_BASE_END) \<and>
   free_pages VIRTUAL_BASE_END (- 1) = Err FrameErr.InvalidPointer"
proof -
  have inv: "frame_inv VIRTUAL_BASE_END" by (simp add: frame_inv_def frame_consts)
  have len: "2 ^ 64 \<le> unat (- 1 :: usize) + 4095" by (simp add: unat_minus_one_eq)
  show ?thesis
    using alloc_pages_overflow [OF inv len] by (simp add: free_pages_def frame_consts)
qed

section \<open>The allocator as a bump allocator\<close>

definition alloc_nat :: "usize \<Rightarrow> nat \<Rightarrow> nat option \<times> nat" where
  "alloc_nat len n =
     (case alloc_pages len (word_of_nat n) of
        (Ok p, n') \<Rightarrow> if n \<le> 67112960 then (Some (unat p), unat n') else (None, n)
      | (Err _, _) \<Rightarrow> (None, n))"

interpretation frames: bump_allocator alloc_nat unat "\<lambda>len. unat len + 4095 < 2 ^ 64"
    "unat VIRTUAL_BASE_START" "unat VIRTUAL_BASE_END"
proof
  fix len n n'
  assume "alloc_nat len n = (None, n')"
  then show "n' = n" by (auto simp: alloc_nat_def split: prod.splits result.splits if_splits)
next
  fix len n p n'
  assume run: "alloc_nat len n = (Some p, n')" and fits: "unat len + 4095 < 2 ^ 64"
  then obtain q w where al: "alloc_pages len (word_of_nat n) = (Ok q, w)"
    and pn: "p = unat q" "n' = unat w" and n: "n \<le> 67112960"
    by (auto simp: alloc_nat_def split: prod.splits result.splits if_splits)
  have "unat (word_of_nat n :: usize) = n" using n by (simp add: unat_of_nat)
  then show "n \<le> p \<and> p + unat len \<le> n' \<and> n' \<le> unat VIRTUAL_BASE_END"
    using alloc_pages_Ok [OF al] bytes_needed_covers [OF fits] pn by (simp add: unat_END)
qed

section \<open>Concurrent behaviour\<close>

lemma set_pc_simps [simp]:
  "watermark (set_pc s i p) = watermark s"
  "threads (set_pc s i p) = (threads s)(i := p)"
  by (simp_all add: set_pc_def)

text \<open>What holds of the block a thread was given: inside the pool, below the watermark.\<close>

definition block_ok :: "usize \<Rightarrow> usize \<Rightarrow> usize \<Rightarrow> bool" where
  "block_ok w b p \<longleftrightarrow> VIRTUAL_BASE_START \<le> p \<and> unat p mod 4096 = 0 \<and> unat p + unat b \<le> unat w"

definition pc_ok :: "usize \<Rightarrow> alloc_pc \<Rightarrow> bool" where
  "pc_ok w pc = (case pc of
     AReq _ \<Rightarrow> True
   | ALoop b _ \<Rightarrow> unat b mod 4096 = 0
   | ADone b r \<Rightarrow> (case r of Ok p \<Rightarrow> block_ok w b p | Err _ \<Rightarrow> True))"

definition blocks_apart :: "alloc_pc \<Rightarrow> alloc_pc \<Rightarrow> bool" where
  "blocks_apart x y = (case (x, y) of
     (ADone b (Ok p), ADone c (Ok q)) \<Rightarrow> unat p + unat b \<le> unat q \<or> unat q + unat c \<le> unat p
   | _ \<Rightarrow> True)"

definition alloc_sys_inv :: "alloc_sys \<Rightarrow> bool" where
  "alloc_sys_inv s \<longleftrightarrow> frame_inv (watermark s) \<and> (\<forall>i. pc_ok (watermark s) (threads s i)) \<and>
     (\<forall>i j. i \<noteq> j \<longrightarrow> blocks_apart (threads s i) (threads s j))"

lemma pc_ok_mono: "pc_ok w pc \<Longrightarrow> unat w \<le> unat w' \<Longrightarrow> pc_ok w' pc"
  by (auto simp: pc_ok_def block_ok_def split: alloc_pc.splits result.splits)

lemma blocks_apart_sym: "blocks_apart x y = blocks_apart y x"
  by (auto simp: blocks_apart_def split: alloc_pc.splits result.splits)

lemma blocks_apart_local [simp]:
  "blocks_apart (AReq l) y" "blocks_apart (ALoop b c) y" "blocks_apart (ADone b (Err e)) y"
  "blocks_apart y (AReq l)" "blocks_apart y (ALoop b c)" "blocks_apart y (ADone b (Err e))"
  by (auto simp: blocks_apart_def split: alloc_pc.splits result.splits)

text \<open>A block that starts at the watermark is apart from every block below the watermark.\<close>

lemma blocks_apart_fresh: "pc_ok w y \<Longrightarrow> blocks_apart (ADone b (Ok w)) y"
  by (auto simp: blocks_apart_def pc_ok_def block_ok_def split: alloc_pc.splits result.splits)

lemma alloc_sys_inv_local:
  assumes "alloc_sys_inv s" and "pc_ok (watermark s) p" and "\<And>y. blocks_apart p y"
  shows "alloc_sys_inv (set_pc s i p)"
  using assms by (auto simp: alloc_sys_inv_def blocks_apart_sym [of _ p])

lemma alloc_step_inv: "alloc_step s t \<Longrightarrow> alloc_sys_inv s \<Longrightarrow> alloc_sys_inv t"
proof (induction rule: alloc_step.induct)
  case (reject s i)
  then show ?case by (auto intro!: alloc_sys_inv_local simp: pc_ok_def)
next
  case (load s i len)
  then show ?case by (auto intro!: alloc_sys_inv_local simp: pc_ok_def bytes_needed_aligned)
next
  case (exhausted s i b cur)
  then show ?case by (auto intro!: alloc_sys_inv_local simp: pc_ok_def)
next
  case (cas_fail s i b cur)
  then have "pc_ok (watermark s) (ALoop b cur)" by (auto simp: alloc_sys_inv_def dest: spec [of _ i])
  then show ?case using cas_fail by (auto intro!: alloc_sys_inv_local simp: pc_ok_def)
next
  case (cas_ok s i b cur)
  let ?w = "watermark s" and ?w' = "saturating_add cur b"
  note pool = saturating_add_in_pool [OF cas_ok.hyps(2)]
  have inv: "frame_inv ?w" "\<And>j. pc_ok ?w (threads s j)"
    "\<And>j k. j \<noteq> k \<Longrightarrow> blocks_apart (threads s j) (threads s k)"
    using cas_ok.prems by (auto simp: alloc_sys_inv_def)
  from inv(2) [of i] cas_ok.hyps(1) have b: "unat b mod 4096 = 0" by (simp add: pc_ok_def)
  have "frame_inv ?w'" using frame_inv_advance inv(1) b cas_ok.hyps(2,3) by simp
  moreover have "pc_ok ?w' (threads s j)" for j
    using inv(2) [of j] pool(1) cas_ok.hyps(3) by (auto intro: pc_ok_mono)
  moreover have "pc_ok ?w' (ADone b (Ok cur))"
    using inv(1) pool(1) cas_ok.hyps(3) by (auto simp: pc_ok_def block_ok_def frame_inv_def)
  moreover have "blocks_apart (ADone b (Ok cur)) (threads s j)" for j
    using inv(2) [of j] cas_ok.hyps(3) by (auto intro: blocks_apart_fresh)
  ultimately show ?case
    using inv(3) by (auto simp: alloc_sys_inv_def blocks_apart_sym [of _ "ADone b (Ok cur)"])
qed

lemma alloc_reachable_inv: "alloc_reachable s \<Longrightarrow> alloc_sys_inv s"
proof (induction rule: alloc_reachable.induct)
  case (start s)
  then have req: "\<exists>len. threads s i = AReq len" for i by (simp add: alloc_init_def)
  have "pc_ok (watermark s) (threads s i)" for i
    using req [of i] by (auto simp: pc_ok_def)
  moreover have "blocks_apart (threads s i) (threads s j)" for i j
    using req [of i] by auto
  ultimately show ?case using start by (simp add: alloc_sys_inv_def alloc_init_def frame_inv_init)
next
  case (step s t)
  then show ?case by (blast intro: alloc_step_inv)
qed

text \<open>in every interleaving of any number of threads, the blocks that concurrent \<open>alloc_pages\<close>
  calls have returned lie inside the pool, are page-aligned and do not overlap.\<close>

theorem alloc_concurrent_disjoint:
  assumes "alloc_reachable s" and "threads s i = ADone b (Ok p)" and "threads s j = ADone c (Ok q)"
    and "i \<noteq> j"
  shows "unat VIRTUAL_BASE_START \<le> unat p \<and> unat p mod 4096 = 0 \<and> unat p + unat b \<le> unat VIRTUAL_BASE_END \<and>
         (unat p + unat b \<le> unat q \<or> unat q + unat c \<le> unat p)"
proof -
  have inv: "alloc_sys_inv s" using assms(1) by (rule alloc_reachable_inv)
  then have "pc_ok (watermark s) (ADone b (Ok p))" "blocks_apart (ADone b (Ok p)) (ADone c (Ok q))"
    unfolding alloc_sys_inv_def using assms(2-4) by metis+
  moreover have "unat (watermark s) \<le> unat VIRTUAL_BASE_END"
    using inv by (simp add: alloc_sys_inv_def frame_inv_def word_le_nat_alt)
  ultimately show ?thesis
    by (auto simp: pc_ok_def block_ok_def blocks_apart_def word_le_nat_alt)
qed

text \<open>A run with a lost race: both threads load the same watermark, the second one's exchange fails
  and it retries.\<close>

definition race0 :: alloc_sys where
  "race0 = \<lparr>watermark = VIRTUAL_BASE_START, threads = (\<lambda>i. AReq (if i = 0 then 5000 else 1))\<rparr>"

definition race_end :: "alloc_sys \<Rightarrow> alloc_sys" where
  "race_end s = s\<lparr>watermark := 16384,
     threads := (threads s)(0 := ADone 8192 (Ok 4096), 1 := ADone 4096 (Ok 12288))\<rparr>"

lemma five_steps:
  "R a b \<Longrightarrow> R b c \<Longrightarrow> R c d \<Longrightarrow> R d e \<Longrightarrow> R e f \<Longrightarrow> (R ^^ (5 :: nat)) a f"
  by (simp add: numeral_eq_Suc) blast

lemma race_run:
  assumes "watermark s = VIRTUAL_BASE_START" and "threads s 0 = AReq 5000" and "threads s 1 = AReq 1"
  shows "(alloc_step ^^ 5) s (race_end s)"
proof -
  let ?s1 = "set_pc s 0 (ALoop 8192 4096)"
  let ?s2 = "set_pc ?s1 1 (ALoop 4096 4096)"
  let ?s3 = "(set_pc ?s2 0 (ADone 8192 (Ok 4096)))\<lparr>watermark := 12288\<rparr>"
  let ?s4 = "set_pc ?s3 1 (ALoop 4096 12288)"
  let ?s5 = "(set_pc ?s4 1 (ADone 4096 (Ok 12288)))\<lparr>watermark := 16384\<rparr>"
  have one: "threads s (Suc 0) = AReq 1" using assms(3) by simp
  note ev = assms(1,2) one bytes_needed_def saturating_add_def frame_consts
  have "alloc_step s ?s1" using load [of s 0 5000] by (simp add: ev)
  moreover have "alloc_step ?s1 ?s2" using load [of ?s1 1 1] by (simp add: ev)
  moreover have "alloc_step ?s2 ?s3" using cas_ok [of ?s2 0 8192 4096] by (simp add: ev)
  moreover have "alloc_step ?s3 ?s4" using cas_fail [of ?s3 1 4096 4096] by (simp add: ev)
  moreover have "alloc_step ?s4 ?s5" using cas_ok [of ?s4 1 4096 12288] by (simp add: ev)
  moreover have "?s5 = race_end s" by (simp add: race_end_def set_pc_def fun_upd_twist)
  ultimately show ?thesis using five_steps [of alloc_step s ?s1 ?s2 ?s3 ?s4 ?s5] by simp
qed

lemma alloc_reachable_steps: "(alloc_step ^^ n) s t \<Longrightarrow> alloc_init s \<Longrightarrow> alloc_reachable t"
  by (induction n arbitrary: t) (auto intro: alloc_reachable.intros)

lemma race_reachable: "alloc_reachable (race_end race0)"
  by (rule alloc_reachable_steps [OF race_run]) (simp_all add: race0_def alloc_init_def)

theorem alloc_concurrent_disjoint_witness:
  "alloc_reachable (race_end race0) \<and> threads (race_end race0) 0 = ADone 8192 (Ok 4096) \<and>
   threads (race_end race0) 1 = ADone 4096 (Ok 12288) \<and>
   (unat (4096 :: usize) + unat (8192 :: usize) \<le> unat (12288 :: usize) \<or>
    unat (12288 :: usize) + unat (4096 :: usize) \<le> unat (4096 :: usize))"
proof -
  have t: "threads (race_end race0) 0 = ADone 8192 (Ok 4096)" "threads (race_end race0) 1 = ADone 4096 (Ok 12288)"
    by (simp_all add: race_end_def)
  show ?thesis using alloc_concurrent_disjoint [OF race_reachable t] race_reachable t by simp
qed

text \<open>the sequential definition is what the loop computes when no other thread interferes: from
  any watermark, at most two steps of the calling thread end in the result and the watermark of
  \<open>alloc_pages\<close>.\<close>

theorem alloc_uncontended:
  assumes "threads s i = AReq len"
  shows "\<exists>t b. alloc_step\<^sup>*\<^sup>* s t \<and> threads t i = ADone b (fst (alloc_pages len (watermark s))) \<and>
               watermark t = snd (alloc_pages len (watermark s))"
proof (cases rule: alloc_pages_cases [of len "watermark s"])
  case 1
  with assms reject [of s i] show ?thesis
    by (intro exI [of _ "set_pc s i (ADone 0 (Err FrameErr.InvalidLen))"]) auto
next
  case 2
  let ?s1 = "set_pc s i (ALoop (bytes_needed len) (watermark s))"
  have "alloc_step s ?s1" using assms 2(1) by (rule load)
  moreover have "alloc_step ?s1 (set_pc ?s1 i (ADone (bytes_needed len) (Err FrameErr.PoolExhausted)))"
    using 2(2) by (intro exhausted [where cur = "watermark s"]) auto
  ultimately show ?thesis using 2(3)
    by (intro exI [of _ "set_pc ?s1 i (ADone (bytes_needed len) (Err FrameErr.PoolExhausted))"]) auto
next
  case 3
  let ?s1 = "set_pc s i (ALoop (bytes_needed len) (watermark s))"
  let ?s2 = "(set_pc ?s1 i (ADone (bytes_needed len) (Ok (watermark s))))
               \<lparr>watermark := saturating_add (watermark s) (bytes_needed len)\<rparr>"
  have "alloc_step s ?s1" using assms 3(1) by (rule load)
  moreover have "alloc_step ?s1 ?s2" using 3(2) by (intro cas_ok) auto
  ultimately show ?thesis using 3(3) by (intro exI [of _ ?s2]) auto
qed

theorem alloc_uncontended_witness:
  "threads race0 0 = AReq 5000 \<and>
   (\<exists>t b. alloc_step\<^sup>*\<^sup>* race0 t \<and> threads t 0 = ADone b (fst (alloc_pages 5000 (watermark race0))) \<and>
          watermark t = snd (alloc_pages 5000 (watermark race0)))"
proof -
  have r: "threads race0 0 = AReq 5000" by (simp add: race0_def)
  show ?thesis using alloc_uncontended [OF r] r by simp
qed

section \<open>Termination of the compare-exchange loop\<close>

text \<open>The threads still to return, and among them those whose next exchange would fail or that have
  not read the watermark yet.\<close>

definition active :: "alloc_sys \<Rightarrow> nat set" where
  "active s = {i. case threads s i of ADone _ _ \<Rightarrow> False | _ \<Rightarrow> True}"

definition behind :: "alloc_sys \<Rightarrow> nat set" where
  "behind s = {i. case threads s i of AReq _ \<Rightarrow> True | ALoop b cur \<Rightarrow> cur \<noteq> watermark s | ADone _ _ \<Rightarrow> False}"

text \<open>Twice the steps left at most: a thread that returns may put every other one behind, a thread
  that reads the watermark catches up.\<close>

definition steps_left2 :: "alloc_sys \<Rightarrow> nat" where
  "steps_left2 s = (let k = card (active s) in k * (k + 1) + 2 * card (behind s))"

lemma in_active: "i \<in> active s \<longleftrightarrow> (\<forall>b r. threads s i \<noteq> ADone b r)"
  by (simp add: active_def split: alloc_pc.splits)

lemma in_behind: "i \<in> behind s \<longleftrightarrow>
    (\<exists>len. threads s i = AReq len) \<or> (\<exists>b cur. threads s i = ALoop b cur \<and> cur \<noteq> watermark s)"
  by (auto simp: behind_def split: alloc_pc.splits)

lemma behind_active: "behind s \<subseteq> active s"
  by (auto simp: in_behind in_active)

lemma catch_up_decreases:
  assumes "finite (active s)" and "i \<in> behind s" and "active t = active s" and "behind t = behind s - {i}"
  shows "finite (active t) \<and> steps_left2 t + 2 \<le> steps_left2 s"
proof -
  have fin: "finite (behind s)" using assms(1) behind_active by (rule finite_subset [rotated])
  then have "card (behind s) = Suc (card (behind t))"
    using assms(2,4) by (simp only: card.remove [OF fin assms(2)])
  then show ?thesis using assms(1,3) by (simp add: steps_left2_def Let_def)
qed

lemma return_decreases:
  assumes "finite (active s)" and "i \<in> active s" and "active t = active s - {i}"
  shows "finite (active t) \<and> steps_left2 t + 2 \<le> steps_left2 s"
proof -
  have k: "card (active s) = Suc (card (active t))"
    by (simp only: card.remove [OF assms(1,2)] assms(3))
  have fin: "finite (active t)" using assms(1,3) by simp
  then have "card (behind t) \<le> card (active t)" by (intro card_mono behind_active)
  with k fin show ?thesis by (simp add: steps_left2_def Let_def algebra_simps)
qed

lemma alloc_step_decreases:
  assumes "alloc_step s t" and "finite (active s)"
  shows "finite (active t) \<and> steps_left2 t + 2 \<le> steps_left2 s"
  using assms
proof (induction rule: alloc_step.induct)
  case (reject s i)
  then show ?case by (intro return_decreases [where i = i]) (auto simp: in_active split: if_splits)
next
  case (load s i len)
  then show ?case
    by (intro catch_up_decreases [where i = i]) (auto simp: in_active in_behind split: if_splits)
next
  case (exhausted s i b cur)
  then show ?case by (intro return_decreases [where i = i]) (auto simp: in_active split: if_splits)
next
  case (cas_ok s i b cur)
  then show ?case by (intro return_decreases [where i = i]) (auto simp: in_active split: if_splits)
next
  case (cas_fail s i b cur)
  then show ?case
    by (intro catch_up_decreases [where i = i]) (auto simp: in_active in_behind split: if_splits)
qed

lemma alloc_steps_bounded:
  "(alloc_step ^^ n) s t \<Longrightarrow> finite (active s) \<Longrightarrow> finite (active t) \<and> steps_left2 t + 2 * n \<le> steps_left2 s"
proof (induction n arbitrary: t)
  case (Suc n)
  then obtain u where "(alloc_step ^^ n) s u" "alloc_step u t" by auto
  with Suc.IH [of u] Suc.prems(2) alloc_step_decreases [of u t] show ?case by auto
qed simp

lemma steps_left2_le: "finite (active s) \<Longrightarrow> steps_left2 s \<le> card (active s) * (card (active s) + 3)"
  using card_mono [OF _ behind_active, of s] by (simp add: steps_left2_def Let_def algebra_simps)

lemma alloc_step_active: "alloc_step s t \<Longrightarrow> active s \<noteq> {}"
proof -
  assume "alloc_step s t"
  then have "\<exists>i. \<forall>b r. threads s i \<noteq> ADone b r" by cases (metis alloc_pc.distinct(3,5))+
  then show ?thesis using in_active by blast
qed

lemma active_can_step: "i \<in> active s \<Longrightarrow> \<exists>t. alloc_step s t"
proof -
  assume "i \<in> active s"
  then consider len where "threads s i = AReq len" | b cur where "threads s i = ALoop b cur"
    by (auto simp: active_def split: alloc_pc.splits)
  then show ?thesis by cases (metis alloc_step.intros)+
qed

text \<open>C11: the loop of \<open>alloc_pages\<close> cannot retry for ever. However \<open>k\<close> concurrent calls are
  interleaved, with no fairness assumed, they make at most \<open>k * (k + 3) / 2\<close> atomic steps together;
  and a run that can go no further is one in which every call has returned.\<close>

theorem alloc_terminates:
  assumes "finite (active s)" and "(alloc_step ^^ n) s t"
  shows "2 * n \<le> card (active s) * (card (active s) + 3) \<and>
         ((\<nexists>u. alloc_step t u) \<longleftrightarrow> (\<forall>i. \<exists>b r. threads t i = ADone b r))"
proof -
  have "2 * n \<le> card (active s) * (card (active s) + 3)"
    using alloc_steps_bounded [OF assms(2,1)] steps_left2_le [OF assms(1)] by linarith
  moreover have "(\<nexists>u. alloc_step t u) \<longleftrightarrow> active t = {}"
    using active_can_step [of _ t] alloc_step_active [of t] by blast
  moreover have "active t = {} \<longleftrightarrow> (\<forall>i. \<exists>b r. threads t i = ADone b r)"
    using in_active [of _ t] by fast
  ultimately show ?thesis by simp
qed

text \<open>The race of two calls, with no other thread: five steps, as many as two calls can make.\<close>

definition race2 :: alloc_sys where
  "race2 = \<lparr>watermark = VIRTUAL_BASE_START,
     threads = (\<lambda>i. if i = 0 then AReq 5000 else if i = 1 then AReq 1 else ADone 0 (Err FrameErr.InvalidLen))\<rparr>"

lemma race2_active: "active race2 = {0, 1}"
  by (auto simp: in_active race2_def split: if_splits)

theorem alloc_terminates_witness:
  "(alloc_step ^^ 5) race2 (race_end race2) \<and> card (active race2) = 2 \<and> 2 * 5 \<le> 2 * (2 + (3 :: nat)) \<and>
   (\<nexists>u. alloc_step (race_end race2) u)"
proof -
  have run: "(alloc_step ^^ 5) race2 (race_end race2)"
    by (rule race_run) (simp_all add: race2_def)
  have fin: "finite (active race2)" and card: "card (active race2) = 2"
    by (simp_all add: race2_active)
  have "\<forall>i. \<exists>b r. threads (race_end race2) i = ADone b r"
    by (simp add: race_end_def race2_def)
  with alloc_terminates [OF fin run] run card show ?thesis by simp
qed

end
