(* ===== verification/Envelope.thy ===== *)
theory Envelope
  imports Prelude
begin

text \<open>
  The envelope queue \<^verbatim>\<open>kernel/core/src/envelope/mod.rs\<close>: one slot of 1024 bytes guarded by a state byte
  (\<open>EMPTY\<close>, \<open>WRITING\<close>, \<open>FULL\<close>, \<open>READING\<close>). The five statics are the record \<open>slot_st\<close>. The operations
  \<open>dispatch_enqueue_bytes\<close> and \<open>dispatch_dequeue_bytes\<close> are the calls as they run alone; \<open>slot_step\<close> is
  the same code with every atomic access a step of its own, for any number of threads. Slices are
  lists and their lengths naturals.

  The abstract specification is a one-place buffer (\<open>buf_enq\<close>, \<open>buf_deq\<close>), and the locale
  \<open>one_place_buffer\<close> states the contract that the virtual file system and the system calls rely on.
\<close>

section \<open>Constants, errors and state\<close>

definition ENVELOPE_QUEUE_CAPACITY :: nat where "ENVELOPE_QUEUE_CAPACITY = 16384"
definition ENVELOPE_GC_TRIGGER_PCT :: u8 where "ENVELOPE_GC_TRIGGER_PCT = 75"
definition ENVELOPE_SLOT_BYTES :: nat where "ENVELOPE_SLOT_BYTES = 1024"
definition MIN_ENVELOPE_BYTES :: nat where "MIN_ENVELOPE_BYTES = 32"

datatype EnvelopeErr =
  QueueFull | QueueEmpty | PayloadOversize | SignatureInvalid | RouteUnknown | Unimplemented

record EnvelopeHeader =
  from_pid :: u64
  to_pid :: u64
  type_tag :: bytes
  verb :: bytes
  id_bytes :: bytes
  ts_ns :: u64
  payload :: bytes
  sig :: bytes

datatype RouteHint = RouteHint u32

definition LOCAL :: RouteHint where "LOCAL = RouteHint 0"
definition QUAD_BROADCAST :: RouteHint where "QUAD_BROADCAST = RouteHint 1"
definition TRIAD_BROADCAST :: RouteHint where "TRIAD_BROADCAST = RouteHint 2"

definition dispatch_enqueue :: "EnvelopeHeader \<Rightarrow> RouteHint \<Rightarrow> (unit, EnvelopeErr) result" where
  "dispatch_enqueue header route = Err EnvelopeErr.Unimplemented"

definition dispatch_dequeue :: "bytes \<Rightarrow> (nat, EnvelopeErr) result" where
  "dispatch_dequeue buf = Err EnvelopeErr.Unimplemented"

definition STATE_EMPTY :: u8 where "STATE_EMPTY = 0"
definition STATE_WRITING :: u8 where "STATE_WRITING = 1"
definition STATE_FULL :: u8 where "STATE_FULL = 2"
definition STATE_READING :: u8 where "STATE_READING = 3"

lemmas slot_states = STATE_EMPTY_def STATE_WRITING_def STATE_FULL_def STATE_READING_def

record slot_st =
  SLOT_STATE :: u8
  SLOT_LEN :: nat
  SLOT_ROUTE :: u32
  SLOT_BYTES :: bytes
  SLOT_DEPTH :: nat

definition slot_init :: slot_st where
  "slot_init = \<lparr>SLOT_STATE = STATE_EMPTY, SLOT_LEN = 0, SLOT_ROUTE = 0,
                SLOT_BYTES = replicate ENVELOPE_SLOT_BYTES 0, SLOT_DEPTH = 0\<rparr>"

section \<open>Operations, uncontended\<close>

text \<open>The store loop \<open>for (i, b) in env.iter().enumerate()\<close>, from index \<open>i\<close> on.\<close>

fun store_bytes :: "nat \<Rightarrow> bytes \<Rightarrow> bytes \<Rightarrow> bytes" where
  "store_bytes i [] cells = cells"
| "store_bytes i (b # bs) cells = store_bytes (Suc i) bs (cells[i := b])"

definition dispatch_enqueue_bytes ::
    "bytes \<Rightarrow> u32 \<Rightarrow> slot_st \<Rightarrow> (unit, EnvelopeErr) result \<times> slot_st" where
  "dispatch_enqueue_bytes env route_hint s =
     (if length env > ENVELOPE_SLOT_BYTES then (Err EnvelopeErr.PayloadOversize, s)
      else if SLOT_STATE s \<noteq> STATE_EMPTY then (Err EnvelopeErr.QueueFull, s)
      else let s = s\<lparr>SLOT_STATE := STATE_WRITING\<rparr>;
               s = s\<lparr>SLOT_BYTES := store_bytes 0 env (SLOT_BYTES s)\<rparr>;
               s = s\<lparr>SLOT_LEN := length env\<rparr>;
               s = s\<lparr>SLOT_ROUTE := route_hint\<rparr>;
               s = s\<lparr>SLOT_DEPTH := 1\<rparr>;
               s = s\<lparr>SLOT_STATE := STATE_FULL\<rparr>
           in (Ok (), s))"

text \<open>The load loop \<open>for i in 0..n\<close> into the caller's buffer.\<close>

function load_bytes :: "nat \<Rightarrow> nat \<Rightarrow> bytes \<Rightarrow> bytes \<Rightarrow> bytes" where
  "load_bytes i n cells buf =
     (if i < n then load_bytes (Suc i) n cells (buf[i := cells ! i]) else buf)"
  by pat_completeness auto
termination by (relation "measure (\<lambda>(i, n, _). n - i)") auto

declare load_bytes.simps [simp del]

definition spin_budget :: "u64 \<Rightarrow> nat" where
  "spin_budget max_wait_ns = (if max_wait_ns = 0 then 1 else min (unat max_wait_ns) 1000000)"

text \<open>The polling loop; with no other thread running the state byte does not change between polls.\<close>

function dequeue_loop ::
    "nat \<Rightarrow> nat \<Rightarrow> bytes \<Rightarrow> slot_st \<Rightarrow> (nat, EnvelopeErr) result \<times> bytes \<times> slot_st" where
  "dequeue_loop budget tries buf s =
     (if SLOT_STATE s = STATE_FULL then
        let s = s\<lparr>SLOT_STATE := STATE_READING\<rparr>;
            n = SLOT_LEN s
        in if n > length buf then
             (Err EnvelopeErr.PayloadOversize, buf, s\<lparr>SLOT_STATE := STATE_FULL\<rparr>)
           else
             let buf = load_bytes 0 n (SLOT_BYTES s) buf;
                 s = s\<lparr>SLOT_LEN := 0\<rparr>;
                 s = s\<lparr>SLOT_DEPTH := 0\<rparr>;
                 s = s\<lparr>SLOT_STATE := STATE_EMPTY\<rparr>
             in (Ok n, buf, s)
      else
        let tries = tries + 1
        in if tries \<ge> budget then (Err EnvelopeErr.QueueEmpty, buf, s)
           else dequeue_loop budget tries buf s)"
  by pat_completeness auto
termination by (relation "measure (\<lambda>(budget, tries, _). budget - tries)") auto

declare dequeue_loop.simps [simp del]

definition dispatch_dequeue_bytes ::
    "bytes \<Rightarrow> u64 \<Rightarrow> slot_st \<Rightarrow> (nat, EnvelopeErr) result \<times> bytes \<times> slot_st" where
  "dispatch_dequeue_bytes buf max_wait_ns s = dequeue_loop (spin_budget max_wait_ns) 0 buf s"

definition reset_slot_for_tests :: "slot_st \<Rightarrow> slot_st" where
  "reset_slot_for_tests s =
     s\<lparr>SLOT_STATE := STATE_EMPTY, SLOT_LEN := 0, SLOT_ROUTE := 0, SLOT_DEPTH := 0\<rparr>"

definition queue_depth :: "slot_st \<Rightarrow> nat" where
  "queue_depth s = SLOT_DEPTH s"

definition should_trigger_gc :: "slot_st \<Rightarrow> bool" where
  "should_trigger_gc s =
     (let depth = queue_depth s;
          threshold = (ENVELOPE_QUEUE_CAPACITY * unat ENVELOPE_GC_TRIGGER_PCT) div 100
      in depth \<ge> threshold)"

section \<open>The abstract one-place buffer\<close>

type_synonym message = "bytes \<times> u32"

definition buf_enq :: "message \<Rightarrow> message option \<Rightarrow> (unit, EnvelopeErr) result \<times> message option" where
  "buf_enq m b =
     (if length (fst m) > ENVELOPE_SLOT_BYTES then (Err EnvelopeErr.PayloadOversize, b)
      else case b of None \<Rightarrow> (Ok (), Some m) | Some _ \<Rightarrow> (Err EnvelopeErr.QueueFull, b))"

definition buf_deq ::
    "bytes \<Rightarrow> message option \<Rightarrow> (nat, EnvelopeErr) result \<times> bytes \<times> message option" where
  "buf_deq buf b =
     (case b of
        None \<Rightarrow> (Err EnvelopeErr.QueueEmpty, buf, None)
      | Some m \<Rightarrow>
          if length (fst m) > length buf then (Err EnvelopeErr.PayloadOversize, buf, b)
          else (Ok (length (fst m)), fst m @ drop (length (fst m)) buf, None))"

text \<open>Between calls the slot is empty or full, its cells are in place and its length is in range.\<close>

definition slot_inv :: "slot_st \<Rightarrow> bool" where
  "slot_inv s \<longleftrightarrow> length (SLOT_BYTES s) = ENVELOPE_SLOT_BYTES \<and>
     (SLOT_STATE s = STATE_EMPTY \<and> SLOT_DEPTH s = 0 \<or>
      SLOT_STATE s = STATE_FULL \<and> SLOT_DEPTH s = 1 \<and> SLOT_LEN s \<le> ENVELOPE_SLOT_BYTES)"

definition slot_abs :: "slot_st \<Rightarrow> message option" where
  "slot_abs s = (if SLOT_STATE s = STATE_FULL
                 then Some (take (SLOT_LEN s) (SLOT_BYTES s), SLOT_ROUTE s) else None)"

section \<open>The contract of a one-place buffer\<close>

text \<open>
  The provider's operations act on \<open>content\<close> as a buffer of one message: \<open>put\<close> accepts a message
  that fits when there is none, \<open>get\<close> hands out the message there is to a destination of room
  \<open>k \<ge> size m\<close>, and nothing else changes the content.
\<close>

locale one_place_buffer =
  fixes put :: "'m \<Rightarrow> 's \<Rightarrow> bool \<times> 's"
    and get :: "nat \<Rightarrow> 's \<Rightarrow> 'd option \<times> 's"
    and content :: "'s \<Rightarrow> 'm option"
    and inv :: "'s \<Rightarrow> bool"
    and size_of :: "'m \<Rightarrow> nat" and cap :: nat
    and data :: "'m \<Rightarrow> 'd"
  assumes put_inv: "inv s \<Longrightarrow> put m s = (ok, t) \<Longrightarrow> inv t"
    and put_ok: "inv s \<Longrightarrow> put m s = (True, t) \<Longrightarrow>
          size_of m \<le> cap \<and> content s = None \<and> content t = Some m"
    and put_accepts: "inv s \<Longrightarrow> size_of m \<le> cap \<Longrightarrow> content s = None \<Longrightarrow> fst (put m s)"
    and put_refused: "inv s \<Longrightarrow> put m s = (False, t) \<Longrightarrow> t = s"
    and get_inv: "inv s \<Longrightarrow> get k s = (r, t) \<Longrightarrow> inv t"
    and get_some: "inv s \<Longrightarrow> get k s = (Some d, t) \<Longrightarrow>
          \<exists>m. content s = Some m \<and> d = data m \<and> content t = None"
    and get_gives: "inv s \<Longrightarrow> content s = Some m \<Longrightarrow> size_of m \<le> k \<Longrightarrow> fst (get k s) = Some (data m)"
    and get_none: "inv s \<Longrightarrow> get k s = (None, t) \<Longrightarrow> content t = content s"
begin

text \<open>A run of puts (\<open>Inl\<close>) and gets (\<open>Inr\<close>): the messages accepted and the data handed out.\<close>

fun run :: "('m + nat) list \<Rightarrow> 's \<Rightarrow> 'm list \<times> 'd list \<times> 's" where
  "run [] s = ([], [], s)"
| "run (Inl m # ops) s =
     (let (ok, s') = put m s; (acc, out, t) = run ops s'
      in (if ok then m # acc else acc, out, t))"
| "run (Inr k # ops) s =
     (let (r, s') = get k s; (acc, out, t) = run ops s'
      in (acc, (case r of Some d \<Rightarrow> d # out | None \<Rightarrow> out), t))"

definition pending :: "'s \<Rightarrow> 'd list" where
  "pending s = (case content s of Some m \<Rightarrow> [data m] | None \<Rightarrow> [])"

text \<open>What was pending and what was accepted is what was handed out and what is still pending, in
  order: nothing is lost, duplicated or reordered.\<close>

lemma run_fifo:
  "inv s \<Longrightarrow> run ops s = (acc, out, t) \<Longrightarrow>
   inv t \<and> pending s @ map data acc = out @ pending t"
proof (induction ops arbitrary: s acc out t)
  case (Cons op ops)
  show ?case
  proof (cases op)
    case (Inl m)
    obtain ok s' where p: "put m s = (ok, s')" by fastforce
    obtain acc' out' t' where r: "run ops s' = (acc', out', t')" by (metis prod_cases3)
    have inv': "inv s'" using put_inv Cons.prems(1) p by blast
    note IH = Cons.IH [OF inv' r]
    show ?thesis
    proof (cases ok)
      case True
      then have "pending s = []" "pending s' = [data m]"
        using put_ok [OF Cons.prems(1)] p by (simp_all add: pending_def)
      then show ?thesis using Cons.prems(2) Inl p r True IH by auto
    next
      case False
      then have "s' = s" using put_refused [OF Cons.prems(1)] p by simp
      then show ?thesis using Cons.prems(2) Inl p r False IH by simp
    qed
  next
    case (Inr k)
    obtain d s' where g: "get k s = (d, s')" by fastforce
    obtain acc' out' t' where r: "run ops s' = (acc', out', t')" by (metis prod_cases3)
    have inv': "inv s'" using get_inv Cons.prems(1) g by blast
    note IH = Cons.IH [OF inv' r]
    show ?thesis
    proof (cases d)
      case None
      then have "pending s' = pending s" using get_none [OF Cons.prems(1)] g by (simp add: pending_def)
      then show ?thesis using Cons.prems(2) Inr g r None IH by simp
    next
      case (Some x)
      then have "pending s = [x]" "pending s' = []"
        using get_some [OF Cons.prems(1), of k x s'] g by (auto simp: pending_def)
      then show ?thesis using Cons.prems(2) Inr g r Some IH by simp
    qed
  qed
qed (simp add: pending_def)

lemma put_get:
  assumes "inv s" and "put m s = (True, s')" and "size_of m \<le> k"
  shows "\<exists>t. get k s' = (Some (data m), t) \<and> inv t \<and> content t = None"
proof -
  have inv': "inv s'" and c: "content s' = Some m"
    using put_inv put_ok assms by blast+
  obtain r t where g: "get k s' = (r, t)" by fastforce
  then have r: "r = Some (data m)" using get_gives [OF inv' c assms(3)] by simp
  with g show ?thesis using get_inv [OF inv' g] get_some [OF inv'] by blast
qed

end

section \<open>The slot refines the abstract buffer\<close>

lemma store_bytes_eq:
  "i + length bs \<le> length cells \<Longrightarrow>
   store_bytes i bs cells = take i cells @ bs @ drop (i + length bs) cells"
proof (induction i bs cells rule: store_bytes.induct)
  case (2 i b bs cells)
  then show ?case by (simp add: take_Suc_conv_app_nth)
qed simp

lemma load_bytes_eq:
  "n \<le> length buf \<Longrightarrow> n \<le> length cells \<Longrightarrow> i \<le> n \<Longrightarrow>
   load_bytes i n cells buf = take i buf @ drop i (take n cells) @ drop n buf"
proof (induction i n cells buf rule: load_bytes.induct)
  case (1 i n cells buf)
  show ?case
  proof (cases "i < n")
    case True
    then have "load_bytes i n cells buf = load_bytes (Suc i) n cells (buf[i := cells ! i])"
      by (simp add: load_bytes.simps [of i])
    also have "\<dots> = take (Suc i) (buf[i := cells ! i]) @ drop (Suc i) (take n cells) @ drop n buf"
      using "1.IH" True "1.prems" by simp
    also have "\<dots> = take i buf @ (cells ! i # drop (Suc i) (take n cells)) @ drop n buf"
      using True "1.prems" by (simp add: take_Suc_conv_app_nth)
    also have "cells ! i # drop (Suc i) (take n cells) = drop i (take n cells)"
      using True "1.prems" by (simp add: Cons_nth_drop_Suc [symmetric])
    finally show ?thesis .
  next
    case False
    then show ?thesis using "1.prems" by (simp add: load_bytes.simps [of n] load_bytes.simps [of i])
  qed
qed

lemma slot_inv_init: "slot_inv slot_init"
  by (simp add: slot_inv_def slot_init_def)

lemma slot_abs_init: "slot_abs slot_init = None"
  by (simp add: slot_abs_def slot_init_def slot_states)

lemma enqueue_refines:
  assumes "slot_inv s" and "dispatch_enqueue_bytes env route s = (r, t)"
  shows "slot_inv t \<and> buf_enq (env, route) (slot_abs s) = (r, slot_abs t)"
  using assms
  by (auto simp: slot_inv_def slot_abs_def buf_enq_def dispatch_enqueue_bytes_def store_bytes_eq slot_states
      split: if_splits)

text \<open>Spinning changes nothing: the loop ends in its first iteration or runs out of budget.\<close>

lemma dequeue_loop_empty:
  "SLOT_STATE s \<noteq> STATE_FULL \<Longrightarrow> dequeue_loop budget tries buf s = (Err EnvelopeErr.QueueEmpty, buf, s)"
  by (induction budget tries buf s rule: dequeue_loop.induct) (simp add: dequeue_loop.simps)

lemma dequeue_refines:
  assumes "slot_inv s" and "dispatch_dequeue_bytes buf wait s = (r, buf', t)"
  shows "slot_inv t \<and> buf_deq buf (slot_abs s) = (r, buf', slot_abs t)"
proof (cases "SLOT_STATE s = STATE_FULL")
  case True
  then have len: "SLOT_LEN s \<le> length (SLOT_BYTES s)" "length (SLOT_BYTES s) = ENVELOPE_SLOT_BYTES"
    "SLOT_LEN s \<le> ENVELOPE_SLOT_BYTES" "SLOT_DEPTH s = 1"
    using assms(1) by (auto simp: slot_inv_def slot_states)
  have "s\<lparr>SLOT_STATE := STATE_FULL\<rparr> = s" using True by simp
  then show ?thesis using assms(2) True len
    by (auto simp: dispatch_dequeue_bytes_def dequeue_loop.simps [of _ 0] Let_def load_bytes_eq buf_deq_def
        slot_abs_def slot_inv_def slot_states min_absorb2 split: if_splits)
next
  case False
  then show ?thesis using assms
    by (auto simp: dispatch_dequeue_bytes_def dequeue_loop_empty buf_deq_def slot_abs_def)
qed

lemma reset_slot_abs:
  "slot_inv s \<Longrightarrow> slot_inv (reset_slot_for_tests s) \<and> slot_abs (reset_slot_for_tests s) = None"
  by (auto simp: slot_inv_def reset_slot_for_tests_def slot_abs_def slot_states)

lemma queue_depth_abs: "slot_inv s \<Longrightarrow> queue_depth s = (if slot_abs s = None then 0 else 1)"
  by (auto simp: slot_inv_def queue_depth_def slot_abs_def slot_states)

lemma should_trigger_gc_never: "slot_inv s \<Longrightarrow> \<not> should_trigger_gc s"
  by (simp add: should_trigger_gc_def queue_depth_abs ENVELOPE_QUEUE_CAPACITY_def ENVELOPE_GC_TRIGGER_PCT_def)

section \<open>The slot as a one-place buffer\<close>

definition slot_put :: "message \<Rightarrow> slot_st \<Rightarrow> bool \<times> slot_st" where
  "slot_put m s = (let (r, t) = dispatch_enqueue_bytes (fst m) (snd m) s in (is_ok r, t))"

text \<open>A read into a zeroed buffer of \<open>k\<close> bytes, with the bytes read as its result.\<close>

definition slot_get :: "nat \<Rightarrow> slot_st \<Rightarrow> bytes option \<times> slot_st" where
  "slot_get k s =
     (case dispatch_dequeue_bytes (replicate k 0) 0 s of
        (Ok n, buf, t) \<Rightarrow> (Some (take n buf), t)
      | (Err _, _, t) \<Rightarrow> (None, t))"

lemma slot_put_cases:
  assumes "slot_inv s" and "slot_put m s = (ok, t)"
  shows "slot_inv t" and
    "ok \<longleftrightarrow> length (fst m) \<le> ENVELOPE_SLOT_BYTES \<and> slot_abs s = None" and
    "slot_abs t = (if ok then Some m else slot_abs s)" and
    "\<not> ok \<Longrightarrow> t = s"
proof -
  obtain r where e: "dispatch_enqueue_bytes (fst m) (snd m) s = (r, t)" and ok: "ok = is_ok r"
    using assms(2) by (auto simp: slot_put_def split: prod.splits)
  note ref = enqueue_refines [OF assms(1) e]
  show "slot_inv t" using ref by simp
  show "ok \<longleftrightarrow> length (fst m) \<le> ENVELOPE_SLOT_BYTES \<and> slot_abs s = None"
    and "slot_abs t = (if ok then Some m else slot_abs s)"
    using ref ok by (auto simp: buf_enq_def split: if_splits option.splits)
  show "\<not> ok \<Longrightarrow> t = s"
    using e ok by (auto simp: dispatch_enqueue_bytes_def split: if_splits)
qed

lemma slot_get_cases:
  assumes "slot_inv s" and "slot_get k s = (d, t)"
  shows "slot_inv t" and
    "(\<exists>m. slot_abs s = Some m \<and> length (fst m) \<le> k \<and> d = Some (fst m) \<and> slot_abs t = None) \<or>
     d = None \<and> slot_abs t = slot_abs s \<and> (\<forall>m. slot_abs s = Some m \<longrightarrow> k < length (fst m))"
proof -
  obtain r buf where e: "dispatch_dequeue_bytes (replicate k 0) 0 s = (r, buf, t)"
    and d: "d = (case r of Ok n \<Rightarrow> Some (take n buf) | Err _ \<Rightarrow> None)"
    using assms(2) by (auto simp: slot_get_def split: prod.splits result.splits)
  note ref = dequeue_refines [OF assms(1) e]
  show "slot_inv t" using ref by simp
  show "(\<exists>m. slot_abs s = Some m \<and> length (fst m) \<le> k \<and> d = Some (fst m) \<and> slot_abs t = None) \<or>
     d = None \<and> slot_abs t = slot_abs s \<and> (\<forall>m. slot_abs s = Some m \<longrightarrow> k < length (fst m))"
    using ref d by (auto simp: buf_deq_def split: if_splits option.splits)
qed

interpretation env_slot: one_place_buffer slot_put slot_get slot_abs slot_inv
    "\<lambda>m. length (fst m)" ENVELOPE_SLOT_BYTES fst
proof
  fix s m t ok
  assume inv: "slot_inv s"
  show "slot_put m s = (ok, t) \<Longrightarrow> slot_inv t" by (rule slot_put_cases(1) [OF inv])
  show "slot_put m s = (True, t) \<Longrightarrow>
     length (fst m) \<le> ENVELOPE_SLOT_BYTES \<and> slot_abs s = None \<and> slot_abs t = Some m"
    using slot_put_cases [OF inv, of m True t] by simp
  show "slot_put m s = (False, t) \<Longrightarrow> t = s" using slot_put_cases(4) [OF inv, of m False t] by simp
  show "length (fst m) \<le> ENVELOPE_SLOT_BYTES \<Longrightarrow> slot_abs s = None \<Longrightarrow> fst (slot_put m s)"
    using slot_put_cases(2) [OF inv, of m "fst (slot_put m s)" "snd (slot_put m s)"] by simp
next
  fix s :: slot_st and k t and d :: "bytes option" and x :: bytes and m :: message
  assume inv: "slot_inv s"
  show "slot_get k s = (d, t) \<Longrightarrow> slot_inv t" by (rule slot_get_cases(1) [OF inv])
  show "slot_get k s = (Some x, t) \<Longrightarrow> \<exists>m. slot_abs s = Some m \<and> x = fst m \<and> slot_abs t = None"
    using slot_get_cases(2) [OF inv, of k "Some x" t] by auto
  show "slot_get k s = (None, t) \<Longrightarrow> slot_abs t = slot_abs s"
    using slot_get_cases(2) [OF inv, of k None t] by auto
  show "slot_abs s = Some m \<Longrightarrow> length (fst m) \<le> k \<Longrightarrow> fst (slot_get k s) = Some (fst m)"
    using slot_get_cases(2) [OF inv, of k "fst (slot_get k s)" "snd (slot_get k s)"] by auto
qed

section \<open>Every atomic access a step\<close>

text \<open>
  Program counters of a thread in \<open>dispatch_enqueue_bytes\<close> (\<open>E...\<close>) and in
  \<open>dispatch_dequeue_bytes\<close> (\<open>D...\<close>); each names the access that comes next. The dequeuer carries its
  budget, its tries and the bytes it has read; \<open>k\<close> is the length of its buffer.
\<close>

datatype slot_pc =
    EReq bytes u32
  | EByte bytes u32 nat
  | ELen bytes u32
  | ERoute bytes u32
  | EDepth bytes u32
  | EPublish bytes u32
  | EDone "(unit, EnvelopeErr) result"
  | DReq nat nat nat
  | DLen nat
  | DRestore
  | DByte nat bytes
  | DClearLen bytes
  | DClearDepth bytes
  | DRelease bytes
  | DDone "(bytes, EnvelopeErr) result"

text \<open>The logs record, as ghost state, the messages published and the byte strings handed out.\<close>

record slot_sys =
  slot :: slot_st
  pcs :: "nat \<Rightarrow> slot_pc"
  published :: "bytes list"
  consumed :: "bytes list"

definition slot_move :: "slot_sys \<Rightarrow> nat \<Rightarrow> slot_pc \<Rightarrow> slot_st \<Rightarrow> slot_sys" where
  "slot_move s i p sl = s\<lparr>slot := sl, pcs := (pcs s)(i := p)\<rparr>"

inductive slot_step :: "slot_sys \<Rightarrow> slot_sys \<Rightarrow> bool" where
  enq_oversize: "pcs s i = EReq env r \<Longrightarrow> length env > ENVELOPE_SLOT_BYTES \<Longrightarrow>
     slot_step s (slot_move s i (EDone (Err EnvelopeErr.PayloadOversize)) (slot s))"
| enq_full: "pcs s i = EReq env r \<Longrightarrow> length env \<le> ENVELOPE_SLOT_BYTES \<Longrightarrow>
     SLOT_STATE (slot s) \<noteq> STATE_EMPTY \<Longrightarrow>
     slot_step s (slot_move s i (EDone (Err EnvelopeErr.QueueFull)) (slot s))"
| enq_claim: "pcs s i = EReq env r \<Longrightarrow> length env \<le> ENVELOPE_SLOT_BYTES \<Longrightarrow>
     SLOT_STATE (slot s) = STATE_EMPTY \<Longrightarrow>
     slot_step s (slot_move s i (EByte env r 0) ((slot s)\<lparr>SLOT_STATE := STATE_WRITING\<rparr>))"
| enq_byte: "pcs s i = EByte env r j \<Longrightarrow> j < length env \<Longrightarrow>
     slot_step s (slot_move s i (EByte env r (Suc j))
       ((slot s)\<lparr>SLOT_BYTES := (SLOT_BYTES (slot s))[j := env ! j]\<rparr>))"
| enq_bytes_done: "pcs s i = EByte env r j \<Longrightarrow> \<not> j < length env \<Longrightarrow>
     slot_step s (slot_move s i (ELen env r) (slot s))"
| enq_len: "pcs s i = ELen env r \<Longrightarrow>
     slot_step s (slot_move s i (ERoute env r) ((slot s)\<lparr>SLOT_LEN := length env\<rparr>))"
| enq_route: "pcs s i = ERoute env r \<Longrightarrow>
     slot_step s (slot_move s i (EDepth env r) ((slot s)\<lparr>SLOT_ROUTE := r\<rparr>))"
| enq_depth: "pcs s i = EDepth env r \<Longrightarrow>
     slot_step s (slot_move s i (EPublish env r) ((slot s)\<lparr>SLOT_DEPTH := 1\<rparr>))"
| enq_publish: "pcs s i = EPublish env r \<Longrightarrow>
     slot_step s ((slot_move s i (EDone (Ok ())) ((slot s)\<lparr>SLOT_STATE := STATE_FULL\<rparr>))
       \<lparr>published := published s @ [env]\<rparr>)"
| deq_claim: "pcs s i = DReq budget tries k \<Longrightarrow> SLOT_STATE (slot s) = STATE_FULL \<Longrightarrow>
     slot_step s (slot_move s i (DLen k) ((slot s)\<lparr>SLOT_STATE := STATE_READING\<rparr>))"
| deq_retry: "pcs s i = DReq budget tries k \<Longrightarrow> SLOT_STATE (slot s) \<noteq> STATE_FULL \<Longrightarrow>
     \<not> tries + 1 \<ge> budget \<Longrightarrow>
     slot_step s (slot_move s i (DReq budget (tries + 1) k) (slot s))"
| deq_empty: "pcs s i = DReq budget tries k \<Longrightarrow> SLOT_STATE (slot s) \<noteq> STATE_FULL \<Longrightarrow>
     tries + 1 \<ge> budget \<Longrightarrow>
     slot_step s (slot_move s i (DDone (Err EnvelopeErr.QueueEmpty)) (slot s))"
| deq_oversize: "pcs s i = DLen k \<Longrightarrow> SLOT_LEN (slot s) > k \<Longrightarrow>
     slot_step s (slot_move s i DRestore (slot s))"
| deq_restore: "pcs s i = DRestore \<Longrightarrow>
     slot_step s (slot_move s i (DDone (Err EnvelopeErr.PayloadOversize))
       ((slot s)\<lparr>SLOT_STATE := STATE_FULL\<rparr>))"
| deq_len: "pcs s i = DLen k \<Longrightarrow> \<not> SLOT_LEN (slot s) > k \<Longrightarrow>
     slot_step s (slot_move s i (DByte (SLOT_LEN (slot s)) []) (slot s))"
| deq_byte: "pcs s i = DByte n acc \<Longrightarrow> length acc < n \<Longrightarrow>
     slot_step s (slot_move s i (DByte n (acc @ [SLOT_BYTES (slot s) ! length acc])) (slot s))"
| deq_bytes_done: "pcs s i = DByte n acc \<Longrightarrow> \<not> length acc < n \<Longrightarrow>
     slot_step s (slot_move s i (DClearLen acc) (slot s))"
| deq_clear_len: "pcs s i = DClearLen acc \<Longrightarrow>
     slot_step s (slot_move s i (DClearDepth acc) ((slot s)\<lparr>SLOT_LEN := 0\<rparr>))"
| deq_clear_depth: "pcs s i = DClearDepth acc \<Longrightarrow>
     slot_step s (slot_move s i (DRelease acc) ((slot s)\<lparr>SLOT_DEPTH := 0\<rparr>))"
| deq_release: "pcs s i = DRelease acc \<Longrightarrow>
     slot_step s ((slot_move s i (DDone (Ok acc)) ((slot s)\<lparr>SLOT_STATE := STATE_EMPTY\<rparr>))
       \<lparr>consumed := consumed s @ [acc]\<rparr>)"

definition slot_sys_init :: "slot_sys \<Rightarrow> bool" where
  "slot_sys_init s \<longleftrightarrow> slot s = slot_init \<and> published s = [] \<and> consumed s = [] \<and>
     (\<forall>i. (\<exists>env r. pcs s i = EReq env r) \<or> (\<exists>w k. pcs s i = DReq (spin_budget w) 0 k))"

inductive slot_reachable :: "slot_sys \<Rightarrow> bool" where
  start: "slot_sys_init s \<Longrightarrow> slot_reachable s"
| step: "slot_reachable s \<Longrightarrow> slot_step s t \<Longrightarrow> slot_reachable t"

section \<open>Concurrent behaviour\<close>

fun is_writer :: "slot_pc \<Rightarrow> bool" where
  "is_writer (EByte _ _ _) = True"
| "is_writer (ELen _ _) = True"
| "is_writer (ERoute _ _) = True"
| "is_writer (EDepth _ _) = True"
| "is_writer (EPublish _ _) = True"
| "is_writer _ = False"

fun is_reader :: "slot_pc \<Rightarrow> bool" where
  "is_reader (DLen _) = True"
| "is_reader DRestore = True"
| "is_reader (DByte _ _) = True"
| "is_reader (DClearLen _) = True"
| "is_reader (DClearDepth _) = True"
| "is_reader (DRelease _) = True"
| "is_reader _ = False"

text \<open>What the owner of the slot knows of it at each access. \<open>m\<close> is the last message published.\<close>

definition holds :: "slot_st \<Rightarrow> bytes \<Rightarrow> bool" where
  "holds sl m \<longleftrightarrow> SLOT_LEN sl = length m \<and> take (length m) (SLOT_BYTES sl) = m"

fun owner_ok :: "slot_st \<Rightarrow> bytes list \<Rightarrow> slot_pc \<Rightarrow> bool" where
  "owner_ok sl ms (EByte env r j) =
     (j \<le> length env \<and> length env \<le> ENVELOPE_SLOT_BYTES \<and> take j (SLOT_BYTES sl) = take j env)"
| "owner_ok sl ms (ELen env r) =
     (length env \<le> ENVELOPE_SLOT_BYTES \<and> take (length env) (SLOT_BYTES sl) = env)"
| "owner_ok sl ms (ERoute env r) = (length env \<le> ENVELOPE_SLOT_BYTES \<and> holds sl env)"
| "owner_ok sl ms (EDepth env r) = (length env \<le> ENVELOPE_SLOT_BYTES \<and> holds sl env)"
| "owner_ok sl ms (EPublish env r) = (length env \<le> ENVELOPE_SLOT_BYTES \<and> holds sl env)"
| "owner_ok sl ms (DLen k) = (\<exists>m. ms = [m] \<and> holds sl m)"
| "owner_ok sl ms DRestore = (\<exists>m. ms = [m] \<and> holds sl m)"
| "owner_ok sl ms (DByte n acc) =
     (\<exists>m. ms = [m] \<and> holds sl m \<and> n = length m \<and> length acc \<le> n \<and> acc = take (length acc) m)"
| "owner_ok sl ms (DClearLen acc) = (ms = [acc])"
| "owner_ok sl ms (DClearDepth acc) = (ms = [acc])"
| "owner_ok sl ms (DRelease acc) = (ms = [acc])"
| "owner_ok sl ms _ = True"

text \<open>Invariant: \<open>ms\<close> is what is published and not yet consumed. The state byte says who owns the
  slot, there is at most one owner, and it knows what the slot holds.\<close>

definition slot_sys_inv_ms :: "bytes list \<Rightarrow> slot_sys \<Rightarrow> bool" where
  "slot_sys_inv_ms ms s \<longleftrightarrow>
     published s = consumed s @ ms \<and> length ms \<le> 1 \<and>
     length (SLOT_BYTES (slot s)) = ENVELOPE_SLOT_BYTES \<and>
     (\<forall>i. owner_ok (slot s) ms (pcs s i)) \<and>
     (\<forall>i. is_writer (pcs s i) \<longrightarrow> SLOT_STATE (slot s) = STATE_WRITING) \<and>
     (\<forall>i. is_reader (pcs s i) \<longrightarrow> SLOT_STATE (slot s) = STATE_READING) \<and>
     (\<forall>i j. is_writer (pcs s i) \<or> is_reader (pcs s i) \<longrightarrow>
        is_writer (pcs s j) \<or> is_reader (pcs s j) \<longrightarrow> i = j) \<and>
     (SLOT_STATE (slot s) \<in> {STATE_EMPTY, STATE_WRITING} \<longrightarrow> ms = []) \<and>
     (SLOT_STATE (slot s) = STATE_FULL \<longrightarrow> (\<exists>m. ms = [m] \<and> holds (slot s) m)) \<and>
     list_all (\<lambda>m. length m \<le> ENVELOPE_SLOT_BYTES) (published s)"

definition slot_sys_inv :: "slot_sys \<Rightarrow> bool" where
  "slot_sys_inv s \<longleftrightarrow> (\<exists>ms. slot_sys_inv_ms ms s)"

lemma slot_move_simps [simp]:
  "slot (slot_move s i p sl) = sl" "pcs (slot_move s i p sl) = (pcs s)(i := p)"
  "published (slot_move s i p sl) = published s" "consumed (slot_move s i p sl) = consumed s"
  by (simp_all add: slot_move_def)

lemma owner_ok_idle: "\<not> is_writer p \<Longrightarrow> \<not> is_reader p \<Longrightarrow> owner_ok sl ms p"
  by (cases p) simp_all

text \<open>One rule for all the steps of the owner: the others do not own the slot, so only the stepping
  thread's knowledge has to be shown again.\<close>

lemma owner_step:
  assumes inv: "slot_sys_inv_ms ms s" and owns: "is_writer (pcs s i) \<or> is_reader (pcs s i)"
    and same: "is_writer p = is_writer (pcs s i)" "is_reader p = is_reader (pcs s i)"
    and st: "SLOT_STATE sl = SLOT_STATE (slot s)" "length (SLOT_BYTES sl) = ENVELOPE_SLOT_BYTES"
    and ok: "owner_ok sl ms p"
  shows "slot_sys_inv_ms ms (slot_move s i p sl)"
proof -
  have others: "\<not> is_writer (pcs s j) \<and> \<not> is_reader (pcs s j)" if "j \<noteq> i" for j
    using inv owns that unfolding slot_sys_inv_ms_def by blast
  have notfull: "SLOT_STATE (slot s) \<noteq> STATE_FULL"
    using inv owns unfolding slot_sys_inv_ms_def by (auto simp: slot_states)
  have "owner_ok sl ms (((pcs s)(i := p)) j)" for j
    using ok others [of j] by (auto intro: owner_ok_idle)
  moreover have "is_writer (((pcs s)(i := p)) j) = is_writer (pcs s j)"
    and "is_reader (((pcs s)(i := p)) j) = is_reader (pcs s j)" for j
    using same by simp_all
  ultimately show ?thesis
    using inv st notfull by (simp only: slot_sys_inv_ms_def slot_move_simps) (auto simp del: list_all_append)
qed

text \<open>A step of a thread that does not own the slot and changes nothing of it.\<close>

lemma idle_step:
  assumes inv: "slot_sys_inv_ms ms s" and idle: "\<not> is_writer p" "\<not> is_reader p"
  shows "slot_sys_inv_ms ms (slot_move s i p (slot s))"
  using assms owner_ok_idle [OF idle] unfolding slot_sys_inv_ms_def by auto

lemma slot_idle:
  assumes "slot_sys_inv_ms ms s" and "SLOT_STATE (slot s) \<in> {STATE_EMPTY, STATE_FULL}"
  shows "\<not> is_writer (pcs s j) \<and> \<not> is_reader (pcs s j)"
  using assms unfolding slot_sys_inv_ms_def by (auto simp: slot_states)

text \<open>A thread that claims the slot becomes its only owner.\<close>

lemma claim_step:
  assumes inv: "slot_sys_inv_ms ms s" and st: "SLOT_STATE (slot s) \<in> {STATE_EMPTY, STATE_FULL}"
    and ok: "owner_ok (slot s) ms p"
    and cl: "is_writer p \<and> v = STATE_WRITING \<and> SLOT_STATE (slot s) = STATE_EMPTY \<or>
             is_reader p \<and> v = STATE_READING \<and> \<not> is_writer p"
  shows "slot_sys_inv_ms ms (slot_move s i p ((slot s)\<lparr>SLOT_STATE := v\<rparr>))"
proof -
  note idle = slot_idle [OF inv st]
  have h: "holds (sl\<lparr>SLOT_STATE := v\<rparr>) = holds sl" for sl by (rule ext) (simp add: holds_def)
  have own: "owner_ok ((slot s)\<lparr>SLOT_STATE := v\<rparr>) ms q = owner_ok (slot s) ms q" for q
    by (cases q) (simp_all add: h)
  have excl: "is_writer p \<Longrightarrow> \<not> is_reader p" by (cases p) simp_all
  have ms: "is_writer p \<Longrightarrow> ms = []"
    using inv cl unfolding slot_sys_inv_ms_def by auto
  show ?thesis
    using inv idle ok cl excl ms unfolding slot_sys_inv_ms_def by (auto simp: own slot_states)
qed

text \<open>The owner gives the slot up: the state byte is \<open>EMPTY\<close> or \<open>FULL\<close> and no thread owns it.\<close>

lemma release_step:
  assumes inv: "slot_sys_inv_ms ms s" and owns: "is_writer (pcs s i) \<or> is_reader (pcs s i)"
    and idle: "\<not> is_writer p" "\<not> is_reader p"
    and st: "SLOT_STATE sl = STATE_EMPTY \<and> ms' = [] \<or>
             SLOT_STATE sl = STATE_FULL \<and> (\<exists>m. ms' = [m] \<and> holds sl m)"
    and len: "length (SLOT_BYTES sl) = ENVELOPE_SLOT_BYTES"
    and log: "pub = con @ ms'" "list_all (\<lambda>m. length m \<le> ENVELOPE_SLOT_BYTES) pub"
  shows "slot_sys_inv_ms ms' ((slot_move s i p sl)\<lparr>published := pub, consumed := con\<rparr>)"
proof -
  have others: "\<not> is_writer (pcs s j) \<and> \<not> is_reader (pcs s j)" if "j \<noteq> i" for j
    using inv owns that unfolding slot_sys_inv_ms_def by blast
  then show ?thesis
    using idle st len log owner_ok_idle unfolding slot_sys_inv_ms_def by (auto simp: slot_states)
qed

lemma holds_upd [simp]:
  "holds (sl\<lparr>SLOT_STATE := v\<rparr>) m = holds sl m" "holds (sl\<lparr>SLOT_ROUTE := r\<rparr>) m = holds sl m"
  "holds (sl\<lparr>SLOT_DEPTH := d\<rparr>) m = holds sl m"
  by (simp_all add: holds_def)

lemma slot_sys_inv_msD:
  assumes "slot_sys_inv_ms ms s"
  shows "owner_ok (slot s) ms (pcs s i)" and "length (SLOT_BYTES (slot s)) = ENVELOPE_SLOT_BYTES"
    and "published s = consumed s @ ms"
    and "list_all (\<lambda>m. length m \<le> ENVELOPE_SLOT_BYTES) (published s)"
    and "is_writer (pcs s i) \<Longrightarrow> SLOT_STATE (slot s) = STATE_WRITING"
    and "SLOT_STATE (slot s) \<in> {STATE_EMPTY, STATE_WRITING} \<Longrightarrow> ms = []"
    and "SLOT_STATE (slot s) = STATE_FULL \<Longrightarrow> \<exists>m. ms = [m] \<and> holds (slot s) m"
  using assms unfolding slot_sys_inv_ms_def by blast+

lemma take_store: "j < length xs \<Longrightarrow> j < length env \<Longrightarrow> take j xs = take j env \<Longrightarrow>
  take (Suc j) (xs[j := env ! j]) = take (Suc j) env"
  by (simp add: take_Suc_conv_app_nth)

lemma take_load: "length acc < length m \<Longrightarrow> acc = take (length acc) m \<Longrightarrow> take (length m) xs = m \<Longrightarrow>
  acc @ [xs ! length acc] = take (Suc (length acc)) m"
  by (metis nth_take take_Suc_conv_app_nth)

lemma idle_stepI:
  "slot_sys_inv_ms ms s \<Longrightarrow> \<not> is_writer p \<and> \<not> is_reader p \<Longrightarrow> slot_sys_inv (slot_move s i p (slot s))"
  by (auto simp: slot_sys_inv_def intro: idle_step)

lemma owner_stepI:
  assumes "slot_sys_inv_ms ms s" and "pcs s i = q" and "is_writer q \<or> is_reader q"
    and "is_writer p = is_writer q \<and> is_reader p = is_reader q"
    and "SLOT_STATE sl = SLOT_STATE (slot s) \<and> SLOT_BYTES sl = SLOT_BYTES (slot s)"
    and "owner_ok (slot s) ms q \<Longrightarrow> owner_ok sl ms p"
  shows "slot_sys_inv (slot_move s i p sl)"
  unfolding slot_sys_inv_def
  using assms slot_sys_inv_msD(1) [OF assms(1), of i] slot_sys_inv_msD(2) [OF assms(1)]
  by (intro exI [of _ ms] owner_step) auto

lemma slot_step_inv_ms:
  assumes "slot_step s t" and "slot_sys_inv_ms ms s"
  shows "slot_sys_inv t"
  using assms
proof (induction rule: slot_step.induct)
  case (enq_byte s i env r j)
  note ok = slot_sys_inv_msD(1) [OF enq_byte.prems, of i] slot_sys_inv_msD(2) [OF enq_byte.prems]
  have "slot_sys_inv_ms ms (slot_move s i (EByte env r (Suc j))
       ((slot s)\<lparr>SLOT_BYTES := (SLOT_BYTES (slot s))[j := env ! j]\<rparr>))"
    using enq_byte.hyps ok by (intro owner_step [OF enq_byte.prems]) (auto simp: take_store)
  then show ?case by (auto simp: slot_sys_inv_def)
next
  case (enq_publish s i env r)
  note d = slot_sys_inv_msD [OF enq_publish.prems]
  have ms: "ms = []" using d(5) [of i] d(6) enq_publish.hyps by simp
  have "slot_sys_inv_ms [env] ((slot_move s i (EDone (Ok ())) ((slot s)\<lparr>SLOT_STATE := STATE_FULL\<rparr>))
       \<lparr>published := published s @ [env], consumed := consumed s\<rparr>)"
    using enq_publish.hyps d(1) [of i] d(2-4) ms
    by (intro release_step [OF enq_publish.prems]) auto
  then show ?case unfolding slot_sys_inv_def
    by (intro exI [of _ "[env]"]) (simp add: slot_move_def)
next
  case (deq_byte s i n acc)
  note ok = slot_sys_inv_msD(1) [OF deq_byte.prems, of i] slot_sys_inv_msD(2) [OF deq_byte.prems]
  obtain m where m: "ms = [m]" "holds (slot s) m" "n = length m" "acc = take (length acc) m"
    using ok deq_byte.hyps by auto
  have "acc @ [SLOT_BYTES (slot s) ! length acc] = take (Suc (length acc)) m"
    using m deq_byte.hyps by (intro take_load) (auto simp: holds_def)
  then have "slot_sys_inv_ms ms (slot_move s i (DByte n (acc @ [SLOT_BYTES (slot s) ! length acc])) (slot s))"
    using deq_byte.hyps m ok(2) by (intro owner_step [OF deq_byte.prems]) auto
  then show ?case by (auto simp: slot_sys_inv_def)
next
  case (deq_restore s i)
  note d = slot_sys_inv_msD [OF deq_restore.prems]
  have "slot_sys_inv_ms ms ((slot_move s i (DDone (Err EnvelopeErr.PayloadOversize))
       ((slot s)\<lparr>SLOT_STATE := STATE_FULL\<rparr>))\<lparr>published := published s, consumed := consumed s\<rparr>)"
    using deq_restore.hyps d(1) [of i] d(2-4)
    by (intro release_step [OF deq_restore.prems]) (auto simp del: list_all_append)
  then show ?case unfolding slot_sys_inv_def
    by (intro exI [of _ ms]) (simp add: slot_move_def)
next
  case (deq_release s i acc)
  note d = slot_sys_inv_msD [OF deq_release.prems]
  have "slot_sys_inv_ms [] ((slot_move s i (DDone (Ok acc)) ((slot s)\<lparr>SLOT_STATE := STATE_EMPTY\<rparr>))
       \<lparr>published := published s, consumed := consumed s @ [acc]\<rparr>)"
    using deq_release.hyps d(1) [of i] d(2-4)
    by (intro release_step [OF deq_release.prems]) auto
  then show ?case unfolding slot_sys_inv_def
    by (intro exI [of _ "[]"]) (simp add: slot_move_def)
next
  case (enq_claim s i env r)
  then have "slot_sys_inv_ms ms (slot_move s i (EByte env r 0) ((slot s)\<lparr>SLOT_STATE := STATE_WRITING\<rparr>))"
    by (intro claim_step) auto
  then show ?case by (auto simp: slot_sys_inv_def)
next
  case (deq_claim s i budget tries k)
  then have "slot_sys_inv_ms ms (slot_move s i (DLen k) ((slot s)\<lparr>SLOT_STATE := STATE_READING\<rparr>))"
    using slot_sys_inv_msD(7) [OF deq_claim.prems] by (intro claim_step) auto
  then show ?case by (auto simp: slot_sys_inv_def)
qed ((rule idle_stepI, assumption, simp; fail) |
     (rule owner_stepI, assumption, assumption; auto simp: holds_def))+

lemma slot_sys_init_inv: "slot_sys_init s \<Longrightarrow> slot_sys_inv_ms [] s"
proof -
  assume init: "slot_sys_init s"
  have "\<not> is_writer (pcs s i) \<and> \<not> is_reader (pcs s i)" for i
  proof -
    from init have "(\<exists>env r. pcs s i = EReq env r) \<or> (\<exists>w k. pcs s i = DReq (spin_budget w) 0 k)"
      by (simp add: slot_sys_init_def)
    then show ?thesis by auto
  qed
  with init show ?thesis
    by (auto simp: slot_sys_init_def slot_sys_inv_ms_def slot_init_def slot_states intro: owner_ok_idle)
qed

lemma slot_reachable_inv: "slot_reachable s \<Longrightarrow> slot_sys_inv s"
proof (induction rule: slot_reachable.induct)
  case (start s)
  then show ?case using slot_sys_init_inv unfolding slot_sys_inv_def by blast
next
  case (step s t)
  then show ?case using slot_step_inv_ms unfolding slot_sys_inv_def by blast
qed

lemma slot_step_done:
  "slot_step s t \<Longrightarrow> \<forall>i acc. pcs s i = DDone (Ok acc) \<longrightarrow> acc \<in> set (consumed s) \<Longrightarrow>
   pcs t i = DDone (Ok acc) \<Longrightarrow> acc \<in> set (consumed t)"
  by (induction rule: slot_step.induct) (auto split: if_splits)

lemma slot_reachable_done:
  "slot_reachable s \<Longrightarrow> pcs s i = DDone (Ok acc) \<Longrightarrow> acc \<in> set (consumed s)"
proof (induction arbitrary: i acc rule: slot_reachable.induct)
  case (start s)
  from start.hyps have "(\<exists>env r. pcs s i = EReq env r) \<or> (\<exists>w k. pcs s i = DReq (spin_budget w) 0 k)"
    by (simp add: slot_sys_init_def)
  then show ?case using start.prems by (elim disjE exE) simp_all
next
  case (step s t)
  then show ?case using slot_step_done by blast
qed

section \<open>Properties\<close>



text \<open>over any sequence of sends and receives, starting with an empty slot, the byte strings
  received are exactly the accepted messages, in order and each once, but for at most one that is
  still in the slot.\<close>

theorem envelope_fifo:
  assumes "slot_inv s" and "slot_abs s = None" and "env_slot.run ops s = (accepted, received, t)"
  shows "slot_inv t \<and> (\<exists>rest. map fst accepted = received @ rest \<and> length rest \<le> 1 \<and>
           (rest = [] \<longleftrightarrow> slot_abs t = None))"
proof -
  have "slot_inv t" and e: "env_slot.pending s @ map fst accepted = received @ env_slot.pending t"
    using env_slot.run_fifo [OF assms(1,3)] by simp_all
  moreover have "env_slot.pending s = []" using assms(2) by (simp add: env_slot.pending_def)
  moreover have "length (env_slot.pending t) \<le> 1" "env_slot.pending t = [] \<longleftrightarrow> slot_abs t = None"
    by (simp_all add: env_slot.pending_def split: option.splits)
  ultimately show ?thesis by (intro conjI exI [of _ "env_slot.pending t"]) simp_all
qed

theorem envelope_fifo_witness:
  "env_slot.run [Inl ([1, 2], 0), Inl ([9], 0), Inr 1, Inr 8, Inl ([3], 5)] slot_init =
     ([([1, 2], 0), ([3], 5)], [[1, 2]], snd (snd (env_slot.run [Inl ([1, 2], 0), Inl ([9], 0), Inr 1, Inr 8, Inl ([3], 5)] slot_init))) \<and>
   (\<exists>rest. map fst [([1, 2 :: u8], 0 :: u32), ([3], 5)] = [[1, 2]] @ rest \<and> length rest \<le> 1)"
proof -
  let ?ops = "[Inl ([1, 2], 0), Inl ([9], 0), Inr 1, Inr 8, Inl ([3], 5)]"
  have run: "env_slot.run ?ops slot_init =
     ([([1, 2], 0), ([3], 5)], [[1, 2]], snd (snd (env_slot.run ?ops slot_init)))"
    by (simp add: slot_put_def slot_get_def slot_init_def dispatch_enqueue_bytes_def numeral_eq_Suc
        dispatch_dequeue_bytes_def spin_budget_def dequeue_loop.simps load_bytes.simps slot_states ENVELOPE_SLOT_BYTES_def)
  show ?thesis
    using envelope_fifo [OF slot_inv_init slot_abs_init run] run by blast
qed

text \<open>in every interleaving of any number of concurrent senders and receivers, at most one thread
  owns the slot, every envelope published has at most 1024 bytes, the byte strings handed out are
  the envelopes published, whole and in publication order, with at most one outstanding, and a
  receive that returned \<open>Ok\<close> returned one of them.\<close>

theorem envelope_concurrent:
  assumes "slot_reachable s"
  shows "(\<exists>rest. published s = consumed s @ rest \<and> length rest \<le> 1) \<and>
         list_all (\<lambda>m. length m \<le> ENVELOPE_SLOT_BYTES) (published s) \<and>
         (\<forall>i acc. pcs s i = DDone (Ok acc) \<longrightarrow> acc \<in> set (published s)) \<and>
         (\<forall>i j. is_writer (pcs s i) \<or> is_reader (pcs s i) \<longrightarrow>
                is_writer (pcs s j) \<or> is_reader (pcs s j) \<longrightarrow> i = j)"
proof -
  obtain ms where inv: "slot_sys_inv_ms ms s"
    using slot_reachable_inv [OF assms] by (auto simp: slot_sys_inv_def)
  then have "published s = consumed s @ ms" and "length ms \<le> 1"
    and "list_all (\<lambda>m. length m \<le> ENVELOPE_SLOT_BYTES) (published s)"
    and "\<forall>i j. is_writer (pcs s i) \<or> is_reader (pcs s i) \<longrightarrow>
                is_writer (pcs s j) \<or> is_reader (pcs s j) \<longrightarrow> i = j"
    unfolding slot_sys_inv_ms_def by blast+
  moreover have "acc \<in> set (published s)" if "pcs s i = DDone (Ok acc)" for i acc
    using slot_reachable_done [OF assms that] calculation(1) by simp
  ultimately show ?thesis by blast
qed

definition relay0 :: slot_sys where
  "relay0 = \<lparr>slot = slot_init, pcs = (\<lambda>i. if i = 0 then EReq [42] 1 else DReq 1 0 8),
             published = [], consumed = []\<rparr>"

text \<open>Thread 0 sends one byte, thread 1 receives it and thread 2 finds the slot being read.\<close>

lemma relay_reachable:
  "\<exists>s. slot_reachable s \<and> pcs s 1 = DDone (Ok [42]) \<and> pcs s 2 = DDone (Err EnvelopeErr.QueueEmpty)"
proof -
  note ev = relay0_def slot_move_def slot_init_def slot_states ENVELOPE_SLOT_BYTES_def
  have "slot_sys_init relay0"
    by (auto simp: slot_sys_init_def relay0_def spin_budget_def intro: exI [of _ 0])
  then have r0: "slot_reachable relay0" by (rule slot_reachable.start)
  note next_state = slot_reachable.step
  note r1 = next_state [OF r0 enq_claim [of _ 0 "[42]" 1], simplified ev, simplified]
  note r2 = next_state [OF r1 enq_byte [of _ 0 "[42]" 1 0], simplified ev, simplified]
  note r3 = next_state [OF r2 enq_bytes_done [of _ 0 "[42]" 1 1], simplified ev, simplified]
  note r4 = next_state [OF r3 enq_len [of _ 0 "[42]" 1], simplified ev, simplified]
  note r5 = next_state [OF r4 enq_route [of _ 0 "[42]" 1], simplified ev, simplified]
  note r6 = next_state [OF r5 enq_depth [of _ 0 "[42]" 1], simplified ev, simplified]
  note r7 = next_state [OF r6 enq_publish [of _ 0 "[42]" 1], simplified ev, simplified]
  note r8 = next_state [OF r7 deq_claim [of _ 1 1 0 8], simplified ev, simplified]
  note r9 = next_state [OF r8 deq_empty [of _ 2 1 0 8], simplified ev, simplified]
  note r10 = next_state [OF r9 deq_len [of _ 1 8], simplified ev, simplified]
  note r11 = next_state [OF r10 deq_byte [of _ 1 1 "[]"], simplified ev, simplified]
  note r12 = next_state [OF r11 deq_bytes_done [of _ 1 1 "[42]"], simplified ev, simplified]
  note r13 = next_state [OF r12 deq_clear_len [of _ 1 "[42]"], simplified ev, simplified]
  note r14 = next_state [OF r13 deq_clear_depth [of _ 1 "[42]"], simplified ev, simplified]
  note r15 = next_state [OF r14 deq_release [of _ 1 "[42]"], simplified ev, simplified]
  show ?thesis by (rule exI, rule conjI, rule r15) simp
qed

theorem envelope_concurrent_witness:
  "\<exists>s. slot_reachable s \<and> pcs s 1 = DDone (Ok [42]) \<and> [42] \<in> set (published s)"
  using relay_reachable envelope_concurrent by blast

end
