(* ===== verification/Vfs.thy ===== *)
theory Vfs
  imports Envelope
begin

text \<open>
  The file-descriptor table \<^verbatim>\<open>kernel/core/src/vfs/mod.rs\<close>: 256 state bytes, of which descriptors 0, 1 and
  2 are reserved, and reads and writes routed by the binding kind in the state byte. The table is a
  byte list (\<open>FD_STATE\<close>); descriptors bound to \<open>/dev/bus/envelope\<close> act on the envelope slot, whose
  contract comes from the interpretation \<open>env_slot\<close> of theory \<open>Envelope\<close>. A descriptor is a \<open>u64\<close>, and
  \<open>fd as usize\<close> is the identity on 64-bit targets.
\<close>

section \<open>Constants, errors and operations\<close>

definition STDIN_FD :: u64 where "STDIN_FD = 0"
definition STDOUT_FD :: u64 where "STDOUT_FD = 1"
definition STDERR_FD :: u64 where "STDERR_FD = 2"
definition RESERVED_FD_MAX :: u64 where "RESERVED_FD_MAX = STDERR_FD"

datatype VfsErr =
    InvalidFd | InvalidOpForFd | InvalidBuf | LenExceedsBuf | TableFull | InvalidPath
  | InvalidMode | PayloadOversize | WouldBlock | Unimplemented

definition FD_TABLE_SIZE :: nat where "FD_TABLE_SIZE = 256"
definition FD_STATE_FREE :: u8 where "FD_STATE_FREE = 0"
definition FD_STATE_OPEN :: u8 where "FD_STATE_OPEN = 1"
definition FD_BIND_UNBACKED :: u8 where "FD_BIND_UNBACKED = 1"
definition FD_BIND_DEVNULL :: u8 where "FD_BIND_DEVNULL = 2"
definition FD_BIND_BUSENVELOPE :: u8 where "FD_BIND_BUSENVELOPE = 3"
definition O_RDONLY :: u32 where "O_RDONLY = 1"
definition O_WRONLY :: u32 where "O_WRONLY = 2"
definition O_RDWR :: u32 where "O_RDWR = 3"
definition MODE_MASK :: u32 where "MODE_MASK = O_RDONLY OR O_WRONLY OR O_RDWR"

lemmas fd_consts = STDIN_FD_def STDOUT_FD_def STDERR_FD_def RESERVED_FD_MAX_def FD_TABLE_SIZE_def
lemmas fd_kinds = FD_STATE_FREE_def FD_STATE_OPEN_def FD_BIND_UNBACKED_def FD_BIND_DEVNULL_def
  FD_BIND_BUSENVELOPE_def

type_synonym fd_table = bytes

definition fd_init :: fd_table where
  "fd_init = replicate FD_TABLE_SIZE FD_STATE_FREE"

definition vfs_is_open :: "u64 \<Rightarrow> fd_table \<Rightarrow> bool" where
  "vfs_is_open fd FD_STATE =
     (if fd \<le> RESERVED_FD_MAX then True
      else if unat fd \<ge> FD_TABLE_SIZE then False
      else FD_STATE ! unat fd \<noteq> FD_STATE_FREE)"

definition binding_kind_for_path :: "bytes \<Rightarrow> u8" where
  "binding_kind_for_path path =
     (if path = as_bytes ''/dev/null'' then FD_BIND_DEVNULL
      else if path = as_bytes ''/dev/bus/envelope'' then FD_BIND_BUSENVELOPE
      else FD_BIND_UNBACKED)"

text \<open>The scan \<open>for fd in start..FD_TABLE_SIZE\<close> with its compare-exchange.\<close>

function open_scan :: "u8 \<Rightarrow> nat \<Rightarrow> fd_table \<Rightarrow> (u64, VfsErr) result \<times> fd_table" where
  "open_scan kind fd FD_STATE =
     (if fd < FD_TABLE_SIZE then
        if FD_STATE ! fd = FD_STATE_FREE then (Ok (word_of_nat fd), FD_STATE[fd := kind])
        else open_scan kind (fd + 1) FD_STATE
      else (Err VfsErr.TableFull, FD_STATE))"
  by pat_completeness auto
termination by (relation "measure (\<lambda>(_, fd, _). FD_TABLE_SIZE - fd)") auto

declare open_scan.simps [simp del]

definition vfs_open :: "bytes \<Rightarrow> u32 \<Rightarrow> fd_table \<Rightarrow> (u64, VfsErr) result \<times> fd_table" where
  "vfs_open path mode FD_STATE =
     (if path = [] then (Err VfsErr.InvalidPath, FD_STATE)
      else if mode = 0 \<or> mode AND NOT MODE_MASK \<noteq> 0 then (Err VfsErr.InvalidMode, FD_STATE)
      else let kind = binding_kind_for_path path;
               start = unat RESERVED_FD_MAX + 1
           in open_scan kind start FD_STATE)"

definition vfs_close :: "u64 \<Rightarrow> fd_table \<Rightarrow> (unit, VfsErr) result \<times> fd_table" where
  "vfs_close fd FD_STATE =
     (if fd \<le> RESERVED_FD_MAX then (Err VfsErr.InvalidOpForFd, FD_STATE)
      else if unat fd \<ge> FD_TABLE_SIZE then (Err VfsErr.InvalidFd, FD_STATE)
      else let old = FD_STATE ! unat fd;
               FD_STATE = FD_STATE[unat fd := FD_STATE_FREE]
           in if old = FD_STATE_FREE then (Err VfsErr.InvalidFd, FD_STATE)
              else (Ok (), FD_STATE))"

definition reset_fds_for_tests :: "fd_table \<Rightarrow> fd_table" where
  "reset_fds_for_tests FD_STATE = foldl (\<lambda>t fd. t[fd := FD_STATE_FREE]) FD_STATE [0..<FD_TABLE_SIZE]"

text \<open>\<open>&mut buf[..len]\<close> is a view of the first \<open>len\<close> bytes: the rest of the buffer is not touched.\<close>

definition vfs_read ::
    "u64 \<Rightarrow> bytes \<Rightarrow> nat \<Rightarrow> fd_table \<Rightarrow> slot_st \<Rightarrow> (nat, VfsErr) result \<times> bytes \<times> slot_st" where
  "vfs_read fd buf len FD_STATE s =
     (if len > length buf then (Err VfsErr.LenExceedsBuf, buf, s)
      else if fd = STDIN_FD then (Ok 0, buf, s)
      else if fd = STDOUT_FD \<or> fd = STDERR_FD then (Err VfsErr.InvalidOpForFd, buf, s)
      else if unat fd \<ge> FD_TABLE_SIZE then (Err VfsErr.InvalidFd, buf, s)
      else let kind = FD_STATE ! unat fd
           in if kind = FD_STATE_FREE then (Err VfsErr.InvalidFd, buf, s)
              else if kind = FD_BIND_UNBACKED then (Err VfsErr.InvalidFd, buf, s)
              else if kind = FD_BIND_DEVNULL then (Ok 0, buf, s)
              else if kind = FD_BIND_BUSENVELOPE then
                (case dispatch_dequeue_bytes (take len buf) 0 s of
                   (Ok n, view, t) \<Rightarrow> (Ok n, view @ drop len buf, t)
                 | (Err EnvelopeErr.QueueEmpty, view, t) \<Rightarrow>
                     (Err VfsErr.WouldBlock, view @ drop len buf, t)
                 | (Err EnvelopeErr.PayloadOversize, view, t) \<Rightarrow>
                     (Err VfsErr.PayloadOversize, view @ drop len buf, t)
                 | (Err _, view, t) \<Rightarrow> (Err VfsErr.InvalidFd, view @ drop len buf, t))
              else (Err VfsErr.InvalidFd, buf, s))"

definition vfs_write :: "u64 \<Rightarrow> bytes \<Rightarrow> fd_table \<Rightarrow> slot_st \<Rightarrow> (nat, VfsErr) result \<times> slot_st" where
  "vfs_write fd buf FD_STATE s =
     (if buf = [] then (Err VfsErr.InvalidBuf, s)
      else if fd = STDOUT_FD \<or> fd = STDERR_FD then (Ok (length buf), s)
      else if fd = STDIN_FD then (Err VfsErr.InvalidOpForFd, s)
      else if unat fd \<ge> FD_TABLE_SIZE then (Err VfsErr.InvalidFd, s)
      else let kind = FD_STATE ! unat fd
           in if kind = FD_STATE_FREE then (Err VfsErr.InvalidFd, s)
              else if kind = FD_BIND_UNBACKED then (Err VfsErr.InvalidFd, s)
              else if kind = FD_BIND_DEVNULL then (Ok (length buf), s)
              else if kind = FD_BIND_BUSENVELOPE then
                (case dispatch_enqueue_bytes buf 0 s of
                   (Ok _, t) \<Rightarrow> (Ok (length buf), t)
                 | (Err EnvelopeErr.QueueFull, t) \<Rightarrow> (Err VfsErr.WouldBlock, t)
                 | (Err EnvelopeErr.PayloadOversize, t) \<Rightarrow> (Err VfsErr.PayloadOversize, t)
                 | (Err _, t) \<Rightarrow> (Err VfsErr.InvalidFd, t))
              else (Err VfsErr.InvalidFd, s))"

section \<open>The table invariant\<close>

definition fd_inv :: "fd_table \<Rightarrow> bool" where
  "fd_inv T \<longleftrightarrow> length T = FD_TABLE_SIZE \<and>
     set T \<subseteq> {FD_STATE_FREE, FD_BIND_UNBACKED, FD_BIND_DEVNULL, FD_BIND_BUSENVELOPE} \<and>
     (\<forall>i \<le> 2. T ! i = FD_STATE_FREE)"

text \<open>The descriptors a caller holds, as the abstract state of the table.\<close>

definition open_fds :: "fd_table \<Rightarrow> nat set" where
  "open_fds T = {i. 3 \<le> i \<and> i < FD_TABLE_SIZE \<and> T ! i \<noteq> FD_STATE_FREE}"

lemma fd_inv_init: "fd_inv fd_init"
  by (simp add: fd_inv_def fd_init_def fd_consts)

lemma fd_inv_update:
  "fd_inv T \<Longrightarrow> 3 \<le> i \<Longrightarrow> i < FD_TABLE_SIZE \<Longrightarrow>
   k \<in> {FD_STATE_FREE, FD_BIND_UNBACKED, FD_BIND_DEVNULL, FD_BIND_BUSENVELOPE} \<Longrightarrow> fd_inv (T[i := k])"
  by (auto simp: fd_inv_def dest!: set_update_subset_insert [THEN subsetD])

lemma binding_kind_range:
  "binding_kind_for_path p \<in> {FD_BIND_UNBACKED, FD_BIND_DEVNULL, FD_BIND_BUSENVELOPE}"
  by (simp add: binding_kind_for_path_def)

lemma binding_kind_not_free: "binding_kind_for_path p \<noteq> FD_STATE_FREE"
  by (simp add: binding_kind_for_path_def fd_kinds)

lemma open_scan_cases:
  "start \<le> FD_TABLE_SIZE \<Longrightarrow>
   (\<exists>fd. start \<le> fd \<and> fd < FD_TABLE_SIZE \<and> T ! fd = FD_STATE_FREE \<and>
      (\<forall>j. start \<le> j \<and> j < fd \<longrightarrow> T ! j \<noteq> FD_STATE_FREE) \<and>
      open_scan kind start T = (Ok (word_of_nat fd), T[fd := kind])) \<or>
   (\<forall>j. start \<le> j \<and> j < FD_TABLE_SIZE \<longrightarrow> T ! j \<noteq> FD_STATE_FREE) \<and>
      open_scan kind start T = (Err VfsErr.TableFull, T)"
proof (induction kind start T rule: open_scan.induct)
  case (1 kind fd T)
  show ?case
  proof (cases "fd < FD_TABLE_SIZE")
    case False
    then have "fd = FD_TABLE_SIZE" using "1.prems" by simp
    then show ?thesis by (intro disjI2) (auto simp: open_scan.simps [of _ FD_TABLE_SIZE])
  next
    case lt: True
    show ?thesis
    proof (cases "T ! fd = FD_STATE_FREE")
      case True
      then show ?thesis using lt by (intro disjI1 exI [of _ fd]) (auto simp: open_scan.simps [of _ fd])
    next
      case False
      note IH = "1.IH" [OF lt False]
      have next_scan: "open_scan kind fd T = open_scan kind (fd + 1) T"
        using lt False by (simp add: open_scan.simps [of _ fd])
      have ext: "(\<forall>j. fd \<le> j \<and> j < k \<longrightarrow> T ! j \<noteq> FD_STATE_FREE) \<longleftrightarrow>
                 (\<forall>j. fd + 1 \<le> j \<and> j < k \<longrightarrow> T ! j \<noteq> FD_STATE_FREE)" for k
        using False by (metis Suc_eq_plus1 le_SucI not_less_eq_eq le_antisym)
      have "fd + 1 \<le> FD_TABLE_SIZE" using lt by simp
      from IH [OF this] show ?thesis unfolding next_scan ext by (meson add_leD1)
    qed
  qed
qed

lemma mode_ok_iff: "\<not> (mode = 0 \<or> mode AND NOT MODE_MASK \<noteq> 0) \<longleftrightarrow> mode \<in> {O_RDONLY, O_WRONLY, O_RDWR}"
proof
  assume "\<not> (mode = 0 \<or> mode AND NOT MODE_MASK \<noteq> 0)"
  then have nz: "mode \<noteq> 0" and z: "mode AND NOT MODE_MASK = 0" by simp_all
  have "mode = (mode AND MODE_MASK) OR (mode AND NOT MODE_MASK)"
    by (simp add: bit.conj_disj_distrib [symmetric])
  then have "mode = mode AND MODE_MASK" using z by simp
  also have "\<dots> \<le> MODE_MASK" by (rule word_and_le1)
  finally have "unat mode \<le> 3"
    by (simp add: word_le_nat_alt MODE_MASK_def O_RDONLY_def O_WRONLY_def O_RDWR_def)
  moreover have "unat mode \<noteq> 0" using nz by (simp add: unat_eq_0)
  ultimately have "unat mode = 1 \<or> unat mode = 2 \<or> unat mode = 3" by linarith
  then have "unat mode = unat (1 :: u32) \<or> unat mode = unat (2 :: u32) \<or> unat mode = unat (3 :: u32)"
    by simp
  then have "mode = 1 \<or> mode = 2 \<or> mode = 3" by (simp only: word_unat_eq_iff)
  then show "mode \<in> {O_RDONLY, O_WRONLY, O_RDWR}"
    by (simp add: O_RDONLY_def O_WRONLY_def O_RDWR_def)
qed (auto simp: MODE_MASK_def O_RDONLY_def O_WRONLY_def O_RDWR_def)

lemma reserved_iff: "fd \<le> RESERVED_FD_MAX \<longleftrightarrow> unat fd < 3" for fd :: u64
  by (auto simp: fd_consts word_le_nat_alt)

lemma vfs_open_cases:
  obtains (path) "path = []" "vfs_open path mode T = (Err VfsErr.InvalidPath, T)"
  | (mode) "path \<noteq> []" "mode \<notin> {O_RDONLY, O_WRONLY, O_RDWR}"
      "vfs_open path mode T = (Err VfsErr.InvalidMode, T)"
  | (full) "path \<noteq> []" "mode \<in> {O_RDONLY, O_WRONLY, O_RDWR}" "open_fds T = {3..<FD_TABLE_SIZE}"
      "vfs_open path mode T = (Err VfsErr.TableFull, T)"
  | (ok) fd where "path \<noteq> []" "mode \<in> {O_RDONLY, O_WRONLY, O_RDWR}" "unat fd \<in> {3..<FD_TABLE_SIZE}"
      "unat fd \<notin> open_fds T" "\<forall>j \<in> {3..<unat fd}. j \<in> open_fds T"
      "vfs_open path mode T = (Ok fd, T[unat fd := binding_kind_for_path path])"
proof -
  consider "path = []" | "path \<noteq> []" "mode = 0 \<or> mode AND NOT MODE_MASK \<noteq> 0"
    | "path \<noteq> []" "\<not> (mode = 0 \<or> mode AND NOT MODE_MASK \<noteq> 0)" by blast
  then show ?thesis
  proof cases
    case 1
    then show ?thesis by (intro path) (simp_all add: vfs_open_def)
  next
    case 2
    then show ?thesis using mode_ok_iff [of mode] by (intro mode) (simp_all add: vfs_open_def)
  next
    case 3
    note m = mode_ok_iff [of mode, THEN iffD1, OF 3(2)]
    have st: "unat RESERVED_FD_MAX + 1 = 3" by (simp add: fd_consts)
    have run: "vfs_open path mode T = open_scan (binding_kind_for_path path) 3 T"
      using 3 by (simp only: vfs_open_def if_False Let_def st)
    have "3 \<le> FD_TABLE_SIZE" by (simp add: fd_consts)
    from open_scan_cases [OF this, of T "binding_kind_for_path path"]
    show ?thesis
    proof (elim disjE exE conjE)
      fix fd assume fd: "3 \<le> fd" "fd < FD_TABLE_SIZE" "T ! fd = FD_STATE_FREE"
        "\<forall>j. 3 \<le> j \<and> j < fd \<longrightarrow> T ! j \<noteq> FD_STATE_FREE"
        "open_scan (binding_kind_for_path path) 3 T = (Ok (word_of_nat fd), T[fd := binding_kind_for_path path])"
      have "unat (word_of_nat fd :: u64) = fd" using fd(2) by (simp add: unat_of_nat FD_TABLE_SIZE_def)
      then show ?thesis using 3(1) m fd run by (intro ok [of "word_of_nat fd"]) (auto simp: open_fds_def)
    next
      assume "\<forall>j. 3 \<le> j \<and> j < FD_TABLE_SIZE \<longrightarrow> T ! j \<noteq> FD_STATE_FREE"
        "open_scan (binding_kind_for_path path) 3 T = (Err VfsErr.TableFull, T)"
      then show ?thesis using 3(1) m run by (intro full) (auto simp: open_fds_def)
    qed
  qed
qed

lemma vfs_close_cases:
  obtains (reserved) "unat fd < 3" "vfs_close fd T = (Err VfsErr.InvalidOpForFd, T)"
  | (range) "FD_TABLE_SIZE \<le> unat fd" "vfs_close fd T = (Err VfsErr.InvalidFd, T)"
  | (free) "unat fd \<in> {3..<FD_TABLE_SIZE}" "unat fd \<notin> open_fds T" "vfs_close fd T = (Err VfsErr.InvalidFd, T)"
  | (ok) "unat fd \<in> open_fds T" "vfs_close fd T = (Ok (), T[unat fd := FD_STATE_FREE])"
proof -
  consider "unat fd < 3" | "FD_TABLE_SIZE \<le> unat fd" | "unat fd \<in> {3..<FD_TABLE_SIZE}" "unat fd \<notin> open_fds T"
    | "unat fd \<in> open_fds T" by (force simp: open_fds_def)
  then show ?thesis
  proof cases
    case 1
    then show ?thesis by (intro reserved) (simp_all add: vfs_close_def reserved_iff)
  next
    case 2
    then have "\<not> unat fd < 3" by (simp add: FD_TABLE_SIZE_def)
    then show ?thesis using 2 by (intro range) (simp_all add: vfs_close_def reserved_iff)
  next
    case 3
    then have "T ! unat fd = FD_STATE_FREE" by (simp add: open_fds_def)
    moreover from this have "T[unat fd := FD_STATE_FREE] = T" by (metis list_update_id)
    ultimately show ?thesis using 3 by (intro free) (auto simp: vfs_close_def reserved_iff)
  next
    case 4
    then show ?thesis by (intro ok) (auto simp: vfs_close_def reserved_iff open_fds_def)
  qed
qed

lemma open_fds_update:
  "length T = FD_TABLE_SIZE \<Longrightarrow> i \<in> {3..<FD_TABLE_SIZE} \<Longrightarrow>
   open_fds (T[i := k]) = (if k = FD_STATE_FREE then open_fds T - {i} else insert i (open_fds T))"
  by (auto simp: open_fds_def nth_list_update)

lemma vfs_is_open_iff: "vfs_is_open fd T \<longleftrightarrow> unat fd < 3 \<or> unat fd \<in> open_fds T"
  by (auto simp: vfs_is_open_def reserved_iff open_fds_def FD_TABLE_SIZE_def)

lemma fd_inv_open: "fd_inv T \<Longrightarrow> vfs_open path mode T = (r, T') \<Longrightarrow> fd_inv T'"
  using binding_kind_range [of path]
  by (cases rule: vfs_open_cases [of path mode T]) (auto intro: fd_inv_update)

lemma fd_inv_close: "fd_inv T \<Longrightarrow> vfs_close fd T = (r, T') \<Longrightarrow> fd_inv T'"
  by (cases rule: vfs_close_cases [of fd T]) (auto simp: open_fds_def intro: fd_inv_update)

section \<open>Reads and writes on the bus descriptor\<close>

text \<open>A descriptor bound to the envelope bus.\<close>

definition bus_fd :: "u64 \<Rightarrow> fd_table \<Rightarrow> bool" where
  "bus_fd fd T \<longleftrightarrow> unat fd \<in> {3..<FD_TABLE_SIZE} \<and> T ! unat fd = FD_BIND_BUSENVELOPE"

lemma bus_fd_ge3:
  assumes "3 \<le> unat (fd :: u64)"
  shows "fd \<noteq> STDIN_FD \<and> fd \<noteq> STDOUT_FD \<and> fd \<noteq> STDERR_FD"
  using assms by (auto simp: fd_consts)

lemma bus_fd_opened:
  assumes "fd_inv T" and "vfs_open (as_bytes ''/dev/bus/envelope'') mode T = (Ok fd, T')"
  shows "bus_fd fd T'"
  using assms
  by (cases rule: vfs_open_cases [of "as_bytes ''/dev/bus/envelope''" mode T])
    (auto simp: bus_fd_def fd_inv_def binding_kind_for_path_def as_bytes_def)

lemma bus_fd_guards:
  assumes "bus_fd fd T"
  shows "T ! unat fd = FD_BIND_BUSENVELOPE" and "(fd = STDIN_FD) = False" and "(fd = STDOUT_FD) = False"
    and "(fd = STDERR_FD) = False" and "(FD_TABLE_SIZE \<le> unat fd) = False"
    and "(FD_BIND_BUSENVELOPE = FD_STATE_FREE) = False" and "(FD_BIND_BUSENVELOPE = FD_BIND_UNBACKED) = False"
    and "(FD_BIND_BUSENVELOPE = FD_BIND_DEVNULL) = False"
  using assms bus_fd_ge3 [of fd] by (auto simp: bus_fd_def fd_kinds)

definition bus_write_result :: "bytes \<Rightarrow> (unit, EnvelopeErr) result \<Rightarrow> (nat, VfsErr) result" where
  "bus_write_result buf r = (case r of Ok _ \<Rightarrow> Ok (length buf)
     | Err e \<Rightarrow> Err (if e = EnvelopeErr.QueueFull then VfsErr.WouldBlock else VfsErr.PayloadOversize))"

definition bus_read_result :: "(nat, EnvelopeErr) result \<Rightarrow> (nat, VfsErr) result" where
  "bus_read_result r = (case r of Ok n \<Rightarrow> Ok n
     | Err e \<Rightarrow> Err (if e = EnvelopeErr.QueueEmpty then VfsErr.WouldBlock else VfsErr.PayloadOversize))"

lemma vfs_write_bus:
  assumes "bus_fd fd T" and "buf \<noteq> []" and "dispatch_enqueue_bytes buf 0 s = (r, t)"
  shows "vfs_write fd buf T s = (bus_write_result buf r, t)"
proof -
  have r: "r = Ok () \<or> r = Err EnvelopeErr.QueueFull \<or> r = Err EnvelopeErr.PayloadOversize"
    using assms(3) by (auto simp: dispatch_enqueue_bytes_def split: if_splits)
  have "vfs_write fd buf T s =
      (case (r, t) of
         (Ok _, t) \<Rightarrow> (Ok (length buf), t)
       | (Err EnvelopeErr.QueueFull, t) \<Rightarrow> (Err VfsErr.WouldBlock, t)
       | (Err EnvelopeErr.PayloadOversize, t) \<Rightarrow> (Err VfsErr.PayloadOversize, t)
       | (Err _, t) \<Rightarrow> (Err VfsErr.InvalidFd, t))"
    using assms(2)
    by (simp only: vfs_write_def Let_def bus_fd_guards [OF assms(1)] assms(3) if_False if_True simp_thms)
  with r show ?thesis by (elim disjE) (simp_all add: bus_write_result_def)
qed

lemma vfs_read_bus:
  assumes "bus_fd fd T" and "len \<le> length buf" and "slot_inv s"
    and "dispatch_dequeue_bytes (take len buf) 0 s = (r, view, t)"
  shows "vfs_read fd buf len T s = (bus_read_result r, view @ drop len buf, t)"
proof -
  have "buf_deq (take len buf) (slot_abs s) = (r, view, slot_abs t)"
    using dequeue_refines [OF assms(3,4)] by simp
  then have r: "(\<exists>n. r = Ok n) \<or> r = Err EnvelopeErr.QueueEmpty \<or> r = Err EnvelopeErr.PayloadOversize"
    by (auto simp: buf_deq_def split: option.splits if_splits)
  have len: "(length buf < len) = False" using assms(2) by simp
  have "vfs_read fd buf len T s =
      (case (r, view, t) of
         (Ok n, view, t) \<Rightarrow> (Ok n, view @ drop len buf, t)
       | (Err EnvelopeErr.QueueEmpty, view, t) \<Rightarrow> (Err VfsErr.WouldBlock, view @ drop len buf, t)
       | (Err EnvelopeErr.PayloadOversize, view, t) \<Rightarrow> (Err VfsErr.PayloadOversize, view @ drop len buf, t)
       | (Err _, view, t) \<Rightarrow> (Err VfsErr.InvalidFd, view @ drop len buf, t))"
    by (simp only: vfs_read_def Let_def bus_fd_guards [OF assms(1)] assms(4) len if_False if_True simp_thms)
  with r show ?thesis by (elim disjE exE) (simp_all add: bus_read_result_def)
qed

section \<open>Properties\<close>

text \<open>C31: \<open>vfs_open\<close> returns the lowest descriptor in \<open>3..256\<close> that is not in use and makes it, and only
  it, open; it fails with \<open>InvalidPath\<close>, \<open>InvalidMode\<close> or \<open>TableFull\<close> exactly when the path is empty,
  the mode is not one of the three modes, or all 253 descriptors are in use, and then changes
  nothing. The table invariant is kept.\<close>

theorem vfs_open_spec:
  assumes "fd_inv T"
  shows "case vfs_open path mode T of
      (Ok fd, T') \<Rightarrow> path \<noteq> [] \<and> mode \<in> {O_RDONLY, O_WRONLY, O_RDWR} \<and>
          fd \<ge> 3 \<and> fd < 256 \<and> \<not> vfs_is_open fd T \<and> vfs_is_open fd T' \<and>
          {3..<unat fd} \<subseteq> open_fds T \<and> open_fds T' = insert (unat fd) (open_fds T) \<and>
          T' ! unat fd = binding_kind_for_path path \<and> fd_inv T'
    | (Err e, T') \<Rightarrow> T' = T \<and>
          (path = [] \<and> e = VfsErr.InvalidPath \<or>
           path \<noteq> [] \<and> mode \<notin> {O_RDONLY, O_WRONLY, O_RDWR} \<and> e = VfsErr.InvalidMode \<or>
           path \<noteq> [] \<and> mode \<in> {O_RDONLY, O_WRONLY, O_RDWR} \<and> open_fds T = {3..<256} \<and> e = VfsErr.TableFull)"
proof (cases rule: vfs_open_cases [of path mode T])
  case (ok fd)
  have inv: "fd_inv (T[unat fd := binding_kind_for_path path])" by (rule fd_inv_open [OF assms ok(6)])
  have "open_fds (T[unat fd := binding_kind_for_path path]) = insert (unat fd) (open_fds T)"
    using open_fds_update [of T "unat fd"] ok(3) assms binding_kind_not_free by (simp add: fd_inv_def)
  then show ?thesis using ok inv assms
    by (auto simp: vfs_is_open_iff fd_inv_def word_le_nat_alt word_less_nat_alt FD_TABLE_SIZE_def)
qed (auto simp: FD_TABLE_SIZE_def)

theorem vfs_open_spec_witness:
  "fd_inv fd_init \<and> vfs_open (as_bytes ''/dev/null'') O_RDWR fd_init = (Ok 3, fd_init[3 := 2]) \<and>
   open_fds (fd_init[3 := 2]) = insert 3 (open_fds fd_init)"
proof -
  have run: "vfs_open (as_bytes ''/dev/null'') O_RDWR fd_init = (Ok 3, fd_init[3 := 2])"
    by (simp add: vfs_open_def open_scan.simps fd_init_def fd_consts fd_kinds O_RDWR_def O_RDONLY_def
        O_WRONLY_def MODE_MASK_def binding_kind_for_path_def as_bytes_def)
  show ?thesis
    using vfs_open_spec [OF fd_inv_init, of "as_bytes ''/dev/null''" O_RDWR] fd_inv_init run by simp
qed

text \<open>a descriptor's life cycle. Closing what was just opened succeeds and gives the table back as
  it was; closing it a second time is refused with \<open>InvalidFd\<close>; the next open of any path is given
  the same descriptor; the reserved descriptors can never be closed.\<close>

theorem vfs_open_close:
  assumes "fd_inv T" and "vfs_open path mode T = (Ok fd, T')"
  shows "vfs_close fd T' = (Ok (), T) \<and> vfs_close fd T = (Err VfsErr.InvalidFd, T) \<and>
         (\<forall>p. p \<noteq> [] \<longrightarrow> fst (vfs_open p mode T) = Ok fd) \<and>
         (\<forall>r \<in> {STDIN_FD, STDOUT_FD, STDERR_FD}. vfs_close r T' = (Err VfsErr.InvalidOpForFd, T'))"
proof (cases rule: vfs_open_cases [of path mode T])
  case (ok f)
  then have f: "f = fd" "T' = T[unat fd := binding_kind_for_path path]" using assms(2) by auto
  have free: "T ! unat fd = FD_STATE_FREE" using ok f by (auto simp: open_fds_def)
  have len: "unat fd < length T" using ok(3) f assms(1) by (simp add: fd_inv_def)
  have restored: "T'[unat fd := FD_STATE_FREE] = T" using f free by (metis list_update_id list_update_overwrite)
  have "unat fd \<in> open_fds T'"
    using ok(3) f len binding_kind_not_free by (auto simp: open_fds_def)
  then have "vfs_close fd T' = (Ok (), T)"
    using restored by (cases rule: vfs_close_cases [of fd T']) (auto simp: open_fds_def)
  moreover have "vfs_close fd T = (Err VfsErr.InvalidFd, T)"
    using ok(3,4) f by (cases rule: vfs_close_cases [of fd T]) (auto simp: open_fds_def)
  moreover have "fst (vfs_open p mode T) = Ok fd" if "p \<noteq> []" for p
  proof (cases rule: vfs_open_cases [of p mode T])
    case (ok g)
    have "unat g = unat fd"
      using ok \<open>unat f \<notin> open_fds T\<close> \<open>\<forall>j\<in>{3..<unat f}. j \<in> open_fds T\<close> \<open>unat f \<in> _\<close> f
      by (metis atLeastLessThan_iff linorder_neqE_nat)
    then show ?thesis using ok by (simp add: word_unat_eq_iff)
  qed (use that ok f in auto)
  moreover have "vfs_close r T' = (Err VfsErr.InvalidOpForFd, T')"
    if "r \<in> {STDIN_FD, STDOUT_FD, STDERR_FD}" for r
    using that by (auto simp: vfs_close_def fd_consts)
  ultimately show ?thesis by blast
qed (use assms in auto)

theorem vfs_open_close_witness:
  "vfs_open [1] 1 fd_init = (Ok 3, fd_init[3 := 1]) \<and> vfs_close 3 (fd_init[3 := 1]) = (Ok (), fd_init) \<and>
   vfs_close 3 fd_init = (Err VfsErr.InvalidFd, fd_init)"
proof -
  have run: "vfs_open [1] 1 fd_init = (Ok 3, fd_init[3 := 1])"
    by (simp add: vfs_open_def open_scan.simps fd_init_def fd_consts fd_kinds O_RDWR_def O_RDONLY_def
        O_WRONLY_def MODE_MASK_def binding_kind_for_path_def as_bytes_def)
  show ?thesis using vfs_open_close [OF fd_inv_init run] run by simp
qed

text \<open>the bus file. Bytes written through one descriptor opened on \<open>/dev/bus/envelope\<close> are read,
  exactly and once, through any other: the write reports their number; a second write before they
  are read would block; a read with too little room reports \<open>PayloadOversize\<close> and leaves them there;
  a read with enough room puts them at the front of the buffer, leaves the rest of the buffer alone
  and empties the slot, so that a further read would block.\<close>

theorem vfs_bus_roundtrip:
  assumes "bus_fd a T" and "bus_fd b T" and "slot_inv s" and "slot_abs s = None"
    and "msg \<noteq> []" and "length msg \<le> ENVELOPE_SLOT_BYTES" and "length msg \<le> len" and "len \<le> length buf"
    and "other \<noteq> []" and "length other \<le> ENVELOPE_SLOT_BYTES" and "small < length msg" and "small \<le> length buf"
  shows "\<exists>t u. vfs_write a msg T s = (Ok (length msg), t) \<and>
     vfs_write a other T t = (Err VfsErr.WouldBlock, t) \<and>
     fst (vfs_read b buf small T t) = Err VfsErr.PayloadOversize \<and>
     slot_abs (snd (snd (vfs_read b buf small T t))) = Some (msg, 0) \<and>
     vfs_read b buf len T t = (Ok (length msg), msg @ drop (length msg) buf, u) \<and>
     slot_inv u \<and> slot_abs u = None \<and> fst (vfs_read b buf len T u) = Err VfsErr.WouldBlock"
proof -
  obtain r t where e: "dispatch_enqueue_bytes msg 0 s = (r, t)" by fastforce
  have r: "r = Ok ()" and t: "slot_inv t" "slot_abs t = Some (msg, 0)"
    using enqueue_refines [OF assms(3) e] assms(4,6) by (auto simp: buf_enq_def)
  obtain r2 view u where d: "dispatch_dequeue_bytes (take len buf) 0 t = (r2, view, u)" by (metis prod_cases3)
  have u: "slot_inv u" "slot_abs u = None" and r2: "r2 = Ok (length msg)"
    and view: "view = msg @ drop (length msg) (take len buf)"
    using dequeue_refines [OF t(1) d] t(2) assms(7,8) by (auto simp: buf_deq_def)
  have "view @ drop len buf = msg @ drop (length msg) buf"
    using view assms(7) by (simp add: drop_take) (metis append_take_drop_id drop_drop le_add_diff_inverse2)
  moreover obtain r3 t3 where e3: "dispatch_enqueue_bytes other 0 t = (r3, t3)" by fastforce
  then have "r3 = Err EnvelopeErr.QueueFull" "t3 = t"
    using enqueue_refines [OF t(1) e3] t(2) assms(10)
    by (auto simp: buf_enq_def dispatch_enqueue_bytes_def split: if_splits)
  moreover obtain r4 v4 t4 where e4: "dispatch_dequeue_bytes (take small buf) 0 t = (r4, v4, t4)"
    by (metis prod_cases3)
  then have "r4 = Err EnvelopeErr.PayloadOversize" "slot_abs t4 = Some (msg, 0)"
    using dequeue_refines [OF t(1) e4] t(2) assms(11,12) by (auto simp: buf_deq_def)
  moreover obtain r5 v5 t5 where e5: "dispatch_dequeue_bytes (take len buf) 0 u = (r5, v5, t5)"
    by (metis prod_cases3)
  then have "r5 = Err EnvelopeErr.QueueEmpty"
    using dequeue_refines [OF u(1) e5] u(2) by (auto simp: buf_deq_def)
  ultimately show ?thesis
    using vfs_write_bus [OF assms(1,5) e] vfs_write_bus [OF assms(1,9) e3] vfs_read_bus [OF assms(2,8) t(1) d]
      vfs_read_bus [OF assms(2,12) t(1) e4] vfs_read_bus [OF assms(2,8) u(1) e5] r r2 u
    by (intro exI [of _ t] exI [of _ u]) (simp add: bus_write_result_def bus_read_result_def)
qed

theorem vfs_bus_roundtrip_witness:
  "\<exists>t u. vfs_write 3 [7, 8] (fd_init[3 := 3, 4 := 3]) slot_init = (Ok 2, t) \<and>
         vfs_read 4 [0, 0, 0] 3 (fd_init[3 := 3, 4 := 3]) t = (Ok 2, [7, 8, 0], u) \<and> slot_abs u = None"
proof -
  have fds: "bus_fd 3 (fd_init[3 := 3, 4 := 3])" "bus_fd 4 (fd_init[3 := 3, 4 := 3])"
    by (simp_all add: bus_fd_def fd_init_def fd_consts fd_kinds)
  show ?thesis
    using vfs_bus_roundtrip [OF fds slot_inv_init slot_abs_init, of "[7, 8]" 3 "[0, 0, 0]" "[9]" 1]
    by (auto simp: ENVELOPE_SLOT_BYTES_def)
qed

end
