(* ===== verification/Sha256.thy ===== *)
theory Sha256
  imports Prelude
begin

text \<open>
  The boot crate's own SHA-256, \<open>sha256\<close> of \<^verbatim>\<open>kernel/boot/src/hwinv.rs\<close>: a fixed 640-byte message buffer,
  input cut at \<open>TUPLE_CAP\<close> = 512 bytes, padding and the big-endian bit length stored into the buffer,
  and one compression per 64-byte block. The reference definition is the padding and block rule of
  FIPS 180-4 on lists; the two share the compression function, whose constants are checked on the
  standard's example.

  The locale \<open>digest\<close> states what the rest of the kernel relies on of a SHA-256 implementation; it is
  interpreted here on this one. The kernel core calls the \<^verbatim>\<open>sha2\<close> crate, so its definitions take the
  hash function as a parameter.
\<close>

section \<open>The contract of a digest\<close>

definition DIGEST_LEN :: nat where "DIGEST_LEN = 32"

locale digest =
  fixes H :: "bytes \<Rightarrow> bytes"
  assumes length_H [simp]: "length (H m) = 32"
begin

lemma H_prefix_length [simp]: "k \<le> 32 \<Longrightarrow> length (take k (H m)) = k"
  by simp

lemma H_nonempty [simp]: "H m \<noteq> []"
  using length_H [of m] by force

end

section \<open>Constants\<close>

definition TUPLE_CAP :: nat where "TUPLE_CAP = 512"
definition MSG_CAP :: nat where "MSG_CAP = 640"

definition K :: "u32 list" where
  "K =
     [0x428a2f98, 0x71374491, 0xb5c0fbcf, 0xe9b5dba5, 0x3956c25b, 0x59f111f1, 0x923f82a4] @
     [0xab1c5ed5, 0xd807aa98, 0x12835b01, 0x243185be, 0x550c7dc3, 0x72be5d74, 0x80deb1fe] @
     [0x9bdc06a7, 0xc19bf174, 0xe49b69c1, 0xefbe4786, 0x0fc19dc6, 0x240ca1cc, 0x2de92c6f] @
     [0x4a7484aa, 0x5cb0a9dc, 0x76f988da, 0x983e5152, 0xa831c66d, 0xb00327c8, 0xbf597fc7] @
     [0xc6e00bf3, 0xd5a79147, 0x06ca6351, 0x14292967, 0x27b70a85, 0x2e1b2138, 0x4d2c6dfc] @
     [0x53380d13, 0x650a7354, 0x766a0abb, 0x81c2c92e, 0x92722c85, 0xa2bfe8a1, 0xa81a664b] @
     [0xc24b8b70, 0xc76c51a3, 0xd192e819, 0xd6990624, 0xf40e3585, 0x106aa070, 0x19a4c116] @
     [0x1e376c08, 0x2748774c, 0x34b0bcb5, 0x391c0cb3, 0x4ed8aa4a, 0x5b9cca4f, 0x682e6ff3] @
     [0x748f82ee, 0x78a5636f, 0x84c87814, 0x8cc70208, 0x90befffa, 0xa4506ceb, 0xbef9a3f7] @
     [0xc67178f2]"

type_synonym hash_state = "u32 \<times> u32 \<times> u32 \<times> u32 \<times> u32 \<times> u32 \<times> u32 \<times> u32"

definition H_INIT :: hash_state where
  "H_INIT = (0x6a09e667, 0xbb67ae85, 0x3c6ef372, 0xa54ff53a, 0x510e527f, 0x9b05688c, 0x1f83d9ab,
        0x5be0cd19)"

section \<open>The compression of one block\<close>

definition u32_from_be :: "u8 \<Rightarrow> u8 \<Rightarrow> u8 \<Rightarrow> u8 \<Rightarrow> u32" where
  "u32_from_be a b c d =
     push_bit 24 (ucast a) OR push_bit 16 (ucast b) OR push_bit 8 (ucast c) OR ucast d"

text \<open>The first 16 words of the schedule, read at offset \<open>off\<close> of the buffer.\<close>

definition block_words :: "bytes \<Rightarrow> nat \<Rightarrow> u32 list" where
  "block_words msg off =
     map (\<lambda>i. let j = off + i * 4 in u32_from_be (msg ! j) (msg ! (j + 1)) (msg ! (j + 2)) (msg ! (j + 3)))
       [0..<16]"

definition sched_word :: "u32 list \<Rightarrow> nat \<Rightarrow> u32" where
  "sched_word w i =
     (let s0 = word_rotr 7 (w ! (i - 15)) XOR word_rotr 18 (w ! (i - 15)) XOR drop_bit 3 (w ! (i - 15));
          s1 = word_rotr 17 (w ! (i - 2)) XOR word_rotr 19 (w ! (i - 2)) XOR drop_bit 10 (w ! (i - 2))
      in w ! (i - 16) + s0 + w ! (i - 7) + s1)"

text \<open>Words 16 to 63, each from the words before it.\<close>

definition schedule :: "u32 list \<Rightarrow> u32 list" where
  "schedule w16 = foldl (\<lambda>w i. w @ [sched_word w i]) w16 [16..<64]"

definition sha_round :: "hash_state \<Rightarrow> u32 \<times> u32 \<Rightarrow> hash_state" where
  "sha_round st kw =
     (let (a, b, c, d, e, f, g, hh) = st;
          (k, w) = kw;
          s1 = word_rotr 6 e XOR word_rotr 11 e XOR word_rotr 25 e;
          ch = (e AND f) XOR (NOT e AND g);
          t1 = hh + s1 + ch + k + w;
          s0 = word_rotr 2 a XOR word_rotr 13 a XOR word_rotr 22 a;
          maj = (a AND b) XOR (a AND c) XOR (b AND c);
          t2 = s0 + maj
      in (t1 + t2, a, b, c, d + t1, e, f, g))"

definition compress :: "u32 list \<Rightarrow> hash_state \<Rightarrow> hash_state" where
  "compress w16 h =
     (let (h0, h1, h2, h3, h4, h5, h6, h7) = h;
          (a, b, c, d, e, f, g, hh) = foldl sha_round h (zip K (schedule w16))
      in (h0 + a, h1 + b, h2 + c, h3 + d, h4 + e, h5 + f, h6 + g, h7 + hh))"

definition state_bytes :: "hash_state \<Rightarrow> bytes" where
  "state_bytes h =
     (let (h0, h1, h2, h3, h4, h5, h6, h7) = h
      in concat (map (be_bytes 4) [h0, h1, h2, h3, h4, h5, h6, h7]))"

section \<open>The buffer\<close>

text \<open>\<open>buf[off..off + src.len()].copy_from_slice(src)\<close>\<close>

definition copy_at :: "nat \<Rightarrow> 'a list \<Rightarrow> 'a list \<Rightarrow> 'a list" where
  "copy_at off src buf = take off buf @ src @ drop (off + length src) buf"

text \<open>\<open>while total % 64 != 56 { total += 1; }\<close>\<close>

function pad_total :: "nat \<Rightarrow> nat" where
  "pad_total tot = (if tot mod 64 \<noteq> 56 then pad_total (tot + 1) else tot)"
  by pat_completeness auto
termination
proof (relation "measure (\<lambda>n. if n mod 64 \<le> 56 then 56 - n mod 64 else 120 - n mod 64)")
  fix n :: nat assume "n mod 64 \<noteq> 56"
  moreover have "n mod 64 < 64" by simp
  ultimately show "(n + 1, n) \<in> measure (\<lambda>n. if n mod 64 \<le> 56 then 56 - n mod 64 else 120 - n mod 64)"
    by (auto simp: mod_Suc)
qed simp

declare pad_total.simps [simp del]

function block_loop :: "bytes \<Rightarrow> nat \<Rightarrow> nat \<Rightarrow> hash_state \<Rightarrow> hash_state" where
  "block_loop msg tot off h =
     (if off < tot then block_loop msg tot (off + 64) (compress (block_words msg off) h) else h)"
  by pat_completeness auto
termination by (relation "measure (\<lambda>(_, tot, off, _). tot - off)") auto

declare block_loop.simps [simp del]

definition sha256 :: "bytes \<Rightarrow> bytes" where
  "sha256 data =
     (let msg = replicate MSG_CAP 0;
          n = (if length data > TUPLE_CAP then TUPLE_CAP else length data);
          msg = copy_at 0 (take n data) msg;
          msg = msg[n := 0x80];
          tot = pad_total (n + 1);
          bit_len = word_of_nat n * (8 :: u64);
          msg = copy_at tot (be_bytes 8 bit_len) msg;
          tot = tot + 8
      in state_bytes (block_loop msg tot 0 H_INIT))"

section \<open>The reference definition\<close>

text \<open>FIPS 180-4, 5.1.1 and 6.2: a one bit, the least number of zero bits that makes the length a
  multiple of 64 bytes with eight bytes to spare, the bit length; then one compression per block.\<close>

definition fips_pad :: "bytes \<Rightarrow> bytes" where
  "fips_pad m = m @ [0x80] @ replicate ((119 - length m mod 64) mod 64) 0 @
     be_bytes 8 (word_of_nat (8 * length m) :: u64)"

fun fips_blocks :: "nat \<Rightarrow> bytes \<Rightarrow> hash_state \<Rightarrow> hash_state" where
  "fips_blocks 0 bs h = h"
| "fips_blocks (Suc k) bs h = fips_blocks k (drop 64 bs) (compress (block_words (take 64 bs) 0) h)"

definition fips_sha256 :: "bytes \<Rightarrow> bytes" where
  "fips_sha256 m = (let p = fips_pad m in state_bytes (fips_blocks (length p div 64) p H_INIT))"

section \<open>The buffer holds the padded message\<close>

lemma length_copy_at [simp]: "off + length src \<le> length buf \<Longrightarrow> length (copy_at off src buf) = length buf"
  by (simp add: copy_at_def)

lemma pad_total_eq: "pad_total n = n + (if n mod 64 \<le> 56 then 56 - n mod 64 else 120 - n mod 64)"
proof (induction n rule: pad_total.induct)
  case (1 n)
  show ?case
  proof (cases "n mod 64 = 56")
    case True
    then show ?thesis by (simp add: pad_total.simps [of n])
  next
    case False
    moreover have "n mod 64 < 64" by simp
    ultimately show ?thesis using 1 by (auto simp: pad_total.simps [of n] mod_Suc)
  qed
qed

lemma pad_total_zeros: "pad_total (n + 1) = n + 1 + (119 - n mod 64) mod 64"
proof -
  define r where "r = n mod 64"
  have r: "r < 64" by (simp add: r_def)
  have succ: "(n + 1) mod 64 = (if r = 63 then 0 else r + 1)" by (simp add: r_def mod_Suc)
  consider "r \<le> 55" | "55 < r" "r < 63" | "r = 63" using r by linarith
  then have "(if (n + 1) mod 64 \<le> 56 then 56 - (n + 1) mod 64 else 120 - (n + 1) mod 64) = (119 - r) mod 64"
  proof cases
    case 1
    then have "119 - r = (55 - r) + 64" by simp
    then have "(119 - r) mod 64 = 55 - r" by (simp only: mod_add_self2) simp
    then show ?thesis using 1 unfolding succ by simp
  qed (unfold succ, simp_all)
  then show ?thesis unfolding r_def by (simp only: pad_total_eq)
qed

lemma pad_total_bounds: "n < pad_total (n + 1)" "pad_total (n + 1) \<le> n + 64" "(pad_total (n + 1) + 8) mod 64 = 0"
proof -
  have "n mod 64 < 64" by simp
  then show "n < pad_total (n + 1)" "pad_total (n + 1) \<le> n + 64"
    by (auto simp: pad_total_eq mod_Suc)
  have "(pad_total m + 8) mod 64 = 0" for m
  proof (induction m rule: pad_total.induct)
    case (1 m)
    then show ?case
      by (cases "m mod 64 = 56") (simp_all add: pad_total.simps [of m] mod_add_left_eq [of m 64 8, symmetric])
  qed
  then show "(pad_total (n + 1) + 8) mod 64 = 0" .
qed

lemma length_fips_pad: "length (fips_pad m) = pad_total (length m + 1) + 8"
  using pad_total_zeros [of "length m"] by (simp add: fips_pad_def)

text \<open>The stores of the code, for a message that fits: the padded message and zeros behind it.\<close>

lemma buffer_eq:
  assumes "length m \<le> TUPLE_CAP"
  shows "copy_at (pad_total (length m + 1)) (be_bytes 8 (word_of_nat (length m) * (8 :: u64)))
           ((copy_at 0 m (replicate MSG_CAP 0))[length m := 0x80]) =
         fips_pad m @ replicate (MSG_CAP - length (fips_pad m)) 0"
proof -
  let ?n = "length m" let ?t = "pad_total (?n + 1)"
  note b = pad_total_bounds [of ?n]
  have fit: "?t + 8 \<le> MSG_CAP" "?n < MSG_CAP" "?t \<le> MSG_CAP"
    using b assms by (simp_all add: TUPLE_CAP_def MSG_CAP_def)
  have z: "(replicate (MSG_CAP - ?n) 0)[0 := 0x80] = 0x80 # replicate (MSG_CAP - Suc ?n) (0 :: u8)"
    using fit by (cases "MSG_CAP - ?n") (auto simp: diff_Suc split: nat.splits)
  have A: "(copy_at 0 m (replicate MSG_CAP 0))[?n := 0x80] = m @ 0x80 # replicate (MSG_CAP - ?n - 1) 0"
    by (simp add: copy_at_def list_update_append z)
  have B: "take ?t (m @ 0x80 # replicate (MSG_CAP - ?n - 1) 0) = m @ 0x80 # replicate (?t - ?n - 1) 0"
    using b fit by (simp add: take_Cons' min_def)
  have C: "drop (?t + 8) (m @ 0x80 # replicate (MSG_CAP - ?n - 1) 0) = replicate (MSG_CAP - (?t + 8)) 0"
    using b fit by (simp add: drop_Cons')
  have D: "?t - ?n - 1 = (119 - ?n mod 64) mod 64" using pad_total_zeros [of ?n] by simp
  have E: "(word_of_nat ?n * 8 :: u64) = word_of_nat (8 * ?n)" by simp
  have "m @ 0x80 # replicate (?t - ?n - 1) 0 @ be_bytes 8 (word_of_nat (8 * ?n) :: u64) = fips_pad m"
    by (simp only: D fips_pad_def append_Cons append_Nil)
  then show ?thesis
    by (simp only: A copy_at_def [where off = ?t] length_be_bytes B C E length_fips_pad append.assoc append_Cons)
      (metis append.assoc append_Cons)
qed

lemma block_words_take: "off + 64 \<le> length msg \<Longrightarrow> block_words msg off = block_words (take 64 (drop off msg)) 0"
  by (simp add: block_words_def Let_def add.assoc)

lemma block_loop_blocks:
  "off + 64 * k \<le> length msg \<Longrightarrow>
   block_loop msg (off + 64 * k) off h = fips_blocks k (drop off msg) h"
proof (induction k arbitrary: off h)
  case 0
  then show ?case by (simp add: block_loop.simps)
next
  case (Suc k)
  have "block_loop msg (off + 64 * Suc k) off h =
        block_loop msg (off + 64 + 64 * k) (off + 64) (compress (block_words msg off) h)"
    by (simp add: block_loop.simps [of _ _ off] add.assoc)
  then show ?case using Suc block_words_take [of off msg] by (simp add: add.commute)
qed

lemma fips_blocks_take: "64 * k \<le> length bs \<Longrightarrow> fips_blocks k (bs @ rest) h = fips_blocks k bs h"
  by (induction k arbitrary: bs h) auto

lemma sha256_eq_fips: "sha256 data = fips_sha256 (take TUPLE_CAP data)"
proof -
  let ?m = "take TUPLE_CAP data" let ?p = "fips_pad ?m" let ?t = "pad_total (length ?m + 1) + 8"
  define k where "k = length ?p div 64"
  have n: "(if length data > TUPLE_CAP then TUPLE_CAP else length data) = length ?m" by simp
  have m: "take (length ?m) data = ?m" by (simp add: min_def)
  have t: "?t = length ?p" by (simp only: length_fips_pad)
  moreover have "length ?p mod 64 = 0" using pad_total_bounds(3) by (simp only: length_fips_pad)
  ultimately have k: "?t = 64 * k" unfolding k_def by (metis mod_0_imp_dvd dvd_mult_div_cancel)
  have "sha256 data = state_bytes (block_loop (?p @ replicate (MSG_CAP - length ?p) 0) ?t 0 H_INIT)"
    unfolding sha256_def Let_def n m by (subst buffer_eq) simp_all
  also have "block_loop (?p @ replicate (MSG_CAP - length ?p) 0) ?t 0 H_INIT =
             fips_blocks k (?p @ replicate (MSG_CAP - length ?p) 0) H_INIT"
    using block_loop_blocks [of 0 k "?p @ replicate (MSG_CAP - length ?p) 0"] k t by simp
  also have "\<dots> = fips_blocks k ?p H_INIT"
    using k t by (intro fips_blocks_take) simp
  finally show ?thesis by (simp add: fips_sha256_def Let_def k_def)
qed

lemma length_state_bytes [simp]: "length (state_bytes h) = 32"
  by (simp add: state_bytes_def Let_def split: prod.splits)

lemma length_fips_sha256: "length (fips_sha256 m) = 32"
  by (simp add: fips_sha256_def Let_def)

lemma length_sha256 [simp]: "length (sha256 data) = 32"
  by (simp add: sha256_def Let_def)

interpretation boot_sha: digest sha256
  by unfold_locales simp

section \<open>Properties\<close>

text \<open>C19: the boot crate's \<open>sha256\<close> computes the padding and block rule of FIPS 180-4 on the first 512
  bytes of its input: on the whole input when it has at most 512 bytes, and the same digest for any
  two inputs that agree on their first 512 bytes. Its stores stay inside the 640-byte buffer, and
  the digest has 32 bytes.\<close>

theorem sha256_is_fips:
  "sha256 data = fips_sha256 (take TUPLE_CAP data) \<and> length (sha256 data) = 32 \<and>
   length (fips_pad (take TUPLE_CAP data)) \<le> MSG_CAP \<and> length (fips_pad (take TUPLE_CAP data)) mod 64 = 0"
proof -
  have "length (take TUPLE_CAP data) \<le> TUPLE_CAP" by simp
  then have "pad_total (length (take TUPLE_CAP data) + 1) + 8 \<le> MSG_CAP"
    using pad_total_bounds(2) [of "length (take TUPLE_CAP data)"]
    unfolding TUPLE_CAP_def MSG_CAP_def by linarith
  then show ?thesis
    using pad_total_bounds(3) [of "length (take TUPLE_CAP data)"] unfolding length_fips_pad
    by (simp only: sha256_eq_fips length_sha256 simp_thms flip: sha256_eq_fips)
qed

end
