(* ===== verification/Crypto.thy ===== *)
theory Crypto
  imports Sha256
begin

text \<open>
  The signing placeholder \<^verbatim>\<open>kernel/core/src/crypto/mod.rs\<close>. The \<^verbatim>\<open>sha2\<close> crate's SHA-256 is the parameter
  \<open>sha\<close> of every definition that hashes; what is relied on of it is the contract \<open>digest\<close> of theory
  \<open>Sha256\<close> (32 bytes of output). Fixed-size arrays are byte lists.
\<close>

section \<open>Types and constants\<close>

definition SIGNATURE_LEN :: nat where "SIGNATURE_LEN = 64"
definition PUBLIC_KEY_LEN :: nat where "PUBLIC_KEY_LEN = 32"
definition PRIVATE_KEY_LEN :: nat where "PRIVATE_KEY_LEN = 32"

datatype CryptoErr =
  SignatureInvalid | VerificationFailed | KeyMalformed | CanonicalizationFailed | Unimplemented

datatype Signature = Signature (sig_bytes: bytes)
datatype PublicKey = PublicKey (public_bytes: bytes)
datatype PrivateKey = PrivateKey (private_bytes: bytes)

section \<open>Operations\<close>

definition BAR :: u8 where "BAR = 0x7C"

definition canonical_envelope_bytes ::
    "u64 \<Rightarrow> u64 \<Rightarrow> bytes \<Rightarrow> bytes \<Rightarrow> bytes \<Rightarrow> u64 \<Rightarrow> bytes \<Rightarrow> (bytes, CryptoErr) result" where
  "canonical_envelope_bytes from_pid to_pid type_tag verb idb ts_ns payload =
     (if type_tag = [] \<or> idb = [] then Err CryptoErr.CanonicalizationFailed
      else Ok (be_bytes 8 from_pid @ [BAR] @ be_bytes 8 to_pid @ [BAR] @ type_tag @ [BAR] @ verb @ [BAR] @
               idb @ [BAR] @ be_bytes 8 ts_ns @ [BAR] @ payload))"

definition expected_sig_bytes :: "(bytes \<Rightarrow> bytes) \<Rightarrow> PublicKey \<Rightarrow> bytes \<Rightarrow> bytes" where
  "expected_sig_bytes sha pk msg =
     (let half_a = sha (public_bytes pk @ as_bytes '':sign:'' @ msg);
          half_b = sha half_a;
          out = replicate SIGNATURE_LEN 0;
          out = copy_at 0 half_a out;
          out = copy_at 32 half_b out
      in out)"

text \<open>The XOR fold \<open>while i < SIGNATURE_LEN { acc |= a[i] ^ b[i]; i += 1; }\<close>.\<close>

definition ct_eq :: "bytes \<Rightarrow> bytes \<Rightarrow> bool" where
  "ct_eq a b = (foldl (\<lambda>acc i. acc OR (a ! i XOR b ! i)) 0 [0..<SIGNATURE_LEN] = 0)"

definition derive_public :: "(bytes \<Rightarrow> bytes) \<Rightarrow> PrivateKey \<Rightarrow> (PublicKey, CryptoErr) result" where
  "derive_public sha secret = Ok (PublicKey (sha (private_bytes secret @ as_bytes '':derive:'')))"

definition sign :: "(bytes \<Rightarrow> bytes) \<Rightarrow> bytes \<Rightarrow> PrivateKey \<Rightarrow> (Signature, CryptoErr) result" where
  "sign sha canonical_bytes priv_key =
     (case derive_public sha priv_key of
        Err e \<Rightarrow> Err e
      | Ok pk \<Rightarrow> Ok (Signature (expected_sig_bytes sha pk canonical_bytes)))"

definition verify :: "(bytes \<Rightarrow> bytes) \<Rightarrow> bytes \<Rightarrow> Signature \<Rightarrow> PublicKey \<Rightarrow> (unit, CryptoErr) result" where
  "verify sha canonical_bytes sig pub_key =
     (let expected = expected_sig_bytes sha pub_key canonical_bytes
      in if ct_eq expected (sig_bytes sig) then Ok () else Err CryptoErr.VerificationFailed)"

section \<open>Comparison, signatures\<close>

lemma or_fold_zero:
  "foldl (\<lambda>acc i. acc OR f i) (c :: u8) is = 0 \<longleftrightarrow> c = 0 \<and> (\<forall>i \<in> set is. f i = 0)"
  by (induction "is" arbitrary: c) (auto simp: or_eq_0_iff)

lemma ct_eq_iff:
  assumes "length a = SIGNATURE_LEN" and "length b = SIGNATURE_LEN"
  shows "ct_eq a b \<longleftrightarrow> a = b"
  using assms by (auto simp: ct_eq_def or_fold_zero xor_eq_zero_iff list_eq_iff_nth_eq)

context digest
begin

lemma expected_sig_eq:
  "expected_sig_bytes H pk msg =
     H (public_bytes pk @ as_bytes '':sign:'' @ msg) @ H (H (public_bytes pk @ as_bytes '':sign:'' @ msg))"
  by (simp add: expected_sig_bytes_def Let_def copy_at_def SIGNATURE_LEN_def)

lemma length_expected_sig [simp]: "length (expected_sig_bytes H pk msg) = SIGNATURE_LEN"
  by (simp add: expected_sig_eq SIGNATURE_LEN_def)

lemma verify_iff:
  "length (sig_bytes sg) = SIGNATURE_LEN \<Longrightarrow>
   verify H msg sg pk = (if sig_bytes sg = expected_sig_bytes H pk msg then Ok ()
                          else Err CryptoErr.VerificationFailed)"
  by (auto simp: verify_def Let_def ct_eq_iff)

lemma sign_verify:
  "derive_public H sk = Ok pk \<Longrightarrow> sign H msg sk = Ok sg \<Longrightarrow> verify H msg sg pk = Ok ()"
  by (auto simp: sign_def verify_iff)

text \<open>A signature that verifies for two messages is a collision of the hash.\<close>

lemma verify_two_messages:
  assumes "length (sig_bytes sg) = SIGNATURE_LEN" and "verify H m sg pk = Ok ()" and "verify H m' sg pk = Ok ()"
    and "m \<noteq> m'"
  shows "\<exists>x y. x \<noteq> y \<and> H x = H y"
proof -
  have "expected_sig_bytes H pk m = expected_sig_bytes H pk m'"
    using assms(1-3) by (simp add: verify_iff split: if_splits)
  then have "take 32 (expected_sig_bytes H pk m) = take 32 (expected_sig_bytes H pk m')" by (rule arg_cong)
  then have "H (public_bytes pk @ as_bytes '':sign:'' @ m) = H (public_bytes pk @ as_bytes '':sign:'' @ m')"
    by (simp only: expected_sig_eq take_append length_H) simp
  then show ?thesis using assms(4)
    by (intro exI [of _ "public_bytes pk @ as_bytes '':sign:'' @ m"]
        exI [of _ "public_bytes pk @ as_bytes '':sign:'' @ m'"] conjI) simp_all
qed

end

section \<open>Canonical bytes\<close>

lemma canonical_envelope_inj:
  assumes "BAR \<notin> set ty" "BAR \<notin> set ty'" "BAR \<notin> set vb" "BAR \<notin> set vb'" "BAR \<notin> set idb" "BAR \<notin> set idb'"
    and "canonical_envelope_bytes f t ty vb idb ts p = Ok b"
    and "canonical_envelope_bytes f' t' ty' vb' idb' ts' p' = Ok b"
  shows "(f, t, ty, vb, idb, ts, p) = (f', t', ty', vb', idb', ts', p')"
proof -
  have eq: "be_bytes 8 f @ BAR # be_bytes 8 t @ BAR # ty @ BAR # vb @ BAR # idb @ BAR # be_bytes 8 ts @ BAR # p =
        be_bytes 8 f' @ BAR # be_bytes 8 t' @ BAR # ty' @ BAR # vb' @ BAR # idb' @ BAR # be_bytes 8 ts' @ BAR # p'"
    using assms(7,8) by (auto simp: canonical_envelope_bytes_def split: if_splits)
  then have "be_bytes 8 f = be_bytes 8 f'" "be_bytes 8 t = be_bytes 8 t'"
    and eq2: "ty @ BAR # vb @ BAR # idb @ BAR # be_bytes 8 ts @ BAR # p =
       ty' @ BAR # vb' @ BAR # idb' @ BAR # be_bytes 8 ts' @ BAR # p'"
    by simp_all
  moreover have "ty = ty'" and eq3: "vb @ BAR # idb @ BAR # be_bytes 8 ts @ BAR # p =
       vb' @ BAR # idb' @ BAR # be_bytes 8 ts' @ BAR # p'"
    using eq2 by (simp_all add: append_sep_eq assms(1,2))
  moreover have "vb = vb'" and eq4: "idb @ BAR # be_bytes 8 ts @ BAR # p = idb' @ BAR # be_bytes 8 ts' @ BAR # p'"
    using eq3 by (simp_all add: append_sep_eq assms(3,4))
  moreover have "idb = idb'" and "be_bytes 8 ts @ BAR # p = be_bytes 8 ts' @ BAR # p'"
    using eq4 by (simp_all add: append_sep_eq assms(5,6))
  then have "be_bytes 8 ts = be_bytes 8 ts'" "p = p'" by simp_all
  ultimately show ?thesis by (simp add: be_bytes_inj)
qed

section \<open>Properties\<close>

text \<open>C34: for any hash function with 32-byte digests, a signature made with a private key verifies
  under the derived public key; verification accepts a 64-byte signature exactly when it is the
  expected one (the constant-time comparison is equality), so for each public key and message one
  signature is accepted and every other is refused with \<open>VerificationFailed\<close>; and that signature is
  computable from the public key alone, without the private key.\<close>

theorem crypto_sign_verify:
  assumes "\<forall>m. length (sha m) = 32" and "derive_public sha sk = Ok pk" and "length s = SIGNATURE_LEN"
  shows "(\<exists>sg. sign sha msg sk = Ok sg \<and> verify sha msg sg pk = Ok () \<and>
            verify sha msg (Signature s) pk =
              (if Signature s = sg then Ok () else Err CryptoErr.VerificationFailed)) \<and>
         verify sha msg (Signature (expected_sig_bytes sha pk msg)) pk = Ok ()"
proof -
  have d: "digest sha" by (rule digest.intro) (simp add: assms(1))
  obtain sg where sg: "sign sha msg sk = Ok sg" and sgb: "sig_bytes sg = expected_sig_bytes sha pk msg"
    using assms(2) by (auto simp: sign_def)
  have len: "length (sig_bytes sg) = SIGNATURE_LEN" "length (sig_bytes (Signature s)) = SIGNATURE_LEN"
    using sgb assms(3) by (simp_all add: digest.length_expected_sig [OF d])
  have eq: "Signature s = sg \<longleftrightarrow> sig_bytes (Signature s) = expected_sig_bytes sha pk msg"
    using sgb by (cases sg) auto
  show ?thesis
    using sg digest.sign_verify [OF d assms(2) sg] digest.verify_iff [OF d len(2), of msg pk] eq
      digest.verify_iff [OF d, of "Signature (expected_sig_bytes sha pk msg)" msg pk]
    by (auto simp: digest.length_expected_sig [OF d])
qed

theorem crypto_sign_verify_witness:
  "\<exists>sg. sign sha256 [1, 2] (PrivateKey [9]) = Ok sg \<and>
     verify sha256 [1, 2] sg (PublicKey (sha256 (9 # as_bytes '':derive:''))) = Ok () \<and>
     verify sha256 [1, 2] (Signature (replicate 64 0)) (PublicKey (sha256 (9 # as_bytes '':derive:''))) =
       (if Signature (replicate 64 0) = sg then Ok () else Err CryptoErr.VerificationFailed)"
  using crypto_sign_verify [of sha256 "PrivateKey [9]" "PublicKey (sha256 (9 # as_bytes '':derive:''))"
      "replicate 64 0" "[1, 2]"]
  by (simp add: derive_public_def SIGNATURE_LEN_def)

text \<open>what the canonical bytes bind. Two envelopes whose type tag, verb and id contain no
  separator byte \<open>'|'\<close> have the same canonical bytes only if all their fields are equal; an empty type
  tag or id is refused.\<close>

theorem canonical_envelope_binding:
  assumes "BAR \<notin> set ty" "BAR \<notin> set ty'" "BAR \<notin> set vb" "BAR \<notin> set vb'" "BAR \<notin> set idb" "BAR \<notin> set idb'"
    and "ty \<noteq> []" and "idb \<noteq> []"
  shows "canonical_envelope_bytes f t ty vb idb ts p = canonical_envelope_bytes f' t' ty' vb' idb' ts' p' \<longleftrightarrow>
         (f, t, ty, vb, idb, ts, p) = (f', t', ty', vb', idb', ts', p')"
proof -
  obtain b where b: "canonical_envelope_bytes f t ty vb idb ts p = Ok b"
    using assms(7,8) by (simp add: canonical_envelope_bytes_def)
  show ?thesis
  proof
    assume "canonical_envelope_bytes f t ty vb idb ts p = canonical_envelope_bytes f' t' ty' vb' idb' ts' p'"
    then show "(f, t, ty, vb, idb, ts, p) = (f', t', ty', vb', idb', ts', p')"
      using canonical_envelope_inj [OF assms(1-6) b] b by simp
  qed simp
qed

theorem canonical_envelope_binding_witness:
  "canonical_envelope_bytes 1 2 [65] [] [66] 3 [] \<noteq> canonical_envelope_bytes 1 2 [65] [67] [66] 3 []"
  using canonical_envelope_binding [of "[65]" "[65]" "[]" "[67]" "[66]" "[66]" 1 2 3 "[]" 1 2 3 "[]"]
  by (simp add: BAR_def)

text \<open>without that restriction the canonical bytes do not determine the envelope: for any fields,
  moving the separator from the verb into the type tag gives two different envelopes with the same
  canonical bytes, hence with the same signature.\<close>

theorem canonical_envelope_ambiguous:
  assumes "ty \<noteq> []" and "idb \<noteq> []"
  shows "canonical_envelope_bytes f t (ty @ [BAR] @ x) y idb ts p = canonical_envelope_bytes f t ty (x @ [BAR] @ y) idb ts p \<and>
         (ty @ [BAR] @ x, y) \<noteq> (ty, x @ [BAR] @ y)"
  using assms by (simp add: canonical_envelope_bytes_def)

theorem canonical_envelope_ambiguous_witness:
  "canonical_envelope_bytes 1 2 (as_bytes ''A|B'') (as_bytes ''C'') [7] 3 [] =
   canonical_envelope_bytes 1 2 (as_bytes ''A'') (as_bytes ''B|C'') [7] 3 []"
  using canonical_envelope_ambiguous [of "as_bytes ''A''" "[7]" 1 2 "as_bytes ''B''" "as_bytes ''C''" 3 "[]"]
  by (simp add: as_bytes_def BAR_def)

end
