(* ===== verification/Cosign_Chain.thy ===== *)
theory Cosign_Chain
  imports Crypto Hash_Chain
begin

text \<open>
  The cosign chain \<^verbatim>\<open>kernel/core/src/cosign_chain/mod.rs\<close>: an append-only list of rows, each carrying the
  first eight bytes of the hash of its predecessor in hexadecimal, and the module-level append with
  its sequence counter. The hash is the parameter \<open>sha\<close>. The chain is an instance of the locale
  \<open>hash_chain\<close>.
\<close>

section \<open>Rows, errors and the chain\<close>

definition GENESIS_PREV_SHA16 :: string where "GENESIS_PREV_SHA16 = ''0000000000000000''"

datatype CosignChainErr =
  NonMonotonicRow | ChainLinkBroken | SignatureInvalid | KindMalformed | Unimplemented

record CosignRow =
  row :: u64
  ts_ns :: u64
  prev_sha16 :: string
  kind :: string
  payload_sha16 :: string
  sig :: Signature

record CosignChain =
  head_sha16 :: string
  next_row :: u64
  rows :: "CosignRow list"

section \<open>Operations\<close>

definition canonical_bytes_of_row :: "CosignRow \<Rightarrow> string" where
  "canonical_bytes_of_row r =
     ''row='' @ decimal (unat (row r)) @ ''|ts='' @ decimal (unat (ts_ns r)) @ ''|prev='' @ prev_sha16 r @
     ''|kind='' @ kind r @ ''|payload='' @ payload_sha16 r"

definition sha16_of :: "(bytes \<Rightarrow> bytes) \<Rightarrow> bytes \<Rightarrow> string" where
  "sha16_of sha bs =
     concat (map (\<lambda>b. [HEX ! unat (drop_bit 4 b), HEX ! unat (b AND 0xf)]) (take 8 (sha bs)))"

definition chain_new :: CosignChain where
  "chain_new = \<lparr>head_sha16 = GENESIS_PREV_SHA16, next_row = 1, rows = []\<rparr>"

definition depth :: "CosignChain \<Rightarrow> u64" where
  "depth c = word_of_nat (length (rows c))"

definition chain_append ::
    "(bytes \<Rightarrow> bytes) \<Rightarrow> CosignRow \<Rightarrow> CosignChain \<Rightarrow> (unit, CosignChainErr) result \<times> CosignChain" where
  "chain_append sha r c =
     (if row r \<noteq> next_row c then (Err CosignChainErr.NonMonotonicRow, c)
      else if prev_sha16 r \<noteq> head_sha16 c then (Err CosignChainErr.ChainLinkBroken, c)
      else if kind r = [] then (Err CosignChainErr.KindMalformed, c)
      else let canon = canonical_bytes_of_row r;
               new_head = sha16_of sha (as_bytes canon)
           in (Ok (), c\<lparr>rows := rows c @ [r], head_sha16 := new_head, next_row := next_row c + 1\<rparr>))"

text \<open>The loop of \<open>validate_end_to_end\<close>, at position \<open>i\<close> with the link expected there.\<close>

fun validate_rows ::
    "(bytes \<Rightarrow> bytes) \<Rightarrow> nat \<Rightarrow> string \<Rightarrow> CosignRow list \<Rightarrow> (unit, CosignChainErr) result" where
  "validate_rows sha i expected_prev [] = Ok ()"
| "validate_rows sha i expected_prev (r # rs) =
     (let expected_row_num = word_of_nat i + 1
      in if row r \<noteq> expected_row_num then Err CosignChainErr.NonMonotonicRow
         else if prev_sha16 r \<noteq> expected_prev then Err CosignChainErr.ChainLinkBroken
         else if kind r = [] then Err CosignChainErr.KindMalformed
         else validate_rows sha (i + 1) (sha16_of sha (as_bytes (canonical_bytes_of_row r))) rs)"

definition validate_end_to_end :: "(bytes \<Rightarrow> bytes) \<Rightarrow> CosignChain \<Rightarrow> (unit, CosignChainErr) result" where
  "validate_end_to_end sha c = validate_rows sha 0 GENESIS_PREV_SHA16 (rows c)"

text \<open>The module-level \<open>append\<close>: the digest is computed and dropped, the counter returned.\<close>

definition append_seq :: "(bytes \<Rightarrow> bytes) \<Rightarrow> bytes \<Rightarrow> u64 \<Rightarrow> (u64, CosignChainErr) result \<times> u64" where
  "append_seq sha rw counter =
     (if rw = [] then (Err CosignChainErr.KindMalformed, counter)
      else let _ = sha rw; prev = counter; counter = counter + 1
           in (Ok (prev + 1), counter))"

text \<open>The chains the program can build: empty, or one more append attempt.\<close>

inductive chain_reachable :: "(bytes \<Rightarrow> bytes) \<Rightarrow> CosignChain \<Rightarrow> bool" for sha where
  new: "chain_reachable sha chain_new"
| append: "chain_reachable sha c \<Longrightarrow> chain_append sha r c = (res, c') \<Longrightarrow> chain_reachable sha c'"

section \<open>What the canonical bytes of a row bind\<close>

lemma bar_not_digit: "CHR ''|'' \<notin> set (decimal n)"
  using decimal_digits [of "CHR ''|''" n] by (auto simp: is_ascii_digit_def byte_of_def)

lemma bar_not_hex: "CHR ''|'' \<notin> set (hex_bytes bs)"
  using hex_bytes_lower [of "CHR ''|''" bs] by (auto simp: HEX_def)

lemma sha16_of_hex: "sha16_of sha bs = hex_bytes (take 8 (sha bs))"
proof -
  have "(\<lambda>b. [HEX ! unat (drop_bit 4 b), HEX ! unat (b AND 0xf)]) = hex_byte"
    by (rule ext) (simp add: hex_byte_def)
  then show ?thesis by (simp add: sha16_of_def hex_bytes_def)
qed

text \<open>A link as the chain produces it: it contains no separator.\<close>

definition link_ok :: "string \<Rightarrow> bool" where
  "link_ok s \<longleftrightarrow> CHR ''|'' \<notin> set s"

lemma link_ok_sha16: "link_ok (sha16_of sha bs)"
  by (simp add: link_ok_def sha16_of_hex bar_not_hex)

lemma link_ok_genesis: "link_ok GENESIS_PREV_SHA16"
  by (simp add: link_ok_def GENESIS_PREV_SHA16_def)

lemma canonical_bytes_cut:
  assumes "link_ok (prev_sha16 r)" and "link_ok (prev_sha16 r')"
    and "canonical_bytes_of_row r = canonical_bytes_of_row r'"
  shows "row r = row r' \<and> ts_ns r = ts_ns r' \<and> prev_sha16 r = prev_sha16 r' \<and>
         kind r @ ''|payload='' @ payload_sha16 r = kind r' @ ''|payload='' @ payload_sha16 r'"
proof -
  note bars = bar_not_digit append_sep_eq
  from assms(3) have "decimal (unat (row r)) @ CHR ''|'' # ''ts='' @ decimal (unat (ts_ns r)) @ CHR ''|'' # ''prev='' @
       prev_sha16 r @ CHR ''|'' # ''kind='' @ kind r @ ''|payload='' @ payload_sha16 r =
     decimal (unat (row r')) @ CHR ''|'' # ''ts='' @ decimal (unat (ts_ns r')) @ CHR ''|'' # ''prev='' @
       prev_sha16 r' @ CHR ''|'' # ''kind='' @ kind r' @ ''|payload='' @ payload_sha16 r'"
    by (simp add: canonical_bytes_of_row_def)
  then have "decimal (unat (row r)) = decimal (unat (row r'))"
    and "decimal (unat (ts_ns r)) @ CHR ''|'' # ''prev='' @
       prev_sha16 r @ CHR ''|'' # ''kind='' @ kind r @ ''|payload='' @ payload_sha16 r =
       decimal (unat (ts_ns r')) @ CHR ''|'' # ''prev='' @
       prev_sha16 r' @ CHR ''|'' # ''kind='' @ kind r' @ ''|payload='' @ payload_sha16 r'"
    by (simp_all add: bars)
  moreover from this(2) have "decimal (unat (ts_ns r)) = decimal (unat (ts_ns r'))"
    and "prev_sha16 r @ CHR ''|'' # ''kind='' @ kind r @ ''|payload='' @ payload_sha16 r =
       prev_sha16 r' @ CHR ''|'' # ''kind='' @ kind r' @ ''|payload='' @ payload_sha16 r'"
    by (simp_all add: bars)
  moreover from this(2) have "prev_sha16 r = prev_sha16 r'"
    and "kind r @ ''|payload='' @ payload_sha16 r = kind r' @ ''|payload='' @ payload_sha16 r'"
    using assms(1,2) by (simp_all add: append_sep_eq link_ok_def)
  ultimately show ?thesis by (auto dest!: decimal_inj simp: word_unat_eq_iff)
qed

text \<open>All fields but the signature, when the kind contains no separator.\<close>

definition row_fields :: "CosignRow \<Rightarrow> u64 \<times> u64 \<times> string \<times> string \<times> string" where
  "row_fields r = (row r, ts_ns r, prev_sha16 r, kind r, payload_sha16 r)"

lemma canonical_bytes_inj:
  assumes "link_ok (prev_sha16 r)" and "link_ok (prev_sha16 r')" and "CHR ''|'' \<notin> set (kind r)"
    and "CHR ''|'' \<notin> set (kind r')" and "canonical_bytes_of_row r = canonical_bytes_of_row r'"
  shows "row_fields r = row_fields r'"
proof -
  note cut = canonical_bytes_cut [OF assms(1,2,5)]
  then have "kind r @ CHR ''|'' # ''payload='' @ payload_sha16 r = kind r' @ CHR ''|'' # ''payload='' @ payload_sha16 r'"
    by simp
  then show ?thesis using cut assms(3,4) by (simp add: append_sep_eq row_fields_def)
qed

section \<open>The chain as a hash chain\<close>

interpretation cosign: hash_chain "\<lambda>c. sha16_of sha (as_bytes c)" canonical_bytes_of_row prev_sha16
    GENESIS_PREV_SHA16 link_ok "\<lambda>_. True" for sha
proof
  fix r r' b
  show "link_ok (prev_sha16 r) \<Longrightarrow> link_ok (prev_sha16 r') \<Longrightarrow>
      canonical_bytes_of_row r = canonical_bytes_of_row r' \<Longrightarrow> prev_sha16 r = prev_sha16 r'"
    using canonical_bytes_cut by blast
  show "link_ok (sha16_of sha (as_bytes b))" by (rule link_ok_sha16)
  show "link_ok GENESIS_PREV_SHA16" by (rule link_ok_genesis)
qed

lemma linked_links_ok:
  "cosign.linked_from sha p rs \<Longrightarrow> link_ok p \<Longrightarrow> i < length rs \<Longrightarrow> link_ok (prev_sha16 (rs ! i))"
proof (induction rs arbitrary: p i)
  case (Cons r rs)
  then show ?case by (cases i) (auto intro: link_ok_sha16)
qed simp

lemmas linked_link_ok = linked_links_ok [OF _ link_ok_genesis]

text \<open>Numbering and kinds, the part of the validation that is not linking.\<close>

definition numbered_from :: "nat \<Rightarrow> CosignRow list \<Rightarrow> bool" where
  "numbered_from i rs \<longleftrightarrow>
     (\<forall>k < length rs. row (rs ! k) = word_of_nat (i + k) + 1 \<and> kind (rs ! k) \<noteq> [])"

lemma numbered_Cons:
  "numbered_from i (r # rs) \<longleftrightarrow> row r = word_of_nat i + 1 \<and> kind r \<noteq> [] \<and> numbered_from (i + 1) rs"
  by (auto simp: numbered_from_def nth_Cons less_Suc_eq_0_disj split: nat.splits)

lemma numbered_snoc:
  "numbered_from i (rs @ [r]) \<longleftrightarrow>
     numbered_from i rs \<and> row r = word_of_nat (i + length rs) + 1 \<and> kind r \<noteq> []"
  by (auto simp: numbered_from_def nth_append less_Suc_eq)

lemma validate_rows_iff:
  "validate_rows sha i p rs = Ok () \<longleftrightarrow> cosign.linked_from sha p rs \<and> numbered_from i rs"
proof (induction rs arbitrary: i p)
  case Nil
  then show ?case by (simp add: numbered_from_def)
next
  case (Cons r rs)
  then show ?case by (auto simp: numbered_Cons Let_def)
qed

lemma validate_iff:
  "validate_end_to_end sha c = Ok () \<longleftrightarrow>
     cosign.linked_from sha GENESIS_PREV_SHA16 (rows c) \<and> numbered_from 0 (rows c)"
  by (simp add: validate_end_to_end_def validate_rows_iff)

definition chain_inv :: "(bytes \<Rightarrow> bytes) \<Rightarrow> CosignChain \<Rightarrow> bool" where
  "chain_inv sha c \<longleftrightarrow> validate_end_to_end sha c = Ok () \<and>
     head_sha16 c = cosign.head_from sha GENESIS_PREV_SHA16 (rows c) \<and>
     next_row c = word_of_nat (length (rows c)) + 1"

lemma chain_inv_new: "chain_inv sha chain_new"
  by (simp add: chain_inv_def chain_new_def validate_end_to_end_def)

lemma chain_append_cases:
  obtains (number) "row r \<noteq> next_row c" "chain_append sha r c = (Err CosignChainErr.NonMonotonicRow, c)"
  | (link) "row r = next_row c" "prev_sha16 r \<noteq> head_sha16 c"
      "chain_append sha r c = (Err CosignChainErr.ChainLinkBroken, c)"
  | (kind) "row r = next_row c" "prev_sha16 r = head_sha16 c" "kind r = []"
      "chain_append sha r c = (Err CosignChainErr.KindMalformed, c)"
  | (ok) "row r = next_row c" "prev_sha16 r = head_sha16 c" "kind r \<noteq> []"
      "chain_append sha r c = (Ok (), c\<lparr>rows := rows c @ [r],
         head_sha16 := sha16_of sha (as_bytes (canonical_bytes_of_row r)), next_row := next_row c + 1\<rparr>)"
  by (cases "row r = next_row c"; cases "prev_sha16 r = head_sha16 c"; cases "kind r = []")
    (auto simp: chain_append_def Let_def)

lemma chain_inv_append:
  assumes "chain_inv sha c" and "chain_append sha r c = (res, c')"
  shows "chain_inv sha c'"
proof (cases rule: chain_append_cases [of r c sha])
  case ok
  then show ?thesis using assms by (auto simp: chain_inv_def validate_iff numbered_snoc)
qed (use assms in auto)

lemma chain_reachable_inv: "chain_reachable sha c \<Longrightarrow> chain_inv sha c"
  by (induction rule: chain_reachable.induct) (auto intro: chain_inv_new chain_inv_append)

section \<open>Properties\<close>


definition demo_row :: CosignRow where
  "demo_row = \<lparr>row = 1, ts_ns = 5, prev_sha16 = GENESIS_PREV_SHA16, kind = ''HOOKWALL'',
     payload_sha16 = ''00ff00ff00ff00ff'', sig = Signature []\<rparr>"

definition demo_chain :: CosignChain where
  "demo_chain = snd (chain_append sha256 demo_row chain_new)"

lemma demo_chain_reachable: "chain_reachable sha256 demo_chain"
  unfolding demo_chain_def by (rule chain_reachable.append [OF chain_reachable.new, where res = "fst (chain_append sha256 demo_row chain_new)" and r = demo_row]) simp

lemma demo_chain_rows: "rows demo_chain = [demo_row]"
  by (simp add: demo_chain_def chain_append_def demo_row_def chain_new_def Let_def)


text \<open>C17: tamper evidence. Two chains of the same depth that validate and have the same head row hash
  agree on every field of every row (signatures apart, and for kinds without a separator), or they
  exhibit two different canonical row texts with the same 16-digit hash.\<close>

theorem cosign_tamper_evident:
  assumes "validate_end_to_end sha c = Ok ()" and "validate_end_to_end sha c' = Ok ()"
    and "length (rows c) = length (rows c')"
    and "rows c \<noteq> [] \<longrightarrow> sha16_of sha (as_bytes (canonical_bytes_of_row (last (rows c)))) =
                       sha16_of sha (as_bytes (canonical_bytes_of_row (last (rows c'))))"
    and "list_all (\<lambda>r. CHR ''|'' \<notin> set (kind r)) (rows c @ rows c')"
  shows "map row_fields (rows c) = map row_fields (rows c') \<or>
         (\<exists>x \<in> set (rows c). \<exists>y \<in> set (rows c').
            canonical_bytes_of_row x \<noteq> canonical_bytes_of_row y \<and>
            sha16_of sha (as_bytes (canonical_bytes_of_row x)) = sha16_of sha (as_bytes (canonical_bytes_of_row y)))"
proof -
  have l: "cosign.linked_from sha GENESIS_PREV_SHA16 (rows c)" "cosign.linked_from sha GENESIS_PREV_SHA16 (rows c')"
    using assms(1,2) by (simp_all add: validate_iff)
  have "cosign.head_from sha GENESIS_PREV_SHA16 (rows c) = cosign.head_from sha GENESIS_PREV_SHA16 (rows c')"
    using assms(3,4) by (cases "rows c" rule: rev_cases; cases "rows c'" rule: rev_cases) auto
  then consider "map canonical_bytes_of_row (rows c) = map canonical_bytes_of_row (rows c')"
    | "cosign.collision_in sha (rows c) (rows c')"
    using cosign.head_commits [OF assms(3) l] by (auto simp: list_all_iff)
  then show ?thesis
  proof cases
    case 1
    have "row_fields (rows c ! i) = row_fields (rows c' ! i)" if "i < length (rows c)" for i
    proof (rule canonical_bytes_inj)
      show "canonical_bytes_of_row (rows c ! i) = canonical_bytes_of_row (rows c' ! i)"
        using 1 that assms(3) by (metis nth_map)
      show "CHR ''|'' \<notin> set (kind (rows c ! i))" "CHR ''|'' \<notin> set (kind (rows c' ! i))"
        using assms(3,5) that by (auto simp: list_all_iff)
      show "link_ok (prev_sha16 (rows c ! i))" "link_ok (prev_sha16 (rows c' ! i))"
        using that assms(3) l by (auto intro: linked_link_ok)
    qed
    then show ?thesis using assms(3) by (auto intro: nth_equalityI)
  next
    case 2
    then show ?thesis by (auto simp: cosign.collision_in_def)
  qed
qed

theorem cosign_tamper_evident_witness:
  "validate_end_to_end sha256 demo_chain = Ok () \<and>
   (map row_fields (rows demo_chain) = map row_fields (rows demo_chain) \<or>
         (\<exists>x \<in> set (rows demo_chain). \<exists>y \<in> set (rows demo_chain).
            canonical_bytes_of_row x \<noteq> canonical_bytes_of_row y \<and>
            sha16_of sha256 (as_bytes (canonical_bytes_of_row x)) = sha16_of sha256 (as_bytes (canonical_bytes_of_row y))))"
proof -
  have v: "validate_end_to_end sha256 demo_chain = Ok ()"
    using chain_reachable_inv [OF demo_chain_reachable] by (simp add: chain_inv_def)
  show ?thesis
    using cosign_tamper_evident [OF v v] v by (simp add: demo_chain_rows demo_row_def)
qed

text \<open>what validation does not see. A chain that validates still validates when rows are cut off its
  end, and when the time, kind, payload hash and signature of its last row are replaced by any others
  with a non-empty kind, because no successor pins the last row and the stored head is not compared.\<close>

theorem cosign_tail_unprotected:
  assumes "validate_end_to_end sha c = Ok ()" and "rows c = init @ [r]" and "k \<noteq> []"
  shows "validate_end_to_end sha (c\<lparr>rows := take n (rows c)\<rparr>) = Ok () \<and>
         validate_end_to_end sha
           (c\<lparr>rows := init @ [r\<lparr>ts_ns := t, kind := k, payload_sha16 := p, sig := g\<rparr>]\<rparr>) = Ok ()"
proof
  have v: "cosign.linked_from sha GENESIS_PREV_SHA16 (rows c)" "numbered_from 0 (rows c)"
    using assms(1) by (simp_all add: validate_iff)
  have "cosign.linked_from sha GENESIS_PREV_SHA16 (take n (rows c))"
    using v(1) append_take_drop_id [of n "rows c"] cosign.linked_append by metis
  moreover have "numbered_from 0 (take n (rows c))" using v(2) by (simp add: numbered_from_def)
  ultimately show "validate_end_to_end sha (c\<lparr>rows := take n (rows c)\<rparr>) = Ok ()"
    by (simp add: validate_iff)
  show "validate_end_to_end sha
           (c\<lparr>rows := init @ [r\<lparr>ts_ns := t, kind := k, payload_sha16 := p, sig := g\<rparr>]\<rparr>) = Ok ()"
    using v assms(2,3) by (simp add: validate_iff numbered_snoc)
qed

theorem cosign_tail_unprotected_witness:
  "validate_end_to_end sha256 (demo_chain\<lparr>rows := [demo_row\<lparr>ts_ns := 0, kind := ''FORGED'', payload_sha16 := ''beef'',
      sig := Signature [1]\<rparr>]\<rparr>) = Ok ()"
proof -
  have v: "validate_end_to_end sha256 demo_chain = Ok ()"
    using chain_reachable_inv [OF demo_chain_reachable] by (simp add: chain_inv_def)
  show ?thesis
    using cosign_tail_unprotected [OF v, where init = "[]" and r = demo_row and k = "''FORGED''" and t = 0 and n = 0
        and p = "''beef''" and g = "Signature [1]"]
    by (simp add: demo_chain_rows)
qed

text \<open>the row text is not escaped, so a kind that contains the separator is ambiguous: for any row
  and any texts, moving the separator from the payload hash into the kind gives a different row with
  the same canonical bytes, hence the same hash for any hash function.\<close>

theorem cosign_row_ambiguous:
  "canonical_bytes_of_row (r\<lparr>kind := k @ ''|payload='' @ x, payload_sha16 := y\<rparr>) =
   canonical_bytes_of_row (r\<lparr>kind := k, payload_sha16 := x @ ''|payload='' @ y\<rparr>) \<and>
   r\<lparr>kind := k @ ''|payload='' @ x, payload_sha16 := y\<rparr> \<noteq> r\<lparr>kind := k, payload_sha16 := x @ ''|payload='' @ y\<rparr>"
proof
  have "kind (r\<lparr>kind := k @ ''|payload='' @ x, payload_sha16 := y\<rparr>) \<noteq>
        kind (r\<lparr>kind := k, payload_sha16 := x @ ''|payload='' @ y\<rparr>)" by simp
  then show "r\<lparr>kind := k @ ''|payload='' @ x, payload_sha16 := y\<rparr> \<noteq>
        r\<lparr>kind := k, payload_sha16 := x @ ''|payload='' @ y\<rparr>" by metis
qed (simp add: canonical_bytes_of_row_def)

end
