(* ===== verification/Reflection_Room.thy ===== *)
theory Reflection_Room
  imports Sha256 Hash_Chain
begin

text \<open>
  The reflection room \<^verbatim>\<open>kernel/core/src/reflection_room/mod.rs\<close>: a single-writer log of committed event
  envelopes with two-phase commit (\<open>prepare\<close>, \<open>commit\<close>), an active window of 2000 events that is sealed
  into gulps, and the novelty gate. The hash is the parameter \<open>sha\<close>. Arrays of fixed size are byte
  lists; \<open>wf_draft\<close> and \<open>wf_event\<close> state the sizes that their Rust types guarantee. Fields that two
  structures share are prefixed in the second.
\<close>

section \<open>Constants and data\<close>

definition ACTIVE_ENVELOPE_WINDOW :: u32 where "ACTIVE_ENVELOPE_WINDOW = 2000"
definition GULPS_PER_CHECKPOINT :: u32 where "GULPS_PER_CHECKPOINT = 5"
definition CHECKPOINTS_PER_SUPER_GULP :: u32 where "CHECKPOINTS_PER_SUPER_GULP = 5"
definition CHECKPOINT_ENVELOPES :: u32 where
  "CHECKPOINT_ENVELOPES = ACTIVE_ENVELOPE_WINDOW * GULPS_PER_CHECKPOINT"
definition SUPER_GULP_ENVELOPES :: u32 where
  "SUPER_GULP_ENVELOPES = CHECKPOINT_ENVELOPES * CHECKPOINTS_PER_SUPER_GULP"
definition MIN_SELECTOR_DIMS :: u16 where "MIN_SELECTOR_DIMS = 60"
definition GENESIS_SHA256 :: bytes where "GENESIS_SHA256 = replicate 32 0"

lemmas room_consts = ACTIVE_ENVELOPE_WINDOW_def GULPS_PER_CHECKPOINT_def CHECKPOINTS_PER_SUPER_GULP_def
  MIN_SELECTOR_DIMS_def

datatype RoomEventKind =
    TaskIn | WorkNote | ToolResult | TranslatedNote | SelfReflection | PeerReview
  | SupervisorControl | FinalResult

fun kind_code :: "RoomEventKind \<Rightarrow> u8" where
  "kind_code TaskIn = 1"
| "kind_code WorkNote = 2"
| "kind_code ToolResult = 3"
| "kind_code TranslatedNote = 4"
| "kind_code SelfReflection = 5"
| "kind_code PeerReview = 6"
| "kind_code SupervisorControl = 7"
| "kind_code FinalResult = 8"

definition requires_parent :: "RoomEventKind \<Rightarrow> bool" where
  "requires_parent k = (k \<in> {TranslatedNote, SelfReflection, PeerReview, FinalResult})"

datatype AuthorityState = Unverified | Measured | Canon | Held

fun authority_code :: "AuthorityState \<Rightarrow> u8" where
  "authority_code Unverified = 0"
| "authority_code Measured = 1"
| "authority_code Canon = 2"
| "authority_code Held = 3"

datatype RecallAccessLevel = Public | Federation | OwnerPrivate

fun access_code :: "RecallAccessLevel \<Rightarrow> u8" where
  "access_code Public = 0"
| "access_code Federation = 5"
| "access_code OwnerPrivate = 9"

datatype PiiState = NoPii | KeyedConsented | UnknownPii

fun pii_code :: "PiiState \<Rightarrow> u8" where
  "pii_code NoPii = 0"
| "pii_code KeyedConsented = 1"
| "pii_code UnknownPii = 2"

record BodyRef =
  body_offset :: u64
  body_length :: u32
  body_sha256 :: bytes

record EventDraft =
  event_kind :: RoomEventKind
  source_handle8 :: bytes
  source_pid_sha256 :: bytes
  target_handle8 :: bytes
  target_pid_sha256 :: bytes
  verb_sha256 :: bytes
  timestamp_ns :: u64
  parent_sha256 :: bytes
  body :: BodyRef
  selector_dims :: u16
  selector_tuple_sha256 :: bytes
  authority :: AuthorityState
  access_level :: RecallAccessLevel
  pii_state :: PiiState
  owner_pid_sha256 :: bytes
  idempotency_key :: bytes

record CommittedEvent =
  sequence :: u64
  event_room_handle8 :: bytes
  event_room_id_sha256 :: bytes
  previous_sha256 :: bytes
  full_sha256 :: bytes
  draft :: EventDraft

text \<open>\<open>PreparedEvent\<close> is a private wrapper that only \<open>prepare\<close> builds.\<close>

datatype PreparedEvent = PreparedEvent (event: CommittedEvent)

record RoomHead =
  head_room_handle8 :: bytes
  head_room_id_sha256 :: bytes
  head_next_sequence :: u64
  head_head_sha256 :: bytes
  active_events :: u32
  head_total_events :: u64
  head_total_gulps :: u64
  total_checkpoints :: u64
  total_super_gulps :: u64

datatype CommitOutcome = Committed CommittedEvent | Duplicate CommittedEvent

datatype GulpTier = Gulp2k | Checkpoint10k | SuperGulp50k

fun tier_code :: "GulpTier \<Rightarrow> u8" where
  "tier_code Gulp2k = 1"
| "tier_code Checkpoint10k = 2"
| "tier_code SuperGulp50k = 3"

record GulpSeal =
  tier :: GulpTier
  sealed_events :: u32
  cumulative_events :: u64
  gulp_index :: u64
  checkpoint_index :: u64
  super_gulp_index :: u64
  room_head_sha256 :: bytes
  distilled_product_sha256 :: bytes
  seal_sha256 :: bytes

datatype RoomError =
    RoomIdentityMissing | BodyMissing | BodyHashMissing | IdempotencyKeyMissing | SelectorTupleMissing
  | SelectorDimsTooSmall u16 | PiiRequiresOwnerPrivate | OwnerIdentityMissing | ParentMissing
  | ParentNotCommitted | ActiveWindowFull | StalePreparedEvent | SequenceOverflow
  | GulpNotReady u32 | DistilledProductMissing

record RoomWriter =
  room_handle8 :: bytes
  room_id_sha256 :: bytes
  next_sequence :: u64
  head_sha256 :: bytes
  recent :: "CommittedEvent list"
  total_events :: u64
  total_gulps :: u64

section \<open>Hashes\<close>

definition is_zero_sha :: "bytes \<Rightarrow> bool" where
  "is_zero_sha value = list_all (\<lambda>b. b = 0) value"

lemma is_zero_sha_replicate [simp]: "is_zero_sha (replicate n x @ ys) \<longleftrightarrow> (n = 0 \<or> x = 0) \<and> is_zero_sha ys"
  "is_zero_sha (replicate n x) \<longleftrightarrow> n = 0 \<or> x = 0"
  by (induction n) (auto simp: is_zero_sha_def)

definition event_bytes :: "bytes \<Rightarrow> bytes \<Rightarrow> u64 \<Rightarrow> bytes \<Rightarrow> EventDraft \<Rightarrow> bytes" where
  "event_bytes room_id handle seq previous d =
     as_bytes ''ASOLARIA-REFLECTION-ROOM-EVENT-V1'' @ room_id @ handle @ be_bytes 8 seq @ previous @
     [kind_code (event_kind d)] @ source_handle8 d @ source_pid_sha256 d @ target_handle8 d @
     target_pid_sha256 d @ verb_sha256 d @ be_bytes 8 (timestamp_ns d) @ parent_sha256 d @
     be_bytes 8 (body_offset (body d)) @ be_bytes 4 (body_length (body d)) @ body_sha256 (body d) @
     be_bytes 2 (selector_dims d) @ selector_tuple_sha256 d @ [authority_code (authority d)] @
     [access_code (access_level d)] @ [pii_code (pii_state d)] @ owner_pid_sha256 d @ idempotency_key d"

definition event_sha256 ::
    "(bytes \<Rightarrow> bytes) \<Rightarrow> bytes \<Rightarrow> bytes \<Rightarrow> u64 \<Rightarrow> bytes \<Rightarrow> EventDraft \<Rightarrow> bytes" where
  "event_sha256 sha room_id handle seq previous d = sha (event_bytes room_id handle seq previous d)"

definition gulp_seal_sha256 ::
    "(bytes \<Rightarrow> bytes) \<Rightarrow> bytes \<Rightarrow> bytes \<Rightarrow> u64 \<Rightarrow> u64 \<Rightarrow> GulpTier \<Rightarrow> bytes \<Rightarrow> bytes" where
  "gulp_seal_sha256 sha room_id head tot gulp t product =
     sha (as_bytes ''ASOLARIA-REFLECTION-ROOM-GULP-SEAL-V1'' @ room_id @ head @ be_bytes 8 tot @
          be_bytes 8 gulp @ [tier_code t] @ product)"

section \<open>The room writer\<close>

definition room_new :: "bytes \<Rightarrow> bytes \<Rightarrow> (RoomWriter, RoomError) result" where
  "room_new handle room_id =
     (if is_zero_sha room_id then Err RoomIdentityMissing
      else Ok \<lparr>room_handle8 = handle, room_id_sha256 = room_id, next_sequence = 1,
               head_sha256 = GENESIS_SHA256, recent = [], total_events = 0, total_gulps = 0\<rparr>)"

definition read_committed_head :: "RoomWriter \<Rightarrow> RoomHead" where
  "read_committed_head w =
     \<lparr>head_room_handle8 = room_handle8 w, head_room_id_sha256 = room_id_sha256 w,
      head_next_sequence = next_sequence w, head_head_sha256 = head_sha256 w,
      active_events = word_of_nat (length (recent w)), head_total_events = total_events w,
      head_total_gulps = total_gulps w,
      total_checkpoints = total_gulps w div ucast GULPS_PER_CHECKPOINT,
      total_super_gulps = total_gulps w div ucast (GULPS_PER_CHECKPOINT * CHECKPOINTS_PER_SUPER_GULP)\<rparr>"

definition validate_draft :: "RoomWriter \<Rightarrow> EventDraft \<Rightarrow> (unit, RoomError) result" where
  "validate_draft w d =
     (if body_length (body d) = 0 then Err BodyMissing
      else if is_zero_sha (body_sha256 (body d)) then Err BodyHashMissing
      else if is_zero_sha (idempotency_key d) then Err IdempotencyKeyMissing
      else if is_zero_sha (selector_tuple_sha256 d) then Err SelectorTupleMissing
      else if selector_dims d < MIN_SELECTOR_DIMS then Err (SelectorDimsTooSmall (selector_dims d))
      else if access_level d \<noteq> OwnerPrivate \<and> pii_state d \<noteq> NoPii then Err PiiRequiresOwnerPrivate
      else if access_level d = OwnerPrivate \<and> is_zero_sha (owner_pid_sha256 d) then Err OwnerIdentityMissing
      else if requires_parent (event_kind d) then
        if is_zero_sha (parent_sha256 d) then Err ParentMissing
        else if \<not> (parent_sha256 d = head_sha256 w \<or>
                   list_ex (\<lambda>e. full_sha256 e = parent_sha256 d) (recent w)) then Err ParentNotCommitted
        else Ok ()
      else Ok ())"

definition prepare :: "(bytes \<Rightarrow> bytes) \<Rightarrow> RoomWriter \<Rightarrow> EventDraft \<Rightarrow> (PreparedEvent, RoomError) result" where
  "prepare sha w d =
     (case validate_draft w d of
        Err e \<Rightarrow> Err e
      | Ok _ \<Rightarrow>
          let duplicate = list_ex (\<lambda>e. idempotency_key (draft e) = idempotency_key d) (recent w)
          in if length (recent w) \<ge> unat ACTIVE_ENVELOPE_WINDOW \<and> \<not> duplicate then Err ActiveWindowFull
             else case checked_add (next_sequence w) 0 of
                    None \<Rightarrow> Err SequenceOverflow
                  | Some seq \<Rightarrow>
                      if seq = - 1 then Err SequenceOverflow
                      else Ok (PreparedEvent
                        \<lparr>sequence = seq, event_room_handle8 = room_handle8 w,
                         event_room_id_sha256 = room_id_sha256 w, previous_sha256 = head_sha256 w,
                         full_sha256 = event_sha256 sha (room_id_sha256 w) (room_handle8 w) seq (head_sha256 w) d,
                         draft = d\<rparr>))"

text \<open>The overflow exits come after the event is in the window, as in the code.\<close>

definition commit :: "PreparedEvent \<Rightarrow> RoomWriter \<Rightarrow> (CommitOutcome, RoomError) result \<times> RoomWriter" where
  "commit prepared w =
     (case find (\<lambda>e. idempotency_key (draft e) = idempotency_key (draft (event prepared))) (recent w) of
        Some existing \<Rightarrow> (Ok (Duplicate existing), w)
      | None \<Rightarrow>
          if length (recent w) \<ge> unat ACTIVE_ENVELOPE_WINDOW then (Err ActiveWindowFull, w)
          else if sequence (event prepared) \<noteq> next_sequence w \<or> previous_sha256 (event prepared) \<noteq> head_sha256 w
          then (Err StalePreparedEvent, w)
          else let committed = event prepared;
                   w = w\<lparr>recent := recent w @ [committed]\<rparr>;
                   w = w\<lparr>head_sha256 := full_sha256 committed\<rparr>
               in case checked_add (next_sequence w) 1 of
                    None \<Rightarrow> (Err SequenceOverflow, w)
                  | Some ns \<Rightarrow>
                      let w = w\<lparr>next_sequence := ns\<rparr>
                      in case checked_add (total_events w) 1 of
                           None \<Rightarrow> (Err SequenceOverflow, w)
                         | Some te \<Rightarrow> (Ok (Committed committed), w\<lparr>total_events := te\<rparr>))"

definition seal_gulp :: "(bytes \<Rightarrow> bytes) \<Rightarrow> bytes \<Rightarrow> RoomWriter \<Rightarrow> (GulpSeal, RoomError) result \<times> RoomWriter" where
  "seal_gulp sha product w =
     (let active = word_of_nat (length (recent w))
      in if active \<noteq> ACTIVE_ENVELOPE_WINDOW then (Err (GulpNotReady active), w)
         else if is_zero_sha product then (Err DistilledProductMissing, w)
         else case checked_add (total_gulps w) 1 of
                None \<Rightarrow> (Err SequenceOverflow, w)
              | Some g \<Rightarrow>
                  let checkpoint = g div ucast GULPS_PER_CHECKPOINT;
                      super_divisor = ucast (GULPS_PER_CHECKPOINT * CHECKPOINTS_PER_SUPER_GULP);
                      super_index = g div super_divisor;
                      t = (if g mod super_divisor = 0 then SuperGulp50k
                           else if g mod ucast GULPS_PER_CHECKPOINT = 0 then Checkpoint10k
                           else Gulp2k);
                      seal = gulp_seal_sha256 sha (room_id_sha256 w) (head_sha256 w) (total_events w) g t product
                  in (Ok \<lparr>tier = t, sealed_events = ACTIVE_ENVELOPE_WINDOW, cumulative_events = total_events w,
                          gulp_index = g, checkpoint_index = checkpoint, super_gulp_index = super_index,
                          room_head_sha256 = head_sha256 w, distilled_product_sha256 = product,
                          seal_sha256 = seal\<rparr>,
                      w\<lparr>recent := [], total_gulps := g\<rparr>))"

section \<open>The novelty gate\<close>

datatype NoveltyDecision = Continue u16 | LowNovelty u16 u8 | Saturated u16 u8
datatype NoveltyError = EpsilonOutOfRange | ZeroSaturationLimit | SimilarityOutOfRange

record NoveltyGate =
  epsilon_bps :: u16
  saturation_limit :: u8
  low_novelty_run :: u8

definition novelty_new :: "u16 \<Rightarrow> u8 \<Rightarrow> (NoveltyGate, NoveltyError) result" where
  "novelty_new eps limit =
     (if eps > 10000 then Err EpsilonOutOfRange
      else if limit = 0 then Err ZeroSaturationLimit
      else Ok \<lparr>epsilon_bps = eps, saturation_limit = limit, low_novelty_run = 0\<rparr>)"

definition observe_similarity :: "u16 \<Rightarrow> NoveltyGate \<Rightarrow> (NoveltyDecision, NoveltyError) result \<times> NoveltyGate" where
  "observe_similarity similarity g =
     (if similarity > 10000 then (Err SimilarityOutOfRange, g)
      else let novelty = 10000 - similarity
           in if novelty < epsilon_bps g then
                let g = g\<lparr>low_novelty_run := saturating_add (low_novelty_run g) 1\<rparr>
                in if low_novelty_run g \<ge> saturation_limit g
                   then (Ok (Saturated novelty (low_novelty_run g)), g)
                   else (Ok (LowNovelty novelty (low_novelty_run g)), g)
              else (Ok (Continue novelty), g\<lparr>low_novelty_run := 0\<rparr>))"

datatype ReflectionGateDecision = GateContinue | Correct | Hold | SendToReview | Complete | GateSaturated

section \<open>Sizes, and what an event's bytes bind\<close>

definition wf_draft :: "EventDraft \<Rightarrow> bool" where
  "wf_draft d \<longleftrightarrow> length (source_handle8 d) = 8 \<and> length (source_pid_sha256 d) = 32 \<and>
     length (target_handle8 d) = 8 \<and> length (target_pid_sha256 d) = 32 \<and> length (verb_sha256 d) = 32 \<and>
     length (parent_sha256 d) = 32 \<and> length (body_sha256 (body d)) = 32 \<and>
     length (selector_tuple_sha256 d) = 32 \<and> length (owner_pid_sha256 d) = 32 \<and>
     length (idempotency_key d) = 32"

definition wf_event :: "CommittedEvent \<Rightarrow> bool" where
  "wf_event e \<longleftrightarrow> length (event_room_handle8 e) = 8 \<and> length (event_room_id_sha256 e) = 32 \<and>
     length (previous_sha256 e) = 32 \<and> wf_draft (draft e)"

definition event_canon :: "CommittedEvent \<Rightarrow> bytes" where
  "event_canon e = event_bytes (event_room_id_sha256 e) (event_room_handle8 e) (sequence e) (previous_sha256 e) (draft e)"

lemma kind_code_inj [simp]: "kind_code k = kind_code k' \<longleftrightarrow> k = k'"
  by (cases k; cases k'; simp)

lemma authority_code_inj [simp]: "authority_code a = authority_code a' \<longleftrightarrow> a = a'"
  by (cases a; cases a'; simp)

lemma access_code_inj [simp]: "access_code l = access_code l' \<longleftrightarrow> l = l'"
  by (cases l; cases l'; simp)

lemma pii_code_inj [simp]: "pii_code p = pii_code p' \<longleftrightarrow> p = p'"
  by (cases p; cases p'; simp)

lemma event_bytes_inj:
  assumes "wf_event e" and "wf_event e'" and "event_canon e = event_canon e'"
  shows "sequence e = sequence e' \<and> event_room_handle8 e = event_room_handle8 e' \<and>
    event_room_id_sha256 e = event_room_id_sha256 e' \<and> previous_sha256 e = previous_sha256 e' \<and> draft e = draft e'"
proof -
  have "sequence e = sequence e' \<and> event_room_handle8 e = event_room_handle8 e' \<and>
    event_room_id_sha256 e = event_room_id_sha256 e' \<and> previous_sha256 e = previous_sha256 e' \<and>
    event_kind (draft e) = event_kind (draft e') \<and> source_handle8 (draft e) = source_handle8 (draft e') \<and>
    source_pid_sha256 (draft e) = source_pid_sha256 (draft e') \<and> target_handle8 (draft e) = target_handle8 (draft e') \<and>
    target_pid_sha256 (draft e) = target_pid_sha256 (draft e') \<and> verb_sha256 (draft e) = verb_sha256 (draft e') \<and>
    timestamp_ns (draft e) = timestamp_ns (draft e') \<and> parent_sha256 (draft e) = parent_sha256 (draft e') \<and>
    body (draft e) = body (draft e') \<and> selector_dims (draft e) = selector_dims (draft e') \<and>
    selector_tuple_sha256 (draft e) = selector_tuple_sha256 (draft e') \<and> authority (draft e) = authority (draft e') \<and>
    access_level (draft e) = access_level (draft e') \<and> pii_state (draft e) = pii_state (draft e') \<and>
    owner_pid_sha256 (draft e) = owner_pid_sha256 (draft e') \<and> idempotency_key (draft e) = idempotency_key (draft e')"
    using assms by (auto simp: wf_event_def wf_draft_def event_canon_def event_bytes_def be_bytes_inj)
  then show ?thesis by auto
qed

interpretation room: hash_chain sha event_canon previous_sha256 GENESIS_SHA256 "\<lambda>_. True" wf_event for sha
  using event_bytes_inj by unfold_locales blast+

section \<open>Runs of a room\<close>

definition wf_writer :: "RoomWriter \<Rightarrow> bool" where
  "wf_writer w \<longleftrightarrow> length (room_handle8 w) = 8 \<and> length (room_id_sha256 w) = 32 \<and> length (head_sha256 w) = 32"

text \<open>
  \<open>room_run sha w hist\<close>: the writer \<open>w\<close> was reached from \<open>new\<close>, and \<open>hist\<close> is every event it has committed.
  A commit may be given anything \<open>prepare\<close> returned, on this writer earlier or on another writer.
\<close>

inductive room_run :: "(bytes \<Rightarrow> bytes) \<Rightarrow> RoomWriter \<Rightarrow> CommittedEvent list \<Rightarrow> bool" for sha where
  new: "room_new h rid = Ok w \<Longrightarrow> length h = 8 \<Longrightarrow> length rid = 32 \<Longrightarrow> room_run sha w []"
| committed: "room_run sha w hist \<Longrightarrow> prepare sha w0 d = Ok p \<Longrightarrow> wf_writer w0 \<Longrightarrow> wf_draft d \<Longrightarrow>
     commit p w = (Ok (Committed e), w') \<Longrightarrow> room_run sha w' (hist @ [e])"
| refused: "room_run sha w hist \<Longrightarrow> prepare sha w0 d = Ok p \<Longrightarrow> wf_writer w0 \<Longrightarrow> wf_draft d \<Longrightarrow>
     commit p w = (r, w') \<Longrightarrow> (\<forall>e. r \<noteq> Ok (Committed e)) \<Longrightarrow> room_run sha w' hist"
| sealed: "room_run sha w hist \<Longrightarrow> seal_gulp sha product w = (r, w') \<Longrightarrow> room_run sha w' hist"

lemma prepare_Ok:
  assumes "prepare sha w d = Ok p"
  shows "validate_draft w d = Ok ()" and "next_sequence w \<noteq> - 1" and
    "event p = \<lparr>sequence = next_sequence w, event_room_handle8 = room_handle8 w,
       event_room_id_sha256 = room_id_sha256 w, previous_sha256 = head_sha256 w,
       full_sha256 = sha (event_bytes (room_id_sha256 w) (room_handle8 w) (next_sequence w) (head_sha256 w) d),
       draft = d\<rparr>"
  using assms
  by (auto simp: prepare_def Let_def checked_add_def event_sha256_def split: result.splits if_splits option.splits)

lemma prepare_fields:
  assumes "prepare sha w d = Ok p"
  shows "sequence (event p) = next_sequence w" and "previous_sha256 (event p) = head_sha256 w"
    and "event_room_id_sha256 (event p) = room_id_sha256 w" and "draft (event p) = d"
  using prepare_Ok(3) [OF assms] by simp_all

text \<open>What \<open>commit\<close> relies on of a prepared event.\<close>

definition prepared_ok :: "(bytes \<Rightarrow> bytes) \<Rightarrow> CommittedEvent \<Rightarrow> bool" where
  "prepared_ok sha e \<longleftrightarrow> wf_event e \<and> full_sha256 e = sha (event_canon e) \<and> sequence e \<noteq> - 1"

lemma prepare_prepared_ok:
  "prepare sha w0 d = Ok p \<Longrightarrow> wf_writer w0 \<Longrightarrow> wf_draft d \<Longrightarrow> prepared_ok sha (event p)"
  using prepare_Ok [of sha w0 d p] by (simp add: prepared_ok_def wf_event_def wf_writer_def event_canon_def)

definition key :: "CommittedEvent \<Rightarrow> bytes" where
  "key e = idempotency_key (draft e)"

lemma find_key_None: "find (\<lambda>e. idempotency_key (draft e) = k) es = None \<longleftrightarrow> k \<notin> key ` set es"
  by (auto simp: find_None_iff key_def)

text \<open>The room invariant.\<close>

definition room_inv :: "(bytes \<Rightarrow> bytes) \<Rightarrow> RoomWriter \<Rightarrow> CommittedEvent list \<Rightarrow> bool" where
  "room_inv sha w hist \<longleftrightarrow>
     unat (next_sequence w) = length hist + 1 \<and> unat (total_events w) = length hist \<and>
     room.linked_from sha GENESIS_SHA256 hist \<and> head_sha256 w = room.head_from sha GENESIS_SHA256 hist \<and>
     list_all (\<lambda>e. prepared_ok sha e) hist \<and>
     (\<forall>i < length hist. unat (sequence (hist ! i)) = i + 1) \<and>
     2000 * unat (total_gulps w) \<le> length hist \<and> recent w = drop (2000 * unat (total_gulps w)) hist \<and>
     length (recent w) \<le> 2000 \<and> distinct (map key (recent w))"

lemma room_invD:
  assumes "room_inv sha w hist"
  shows "unat (next_sequence w) = length hist + 1" and "unat (total_events w) = length hist"
    and "2000 * unat (total_gulps w) \<le> length hist" and "recent w = drop (2000 * unat (total_gulps w)) hist"
    and "length (recent w) \<le> 2000" and "length hist = 2000 * unat (total_gulps w) + length (recent w)"
    and "distinct (map key (recent w))"
    and "i < length hist \<Longrightarrow> unat (sequence (hist ! i)) = i + 1"
    and "room.linked_from sha GENESIS_SHA256 hist" and "head_sha256 w = room.head_from sha GENESIS_SHA256 hist"
  using assms unfolding room_inv_def by auto

lemma room_inv_new: "room_new h rid = Ok w \<Longrightarrow> room_inv sha w []"
  by (auto simp: room_new_def room_inv_def split: if_splits)

lemma checked_add_one: "x \<noteq> - 1 \<Longrightarrow> checked_add x 1 = Some (x + 1)" for x :: u64
proof -
  assume "x \<noteq> - 1"
  then have "unat x \<noteq> unat (- 1 :: u64)" by (simp add: word_unat_eq_iff)
  then have "unat x + 1 < 2 ^ 64" using unat_bound [of x] by (simp add: unat_minus_one_eq)
  then show ?thesis by (simp add: checked_add_def)
qed

lemma unat_plus_one: "x \<noteq> - 1 \<Longrightarrow> unat (x + 1) = unat x + 1" for x :: u64
  using checked_add_one [of x] by (auto dest: unat_checked_add)

text \<open>All the outcomes of a commit in a room that satisfies the invariant.\<close>

lemma commit_cases:
  assumes "room_inv sha w hist" and "prepared_ok sha (event p)"
  obtains (duplicate) e where "e \<in> set (recent w)" "key e = key (event p)" "commit p w = (Ok (Duplicate e), w)"
  | (full) "key (event p) \<notin> key ` set (recent w)" "length (recent w) = 2000" "commit p w = (Err ActiveWindowFull, w)"
  | (stale) "key (event p) \<notin> key ` set (recent w)" "length (recent w) < 2000"
      "sequence (event p) \<noteq> next_sequence w \<or> previous_sha256 (event p) \<noteq> head_sha256 w"
      "commit p w = (Err StalePreparedEvent, w)"
  | (ok) "key (event p) \<notin> key ` set (recent w)" "length (recent w) < 2000"
      "sequence (event p) = next_sequence w" "previous_sha256 (event p) = head_sha256 w"
      "commit p w = (Ok (Committed (event p)),
         w\<lparr>recent := recent w @ [event p], head_sha256 := full_sha256 (event p),
           next_sequence := next_sequence w + 1, total_events := total_events w + 1\<rparr>)"
proof (cases "find (\<lambda>e. idempotency_key (draft e) = idempotency_key (draft (event p))) (recent w)")
  case (Some e)
  then have "e \<in> set (recent w)" "key e = key (event p)" by (auto simp: find_Some_iff key_def)
  then show ?thesis using Some by (intro duplicate) (auto simp: commit_def)
next
  case None
  then have nk: "key (event p) \<notin> key ` set (recent w)" using find_key_None by (simp add: key_def)
  have w2: "unat ACTIVE_ENVELOPE_WINDOW = 2000" by (simp add: room_consts)
  have le: "length (recent w) \<le> 2000" by (rule room_invD(5) [OF assms(1)])
  consider "length (recent w) = 2000" | "length (recent w) < 2000"
      "sequence (event p) \<noteq> next_sequence w \<or> previous_sha256 (event p) \<noteq> head_sha256 w"
    | "length (recent w) < 2000" "sequence (event p) = next_sequence w" "previous_sha256 (event p) = head_sha256 w"
    using le by linarith
  then show ?thesis
  proof cases
    case 1
    then show ?thesis using nk None w2 by (intro full) (simp_all add: commit_def)
  next
    case 2
    then show ?thesis using nk None w2 by (intro stale) (simp_all add: commit_def)
  next
    case 3
    have ns: "next_sequence w \<noteq> - 1" using 3 assms(2) by (auto simp: prepared_ok_def)
    have "unat (next_sequence w) < 2 ^ 64" using unat_bound [of "next_sequence w"] by simp
    then have "total_events w \<noteq> - 1"
      using assms(1) by (auto simp: room_inv_def unat_minus_one_eq)
    then show ?thesis using nk None w2 3 checked_add_one [OF ns] checked_add_one [of "total_events w"]
      by (intro ok) (simp_all add: commit_def Let_def)
  qed
qed

lemma room_inv_commit:
  assumes "room_inv sha w hist" and "prepared_ok sha (event p)" and "commit p w = (r, w')"
  shows "room_inv sha w' (case r of Ok (Committed e) \<Rightarrow> hist @ [e] | _ \<Rightarrow> hist)"
  using assms(1,2)
proof (cases rule: commit_cases)
  case ok
  let ?e = "event p"
  have ns: "next_sequence w \<noteq> - 1" using ok assms(2) by (auto simp: prepared_ok_def)
  have te: "total_events w \<noteq> - 1"
    using assms(1) unat_bound [of "next_sequence w"] by (auto simp: room_inv_def unat_minus_one_eq)
  have "room_inv sha (w\<lparr>recent := recent w @ [?e], head_sha256 := full_sha256 ?e,
           next_sequence := next_sequence w + 1, total_events := total_events w + 1\<rparr>) (hist @ [?e])"
    using assms(1,2) ok unat_plus_one [OF ns] unat_plus_one [OF te]
    by (auto simp: room_inv_def nth_append less_Suc_eq prepared_ok_def)
  then show ?thesis using ok assms(3) by auto
qed (use assms in auto)

lemma window_full_iff: "length es \<le> 2000 \<Longrightarrow> (word_of_nat (length es) :: u32) = ACTIVE_ENVELOPE_WINDOW \<longleftrightarrow> length es = 2000"
  by (simp add: room_consts word_unat_eq_iff unat_of_nat)

lemma seal_gulp_Ok:
  assumes "room_inv sha w hist" and "length (recent w) = 2000" and "\<not> is_zero_sha product"
  shows "\<exists>seal. seal_gulp sha product w = (Ok seal, w\<lparr>recent := [], total_gulps := total_gulps w + 1\<rparr>) \<and>
     unat (gulp_index seal) = unat (total_gulps w) + 1 \<and> cumulative_events seal = total_events w \<and>
     room_head_sha256 seal = head_sha256 w \<and> unat (total_events w) = 2000 * unat (gulp_index seal) \<and>
     gulp_index seal = total_gulps w + 1 \<and> checkpoint_index seal = gulp_index seal div 5 \<and>
     tier seal = (if gulp_index seal mod 25 = 0 then SuperGulp50k
                  else if gulp_index seal mod 5 = 0 then Checkpoint10k else Gulp2k)"
proof -
  have len: "length hist = 2000 * unat (total_gulps w) + 2000"
    using assms(1,2) by (auto simp: room_inv_def)
  have "length hist < 2 ^ 64" using assms(1) unat_bound [of "total_events w"] by (simp add: room_inv_def)
  then have g: "total_gulps w \<noteq> - 1" using len by (auto simp: unat_minus_one_eq)
  have "(word_of_nat (length (recent w)) :: u32) = ACTIVE_ENVELOPE_WINDOW" using assms(2) by (simp add: room_consts)
  then have run: "seal_gulp sha product w =
      (Ok \<lparr>tier = (if (total_gulps w + 1) mod 25 = 0 then SuperGulp50k
                   else if (total_gulps w + 1) mod 5 = 0 then Checkpoint10k else Gulp2k),
         sealed_events = ACTIVE_ENVELOPE_WINDOW, cumulative_events = total_events w,
         gulp_index = total_gulps w + 1, checkpoint_index = (total_gulps w + 1) div 5,
         super_gulp_index = (total_gulps w + 1) div 25, room_head_sha256 = head_sha256 w,
         distilled_product_sha256 = product,
         seal_sha256 = gulp_seal_sha256 sha (room_id_sha256 w) (head_sha256 w) (total_events w) (total_gulps w + 1)
           (if (total_gulps w + 1) mod 25 = 0 then SuperGulp50k
            else if (total_gulps w + 1) mod 5 = 0 then Checkpoint10k else Gulp2k) product\<rparr>,
       w\<lparr>recent := [], total_gulps := total_gulps w + 1\<rparr>)"
    using assms(3) checked_add_one [OF g] by (simp add: seal_gulp_def Let_def GULPS_PER_CHECKPOINT_def CHECKPOINTS_PER_SUPER_GULP_def)
  show ?thesis
    by (subst run, intro exI conjI, rule refl)
      (use len unat_plus_one [OF g] room_invD(2) [OF assms(1)] in simp_all)
qed

lemma seal_gulp_Err:
  assumes "room_inv sha w hist" and "length (recent w) \<noteq> 2000 \<or> is_zero_sha product"
  shows "seal_gulp sha product w =
    (Err (if length (recent w) \<noteq> 2000 then GulpNotReady (word_of_nat (length (recent w))) else DistilledProductMissing), w)"
proof -
  have "length (recent w) \<le> 2000" by (rule room_invD(5) [OF assms(1)])
  from window_full_iff [OF this] show ?thesis using assms(2) by (simp add: seal_gulp_def Let_def)
qed

lemma room_inv_seal:
  assumes "room_inv sha w hist" and "seal_gulp sha product w = (r, w')"
  shows "room_inv sha w' hist"
proof (cases "length (recent w) = 2000 \<and> \<not> is_zero_sha product")
  case True
  then obtain seal where s: "seal_gulp sha product w = (Ok seal, w\<lparr>recent := [], total_gulps := total_gulps w + 1\<rparr>)"
    "unat (gulp_index seal) = unat (total_gulps w) + 1"
    using seal_gulp_Ok [OF assms(1)] by blast
  have len: "length hist = 2000 * unat (total_gulps w) + 2000" using assms(1) True by (auto simp: room_inv_def)
  have "length hist < 2 ^ 64" using assms(1) unat_bound [of "total_events w"] by (simp add: room_inv_def)
  then have g: "total_gulps w \<noteq> - 1" using len by (auto simp: unat_minus_one_eq)
  show ?thesis using assms s len unat_plus_one [OF g] by (auto simp: room_inv_def)
next
  case False
  then show ?thesis using seal_gulp_Err [OF assms(1), of product] assms by auto
qed

lemma room_run_inv: "room_run sha w hist \<Longrightarrow> room_inv sha w hist"
proof (induction rule: room_run.induct)
  case (new h rid w)
  then show ?case by (intro room_inv_new)
next
  case (committed w hist w0 d p e w')
  then show ?case using room_inv_commit [OF committed.IH prepare_prepared_ok] by fastforce
next
  case (refused w hist w0 d p r w')
  note inv = room_inv_commit [OF refused.IH prepare_prepared_ok [OF refused.hyps(2-4)] refused.hyps(5)]
  show ?case using inv refused.hyps(6) by (auto split: result.splits CommitOutcome.splits)
next
  case (sealed w hist product r w')
  then show ?case using room_inv_seal by blast
qed

section \<open>Properties of the room\<close>

text \<open>C15: the room invariant. In every state a room can reach, whatever was prepared, committed or
  sealed: at most 2000 events are active and their idempotency keys are distinct; the total is 2000
  events per gulp plus the active ones; the events ever committed are numbered 1, 2, 3, ... without
  gaps, each carries the hash of its predecessor (32 zero bytes for the first) and the hash of its
  own bytes, and the head is the last one's hash.\<close>

theorem room_invariant:
  assumes "room_run sha w hist"
  shows "length (recent w) \<le> 2000 \<and> distinct (map key (recent w)) \<and>
     unat (total_events w) = 2000 * unat (total_gulps w) + length (recent w) \<and>
     unat (total_events w) = length hist \<and> unat (next_sequence w) = length hist + 1 \<and>
     recent w = drop (2000 * unat (total_gulps w)) hist \<and>
     head_sha256 w = (if hist = [] then GENESIS_SHA256 else full_sha256 (last hist)) \<and>
     (\<forall>i < length hist. unat (sequence (hist ! i)) = i + 1 \<and>
        previous_sha256 (hist ! i) = (if i = 0 then GENESIS_SHA256 else full_sha256 (hist ! (i - 1))) \<and>
        full_sha256 (hist ! i) = sha (event_canon (hist ! i)))"
proof -
  have inv: "room_inv sha w hist" using assms by (rule room_run_inv)
  have full: "full_sha256 e = sha (event_canon e)" if "e \<in> set hist" for e
    using inv that by (auto simp: room_inv_def list_all_iff prepared_ok_def)
  have links: "previous_sha256 (hist ! i) = (if i = 0 then GENESIS_SHA256 else full_sha256 (hist ! (i - 1)))"
    if "i < length hist" for i
  proof -
    have "room.linked_from sha GENESIS_SHA256 (take i hist @ hist ! i # drop (Suc i) hist)"
      using room_invD(9) [OF inv] id_take_nth_drop [OF that] by simp
    then have h: "previous_sha256 (hist ! i) = room.head_from sha GENESIS_SHA256 (take i hist)"
      by (simp add: room.linked_append)
    show ?thesis
    proof (cases i)
      case (Suc j)
      then have "take i hist = take j hist @ [hist ! j]" using that by (simp add: take_Suc_conv_app_nth)
      then show ?thesis using h that Suc full [of "hist ! j"] by simp
    qed (use h in simp)
  qed
  have h: "head_sha256 w = (if hist = [] then GENESIS_SHA256 else full_sha256 (last hist))"
    using room_invD(10) [OF inv] full by (cases hist rule: rev_cases) simp_all
  have t: "unat (total_events w) = 2000 * unat (total_gulps w) + length (recent w)"
    using room_invD(2,6) [OF inv] by simp
  show ?thesis
    by (intro conjI allI impI)
      (fact room_invD [OF inv] h t links | rule room_invD(8) [OF inv] links full | simp)+
qed

text \<open>C16: the head commits to the room's whole history. Two rooms, or two runs of one room, with the
  same number of committed events and the same head hash have committed the same sequence of events,
  field by field, or two different event encodings with the same hash are among them.\<close>

theorem room_head_commits:
  assumes "room_run sha w hist" and "room_run sha w' hist'"
    and "total_events w = total_events w'" and "head_sha256 w = head_sha256 w'"
  shows "hist = hist' \<or>
    (\<exists>x \<in> set hist. \<exists>y \<in> set hist'. event_canon x \<noteq> event_canon y \<and> sha (event_canon x) = sha (event_canon y))"
proof -
  have inv: "room_inv sha w hist" "room_inv sha w' hist'" using assms(1,2) by (auto intro: room_run_inv)
  have len: "length hist = length hist'" using inv assms(3) by (simp add: room_inv_def)
  have ok: "prepared_ok sha (hist ! i)" "prepared_ok sha (hist' ! i)" if "i < length hist" for i
    using inv that len by (auto simp: room_inv_def list_all_iff)
  have "map event_canon hist = map event_canon hist' \<or> room.collision_in sha hist hist'"
    using inv assms(4) len by (intro room.head_commits) (auto simp: room_inv_def list_all_iff prepared_ok_def)
  then show ?thesis
  proof
    assume eq: "map event_canon hist = map event_canon hist'"
    have "hist ! i = hist' ! i" if "i < length hist" for i
    proof -
      have c: "event_canon (hist ! i) = event_canon (hist' ! i)" using eq that len by (metis nth_map)
      then show ?thesis using event_bytes_inj [OF _ _ c] ok [OF that] by (simp add: prepared_ok_def)
    qed
    then show ?thesis using len by (blast intro: nth_equalityI)
  qed (auto simp: room.collision_in_def)
qed


text \<open>idempotency ends with the window. Once a full window is sealed, the room accepts a draft
  whose idempotency key it has already committed: it is committed a second time instead of being
  resolved to the original.\<close>

theorem room_key_reuse:
  assumes "room_run sha w hist" and "length (recent w) = 2000" and "\<not> is_zero_sha product"
    and "e \<in> set hist" and "idempotency_key d = key e" and "wf_draft d"
    and "seal_gulp sha product w = (r, w1)" and "wf_writer w1" and "prepare sha w1 d = Ok p"
  shows "is_ok r \<and> (\<exists>w2. commit p w1 = (Ok (Committed (event p)), w2) \<and> room_run sha w2 (hist @ [event p]) \<and>
     key (event p) = key e \<and> \<not> distinct (map key (hist @ [event p])))"
proof -
  have inv: "room_inv sha w hist" using assms(1) by (rule room_run_inv)
  obtain seal where "seal_gulp sha product w = (Ok seal, w\<lparr>recent := [], total_gulps := total_gulps w + 1\<rparr>)"
    using seal_gulp_Ok [OF inv assms(2,3)] by blast
  then have r: "is_ok r" and w1: "w1 = w\<lparr>recent := [], total_gulps := total_gulps w + 1\<rparr>"
    using assms(7) by simp_all
  have inv1: "room_inv sha w1 hist" using room_inv_seal [OF inv assms(7)] .
  have pok: "prepared_ok sha (event p)" using prepare_prepared_ok assms(6,8,9) by blast
  note pe = prepare_fields [OF assms(9)]
  have c: "\<exists>w2. commit p w1 = (Ok (Committed (event p)), w2)"
    using inv1 pok by (cases rule: commit_cases) (use pe in \<open>auto simp: w1\<close>)
  then obtain w2 where c: "commit p w1 = (Ok (Committed (event p)), w2)" by blast
  have "room_run sha w1 hist" using room_run.sealed assms(1,7) by blast
  then have "room_run sha w2 (hist @ [event p])" using room_run.committed assms(6,8,9) c by blast
  moreover have "key (event p) = key e" using pe assms(5) by (simp add: key_def)
  ultimately show ?thesis using r c assms(4) by auto
qed

text \<open>a commit does not compare room identities. An event prepared in one new room commits in any
  other new room, which then holds an event that names the first room.\<close>

theorem room_cross_commit:
  assumes "room_new ha ia = Ok a" and "room_new hb ib = Ok b" and "prepare sha a d = Ok p"
  shows "\<exists>b'. commit p b = (Ok (Committed (event p)), b') \<and> recent b' = [event p] \<and>
     room_id_sha256 b' = ib \<and> event_room_id_sha256 (event p) = ia"
proof -
  have ab: "next_sequence a = 1" "head_sha256 a = GENESIS_SHA256" "room_id_sha256 a = ia"
    "next_sequence b = 1" "head_sha256 b = GENESIS_SHA256" "recent b = []" "total_events b = 0" "room_id_sha256 b = ib"
    using assms(1,2) by (auto simp: room_new_def split: if_splits)
  note pe = prepare_fields [OF assms(3)]
  show ?thesis
    using ab pe by (simp add: commit_def Let_def room_consts checked_add_def)
qed

text \<open>sealing. A window is sealed exactly when it holds 2000 events and the product hash is not
  zero. The seal then counts one more gulp and 2000 events per gulp, and its tier is a super-gulp for
  every 25th gulp (50,000 events), a checkpoint for every other 5th (10,000 events), and a plain gulp
  otherwise; the window is empty and the head unchanged. Otherwise the room is unchanged.\<close>

theorem room_seal_spec:
  assumes "room_run sha w hist"
  shows "case seal_gulp sha product w of
      (Ok seal, w') \<Rightarrow> length (recent w) = 2000 \<and> \<not> is_zero_sha product \<and>
        unat (gulp_index seal) = unat (total_gulps w) + 1 \<and>
        unat (cumulative_events seal) = 2000 * unat (gulp_index seal) \<and>
        unat (checkpoint_index seal) = unat (gulp_index seal) div 5 \<and>
        tier seal = (if unat (cumulative_events seal) mod 50000 = 0 then SuperGulp50k
                     else if unat (cumulative_events seal) mod 10000 = 0 then Checkpoint10k else Gulp2k) \<and>
        room_head_sha256 seal = head_sha256 w \<and> recent w' = [] \<and> head_sha256 w' = head_sha256 w \<and>
        total_gulps w' = gulp_index seal
    | (Err e, w') \<Rightarrow> w' = w \<and>
        (length (recent w) \<noteq> 2000 \<and> e = GulpNotReady (word_of_nat (length (recent w))) \<or>
         length (recent w) = 2000 \<and> is_zero_sha product \<and> e = DistilledProductMissing)"
proof -
  have inv: "room_inv sha w hist" using assms by (rule room_run_inv)
  show ?thesis
  proof (cases "length (recent w) = 2000 \<and> \<not> is_zero_sha product")
    case False
    then show ?thesis using seal_gulp_Err [OF inv, of product] by auto
  next
    case True
    then obtain seal where s: "seal_gulp sha product w = (Ok seal, w\<lparr>recent := [], total_gulps := total_gulps w + 1\<rparr>)"
      "unat (gulp_index seal) = unat (total_gulps w) + 1" "cumulative_events seal = total_events w"
      "room_head_sha256 seal = head_sha256 w" "unat (total_events w) = 2000 * unat (gulp_index seal)"
      "gulp_index seal = total_gulps w + 1" and g: "checkpoint_index seal = gulp_index seal div 5"
      "tier seal = (if gulp_index seal mod 25 = 0 then SuperGulp50k
                   else if gulp_index seal mod 5 = 0 then Checkpoint10k else Gulp2k)"
      using seal_gulp_Ok [OF inv, of product] by blast
    have m: "x mod 25 = 0 \<longleftrightarrow> 2000 * unat x mod 50000 = 0" "x mod 5 = 0 \<longleftrightarrow> 2000 * unat x mod 10000 = 0" for x :: u64
      by (simp_all add: word_unat_eq_iff unat_mod mult_mod_right [of 2000 "unat x" 25, simplified, symmetric]
          mult_mod_right [of 2000 "unat x" 5, simplified, symmetric])
    show ?thesis using True s g by (simp add: m unat_div)
  qed
qed

section \<open>The novelty gate\<close>

text \<open>The gate after a sequence of observations, all in range.\<close>

definition gate_run :: "NoveltyGate \<Rightarrow> u16 list \<Rightarrow> NoveltyGate" where
  "gate_run g sims = foldl (\<lambda>g x. snd (observe_similarity x g)) g sims"

definition low :: "NoveltyGate \<Rightarrow> u16 \<Rightarrow> bool" where
  "low g x \<longleftrightarrow> 10000 - x < epsilon_bps g"

lemma observe_config [simp]:
  "epsilon_bps (snd (observe_similarity x g)) = epsilon_bps g"
  "saturation_limit (snd (observe_similarity x g)) = saturation_limit g"
  by (simp_all add: observe_similarity_def Let_def)

lemma gate_run_config [simp]:
  "epsilon_bps (gate_run g xs) = epsilon_bps g" "saturation_limit (gate_run g xs) = saturation_limit g"
  by (induction xs arbitrary: g) (simp_all add: gate_run_def)

lemma gate_run_snoc: "gate_run g (xs @ [x]) = snd (observe_similarity x (gate_run g xs))"
  by (simp add: gate_run_def)

lemma observe_run:
  assumes "x \<le> 10000"
  shows "unat (low_novelty_run (snd (observe_similarity x g))) =
    (if low g x then min 255 (unat (low_novelty_run g) + 1) else 0)"
proof -
  have "(10000 < x) = False" using assms by (simp add: not_less)
  then show ?thesis using unat_saturating_add [of "low_novelty_run g" 1]
    by (simp add: observe_similarity_def low_def Let_def min.commute)
qed

text \<open>The counter is the length of the current run of low observations, up to 255.\<close>

lemma gate_run_count:
  assumes "low_novelty_run g = 0" and "list_all (\<lambda>x. x \<le> 10000) xs"
  shows "unat (low_novelty_run (gate_run g xs)) = min 255 (length (takeWhile (low g) (rev xs)))"
  using assms(2)
proof (induction xs rule: rev_induct)
  case Nil
  then show ?case using assms(1) by (simp add: gate_run_def)
next
  case (snoc x xs)
  have "low (gate_run g xs) x = low g x" by (simp add: low_def)
  then show ?case using snoc by (simp add: gate_run_snoc observe_run min_def)
qed

text \<open>the novelty gate. After any sequence of similarities in range, the gate answers \<open>Saturated\<close>
  exactly when the last K observations, this one included, were all below the novelty threshold, where
  K is the saturation limit; it answers \<open>Continue\<close> exactly when the last one was not. A similarity out
  of range is refused and changes nothing.\<close>

theorem novelty_gate_saturates:
  assumes "novelty_new eps limit = Ok g" and "list_all (\<lambda>x. x \<le> 10000) xs" and "x \<le> 10000"
  shows "((\<exists>n r. fst (observe_similarity x (gate_run g xs)) = Ok (Saturated n r)) \<longleftrightarrow>
            unat limit \<le> length (takeWhile (low g) (rev (xs @ [x])))) \<and>
         ((\<exists>n. fst (observe_similarity x (gate_run g xs)) = Ok (Continue n)) \<longleftrightarrow> \<not> low g x) \<and>
         (10000 < y \<longrightarrow> observe_similarity y g = (Err SimilarityOutOfRange, g))"
proof -
  have g: "low_novelty_run g = 0" "saturation_limit g = limit" "0 < unat limit"
    using assms(1) by (auto simp: novelty_new_def unat_gt_0 split: if_splits)
  let ?g = "gate_run g xs"
  have lo: "low ?g x = low g x" by (simp add: low_def)
  have run: "unat (low_novelty_run (snd (observe_similarity x ?g))) = min 255 (length (takeWhile (low g) (rev (xs @ [x]))))"
    using gate_run_count [of g "xs @ [x]"] g(1) assms(2,3) by (simp add: gate_run_snoc)
  have lim: "unat limit \<le> 255" using unat_bound [of limit] by simp
  have inr: "(10000 < x) = False" using assms(3) by (simp add: not_less)
  have "(\<exists>n. fst (observe_similarity x ?g) = Ok (Continue n)) \<longleftrightarrow> \<not> low g x"
    using lo by (simp add: observe_similarity_def inr Let_def low_def)
  moreover have "(\<exists>n r. fst (observe_similarity x ?g) = Ok (Saturated n r)) \<longleftrightarrow>
      low g x \<and> limit \<le> low_novelty_run (snd (observe_similarity x ?g))"
    using lo g(2) by (simp add: observe_similarity_def inr Let_def low_def)
  moreover have "low g x \<and> limit \<le> low_novelty_run (snd (observe_similarity x ?g)) \<longleftrightarrow>
      unat limit \<le> length (takeWhile (low g) (rev (xs @ [x])))"
    using run lim g(3) by (auto simp: word_le_nat_alt)
  moreover have "10000 < y \<longrightarrow> observe_similarity y g = (Err SimilarityOutOfRange, g)"
    by (simp add: observe_similarity_def)
  ultimately show ?thesis by blast
qed

theorem novelty_gate_saturates_witness:
  "\<exists>g. novelty_new 500 2 = Ok g \<and> (\<exists>n r. fst (observe_similarity 9900 (gate_run g [3000, 9800])) = Ok (Saturated n r))"
proof -
  let ?g = "\<lparr>epsilon_bps = 500, saturation_limit = 2, low_novelty_run = 0\<rparr>"
  have n: "novelty_new 500 2 = Ok ?g" by (simp add: novelty_new_def)
  show ?thesis
    using novelty_gate_saturates [OF n, of "[3000, 9800]" 9900] n by (simp add: low_def)
qed

section \<open>A concrete room\<close>

definition demo_draft :: "nat \<Rightarrow> EventDraft" where
  "demo_draft n = \<lparr>event_kind = TaskIn, source_handle8 = replicate 8 1, source_pid_sha256 = replicate 32 1,
     target_handle8 = replicate 8 2, target_pid_sha256 = replicate 32 2, verb_sha256 = replicate 32 3,
     timestamp_ns = 0, parent_sha256 = replicate 32 0,
     body = \<lparr>body_offset = 0, body_length = 16, body_sha256 = replicate 32 4\<rparr>,
     selector_dims = 60, selector_tuple_sha256 = replicate 32 5, authority = Measured,
     access_level = Public, pii_state = NoPii, owner_pid_sha256 = replicate 32 0,
     idempotency_key = replicate 24 6 @ be_bytes 8 (word_of_nat n :: u64)\<rparr>"

definition demo_room :: RoomWriter where
  "demo_room = \<lparr>room_handle8 = replicate 8 7, room_id_sha256 = replicate 32 7, next_sequence = 1,
     head_sha256 = GENESIS_SHA256, recent = [], total_events = 0, total_gulps = 0\<rparr>"

lemma demo_room_new: "room_new (replicate 8 7) (replicate 32 7) = Ok demo_room"
  by (simp add: room_new_def demo_room_def)

lemma demo_room_run: "room_run sha demo_room []"
  by (rule room_run.new [OF demo_room_new]) simp_all

lemma wf_demo: "wf_draft (demo_draft n)" "wf_writer demo_room"
  by (simp_all add: wf_draft_def demo_draft_def wf_writer_def demo_room_def GENESIS_SHA256_def)

lemma validate_demo: "validate_draft w (demo_draft n) = Ok ()"
  by (simp add: validate_draft_def demo_draft_def MIN_SELECTOR_DIMS_def requires_parent_def)

lemma demo_key_inj: "m < 2 ^ 64 \<Longrightarrow> n < 2 ^ 64 \<Longrightarrow>
  idempotency_key (demo_draft m) = idempotency_key (demo_draft n) \<longleftrightarrow> m = n"
  by (simp add: demo_draft_def be_bytes_inj word_unat_eq_iff unat_of_nat)

lemma prepare_demo:
  assumes "room_inv sha w hist" and "length hist < 4000" and "length (recent w) < 2000"
  shows "\<exists>p. prepare sha w (demo_draft n) = Ok p"
proof -
  have "next_sequence w \<noteq> - 1" using room_invD(1) [OF assms(1)] assms(2) by (auto simp: unat_minus_one_eq)
  moreover have "checked_add (next_sequence w) 0 = Some (next_sequence w)"
    using unat_bound [of "next_sequence w"] by (simp add: checked_add_def)
  ultimately show ?thesis
    using assms(3) by (simp add: prepare_def validate_demo room_consts Let_def)
qed

text \<open>A room that has committed the drafts 0, ..., n - 1.\<close>

lemma demo_room_fill:
  assumes len: "\<forall>m. length (sha m) = 32"
  shows "n \<le> 2000 \<Longrightarrow>
   \<exists>w hist. room_run sha w hist \<and> wf_writer w \<and> recent w = hist \<and> length hist = n \<and> total_gulps w = 0 \<and>
     map key hist = map (\<lambda>i. idempotency_key (demo_draft i)) [0..<n]"
proof (induction n)
  case 0
  then show ?case using demo_room_run wf_demo(2)
    by (intro exI [of _ demo_room] exI [of _ "[]"]) (simp add: demo_room_def)
next
  case (Suc n)
  then obtain w hist where w: "room_run sha w hist" "wf_writer w" "recent w = hist" "length hist = n"
    "total_gulps w = 0" "map key hist = map (\<lambda>i. idempotency_key (demo_draft i)) [0..<n]" by auto
  have inv: "room_inv sha w hist" using w(1) by (rule room_run_inv)
  obtain p where p: "prepare sha w (demo_draft n) = Ok p"
    using prepare_demo [OF inv] w(3,4) Suc.prems by auto
  have pok: "prepared_ok sha (event p)" using prepare_prepared_ok [OF p w(2) wf_demo(1)] .
  have k: "key (event p) = idempotency_key (demo_draft n)" using prepare_fields(4) [OF p] by (simp add: key_def)
  have "key ` set hist = set (map key hist)" by simp
  then have fresh: "key (event p) \<notin> key ` set (recent w)"
    unfolding w(3) w(6) k using Suc.prems by (auto simp: demo_key_inj)
  define w1 where "w1 = w\<lparr>recent := recent w @ [event p], head_sha256 := full_sha256 (event p),
           next_sequence := next_sequence w + 1, total_events := total_events w + 1\<rparr>"
  have c: "commit p w = (Ok (Committed (event p)), w1)"
    using inv pok
    by (cases rule: commit_cases) (use fresh w(3,4) Suc.prems prepare_fields [OF p] in \<open>auto simp: w1_def image_iff\<close>)
  have run: "room_run sha w1 (hist @ [event p])"
    by (rule room_run.committed [OF w(1) p w(2) wf_demo(1) c])
  have "length (full_sha256 (event p)) = 32" using prepare_Ok(3) [OF p] len by simp
  then have "wf_writer w1" using w(2) by (simp add: wf_writer_def w1_def)
  then show ?case using run w k by (intro exI [of _ w1] exI [of _ "hist @ [event p]"]) (simp add: w1_def)
qed

theorem room_invariant_witness:
  "\<exists>w hist. room_run sha256 w hist \<and> length hist = 2000 \<and> unat (total_events w) = 2000 * unat (total_gulps w) + 2000 \<and>
     unat (next_sequence w) = 2001 \<and> previous_sha256 (hist ! 1) = full_sha256 (hist ! 0)"
proof -
  obtain w hist where w: "room_run sha256 w hist" "recent w = hist" "length hist = 2000"
    using demo_room_fill [of sha256 2000] by auto
  show ?thesis using room_invariant [OF w(1)] w by (intro exI [of _ w] exI [of _ hist]) auto
qed

theorem room_head_commits_witness:
  "room_run sha256 demo_room [] \<and>
   ([] = ([] :: CommittedEvent list) \<or> (\<exists>x \<in> set []. \<exists>y \<in> set [].
      event_canon x \<noteq> event_canon y \<and> sha256 (event_canon x) = sha256 (event_canon y)))"
  using room_head_commits [OF demo_room_run demo_room_run refl refl] demo_room_run by blast


theorem room_key_reuse_witness:
  "\<exists>w hist w1 p w2. room_run sha256 w hist \<and> length (recent w) = 2000 \<and>
     snd (seal_gulp sha256 (replicate 32 1) w) = w1 \<and> prepare sha256 w1 (demo_draft 0) = Ok p \<and>
     commit p w1 = (Ok (Committed (event p)), w2) \<and> \<not> distinct (map key (hist @ [event p]))"
proof -
  obtain w hist where w: "room_run sha256 w hist" "wf_writer w" "recent w = hist" "length hist = 2000"
    "map key hist = map (\<lambda>i. idempotency_key (demo_draft i)) [0..<2000]"
    using demo_room_fill [of sha256 2000] by auto
  obtain r w1 where s: "seal_gulp sha256 (replicate 32 1) w = (r, w1)" by fastforce
  have inv: "room_inv sha256 w hist" using w(1) by (rule room_run_inv)
  have nz: "\<not> is_zero_sha (replicate 32 1)" by simp
  have w1: "w1 = w\<lparr>recent := [], total_gulps := total_gulps w + 1\<rparr>"
    using seal_gulp_Ok [OF inv _ nz] w(3,4) s by auto
  have inv1: "room_inv sha256 w1 hist" using room_inv_seal [OF inv s] .
  obtain p where p: "prepare sha256 w1 (demo_draft 0) = Ok p"
    using prepare_demo [OF inv1] w(4) w1 by auto
  have "map key hist ! 0 = idempotency_key (demo_draft 0)" unfolding w(5) by simp
  then have k: "idempotency_key (demo_draft 0) = key (hist ! 0)" and e: "hist ! 0 \<in> set hist" using w(4) by auto
  have wf: "wf_writer w1" using w(2) w1 by (simp add: wf_writer_def)
  have full: "length (recent w) = 2000" using w(3,4) by simp
  obtain w2 where "commit p w1 = (Ok (Committed (event p)), w2)" "\<not> distinct (map key (hist @ [event p]))"
    using room_key_reuse [OF w(1) full nz e k wf_demo(1) s wf p] by blast
  then show ?thesis using w(1) full s p by (intro exI conjI) (assumption | simp)+
qed

theorem room_cross_commit_witness:
  "\<exists>p b'. prepare sha256 demo_room (demo_draft 0) = Ok p \<and>
     commit p (demo_room\<lparr>room_id_sha256 := replicate 32 9\<rparr>) = (Ok (Committed (event p)), b') \<and>
     room_id_sha256 b' = replicate 32 9 \<and> event_room_id_sha256 (event p) = replicate 32 7"
proof -
  have b: "room_new (replicate 8 7) (replicate 32 9) = Ok (demo_room\<lparr>room_id_sha256 := replicate 32 9\<rparr>)"
    by (simp add: room_new_def demo_room_def)
  obtain p where p: "prepare sha256 demo_room (demo_draft 0) = Ok p"
    using prepare_demo [OF room_run_inv [OF demo_room_run]] by (auto simp: demo_room_def)
  show ?thesis using room_cross_commit [OF demo_room_new b p] p by blast
qed

theorem room_seal_spec_witness:
  "room_run sha256 demo_room [] \<and> seal_gulp sha256 (replicate 32 1) demo_room = (Err (GulpNotReady 0), demo_room)"
  using room_seal_spec [OF demo_room_run [of sha256], of "replicate 32 1"] demo_room_run
  by (simp add: demo_room_def split: prod.splits result.splits)

end
