(* ===== verification/Tier.thy ===== *)
theory Tier
  imports Syscall_Types
begin

text \<open>
  Access tiers: the policy table and the path classifier of \<^verbatim>\<open>kernel/core/src/tier/mod.rs\<close> and the
  caller-to-target matrix of \<^verbatim>\<open>kernel/core/src/tier_gate/mod.rs\<close>. \<open>str::to_lowercase\<close> maps all of Unicode;
  it is the parameter \<open>to_lowercase\<close>, and where a result depends on it the hypothesis is its documented
  behaviour on ASCII text (\<open>lowers_ascii\<close>).
\<close>

section \<open>Policies\<close>

datatype EnumerationPolicy =
    PathsAndMetadataAllowed | HashesAndSummariesOnly | RedactedPathHashOnly
  | FullyRedactedMetadataOnly | HashesRetentionWindowsOnly | SealedReferenceOnly

datatype AuthorityRequirement =
  AnyAgentRead | OperatorOrQuintetCosign | OperatorWitnessRequired | OperatorOnly | AdminPlusSovereignty

record TierPolicy =
  policy_tier :: AccessTier
  enumeration :: EnumerationPolicy
  policy_authority :: AuthorityRequirement

definition TIER_POLICY_TABLE :: "TierPolicy list" where
  "TIER_POLICY_TABLE =
    [\<lparr>policy_tier = AccessTier.Public, enumeration = PathsAndMetadataAllowed, policy_authority = AnyAgentRead\<rparr>,
     \<lparr>policy_tier = AccessTier.Restricted, enumeration = HashesAndSummariesOnly, policy_authority = OperatorOrQuintetCosign\<rparr>,
     \<lparr>policy_tier = AccessTier.Stealth, enumeration = RedactedPathHashOnly, policy_authority = OperatorWitnessRequired\<rparr>,
     \<lparr>policy_tier = AccessTier.Hidden, enumeration = FullyRedactedMetadataOnly, policy_authority = OperatorOnly\<rparr>,
     \<lparr>policy_tier = AccessTier.Shadow, enumeration = HashesRetentionWindowsOnly, policy_authority = AdminPlusSovereignty\<rparr>,
     \<lparr>policy_tier = AccessTier.Secret, enumeration = SealedReferenceOnly, policy_authority = OperatorWitnessRequired\<rparr>,
     \<lparr>policy_tier = AccessTier.Sovereignty, enumeration = SealedReferenceOnly, policy_authority = AdminPlusSovereignty\<rparr>]"

fun policy_for :: "AccessTier \<Rightarrow> TierPolicy" where
  "policy_for AccessTier.Public = TIER_POLICY_TABLE ! 0"
| "policy_for AccessTier.Restricted = TIER_POLICY_TABLE ! 1"
| "policy_for AccessTier.Stealth = TIER_POLICY_TABLE ! 2"
| "policy_for AccessTier.Hidden = TIER_POLICY_TABLE ! 3"
| "policy_for AccessTier.Shadow = TIER_POLICY_TABLE ! 4"
| "policy_for AccessTier.Secret = TIER_POLICY_TABLE ! 5"
| "policy_for AccessTier.Sovereignty = TIER_POLICY_TABLE ! 6"

definition quintuple_auth_covers :: "AccessTier \<Rightarrow> bool" where
  "quintuple_auth_covers t = True"

section \<open>The path classifier\<close>

datatype TierClassifierErr = PathMalformed | UnclassifiedDefault

definition classify_path :: "(string \<Rightarrow> string) \<Rightarrow> string \<Rightarrow> (AccessTier, TierClassifierErr) result" where
  "classify_path to_lowercase path =
     (if path = [] \<or> str_contains path [CHR 0x00] then Err PathMalformed
      else let lower = to_lowercase path
           in if str_contains lower ''_big-pickle-quarantine'' then Ok AccessTier.Hidden
              else if str_contains lower ''sovlinux'' then Ok AccessTier.Shadow
              else if starts_with lower ''vault/secret/'' \<or> str_contains lower ''/vault/secret/'' then Ok AccessTier.Secret
              else if str_contains lower ''stealth/'' then Ok AccessTier.Stealth
              else if str_contains lower ''restricted/'' then Ok AccessTier.Restricted
              else Ok AccessTier.Public)"

text \<open>The documented behaviour of \<open>str::to_lowercase\<close> on ASCII text.\<close>

definition is_ascii :: "string \<Rightarrow> bool" where
  "is_ascii s = list_all (\<lambda>c. byte_of c < 128) s"

definition lowers_ascii :: "(string \<Rightarrow> string) \<Rightarrow> bool" where
  "lowers_ascii to_lowercase \<longleftrightarrow> (\<forall>s. is_ascii s \<longrightarrow> to_lowercase s = map ascii_lower s)"

section \<open>The tier gate\<close>

datatype TierGateVerdict = Allow | Deny | Escalate

definition check :: "AccessTier \<Rightarrow> AccessTier \<Rightarrow> TierGateVerdict" where
  "check caller_tier target_tier =
     (let caller = tier_rank caller_tier;
          target = tier_rank target_tier
      in if target_tier = AccessTier.Sovereignty \<and> caller_tier \<noteq> AccessTier.Sovereignty then TierGateVerdict.Deny
         else case caller_tier of
           AccessTier.Sovereignty \<Rightarrow> TierGateVerdict.Allow
         | AccessTier.Public \<Rightarrow>
             if target \<le> tier_rank AccessTier.Restricted then TierGateVerdict.Allow else TierGateVerdict.Deny
         | AccessTier.Restricted \<Rightarrow>
             if target \<le> tier_rank AccessTier.Stealth then TierGateVerdict.Allow else TierGateVerdict.Escalate
         | AccessTier.Stealth \<Rightarrow> if target \<le> caller then TierGateVerdict.Allow else TierGateVerdict.Escalate
         | AccessTier.Hidden \<Rightarrow> if target \<le> caller then TierGateVerdict.Allow else TierGateVerdict.Escalate
         | AccessTier.Shadow \<Rightarrow> if target \<le> caller then TierGateVerdict.Allow else TierGateVerdict.Deny
         | AccessTier.Secret \<Rightarrow> if target \<le> caller then TierGateVerdict.Allow else TierGateVerdict.Deny)"

definition tier_can_access :: "AccessTier \<Rightarrow> AccessTier \<Rightarrow> bool" where
  "tier_can_access caller_tier target_tier = (check caller_tier target_tier = TierGateVerdict.Allow)"

section \<open>Lemmas\<close>

lemma policy_for_tier: "policy_tier (policy_for t) = t"
  by (cases t) (simp_all add: TIER_POLICY_TABLE_def)

lemma check_allow_iff:
  "check c t = TierGateVerdict.Allow \<longleftrightarrow>
     t \<le> c \<or> (c, t) = (AccessTier.Public, AccessTier.Restricted) \<or> (c, t) = (AccessTier.Restricted, AccessTier.Stealth)"
  by (cases c; cases t) (simp_all add: check_def tier_order word_le_nat_alt)

lemma check_escalate_iff:
  "check c t = TierGateVerdict.Escalate \<longleftrightarrow>
     check c t \<noteq> TierGateVerdict.Allow \<and> t \<noteq> AccessTier.Sovereignty \<and>
     c \<in> {AccessTier.Restricted, AccessTier.Stealth, AccessTier.Hidden}"
  by (cases c; cases t) (simp_all add: check_def)

text \<open>The tests of the classifier, in the order the code makes them.\<close>

lemma classify_path_cases:
  assumes "path \<noteq> []" and "CHR 0x00 \<notin> set path" and "l = to_lowercase path"
  shows "classify_path to_lowercase path = Ok (
      if str_contains l ''_big-pickle-quarantine'' then AccessTier.Hidden
      else if str_contains l ''sovlinux'' then AccessTier.Shadow
      else if starts_with l ''vault/secret/'' \<or> str_contains l ''/vault/secret/'' then AccessTier.Secret
      else if str_contains l ''stealth/'' then AccessTier.Stealth
      else if str_contains l ''restricted/'' then AccessTier.Restricted else AccessTier.Public)"
proof -
  have "\<not> str_contains path [CHR 0x00]" using assms(2) by (auto simp: str_contains_iff sublist_def)
  then show ?thesis using assms(1,3) by (simp add: classify_path_def Let_def)
qed

lemma is_ascii_map_lower: "is_ascii s \<Longrightarrow> is_ascii (map ascii_lower s)"
  unfolding is_ascii_def
proof (induction s)
  case (Cons c s)
  then show ?case by (auto simp: ascii_lower_def byte_of_def is_ascii_uppercase_def)
qed simp

lemma ascii_lower_idem [simp]: "ascii_lower (ascii_lower c) = ascii_lower c"
  by (auto simp: ascii_lower_def byte_of_def is_ascii_uppercase_def)

section \<open>Properties\<close>

text \<open>the access matrix. A tier reaches itself and everything below it, and the only reads upward are
  Public to Restricted and Restricted to Stealth; a higher caller reaches whatever a lower one does
  and nobody loses access when the target gets less sensitive; escalation is offered only to
  Restricted, Stealth and Hidden callers and never towards Sovereignty, which is denied to every
  other tier.\<close>

theorem tier_gate_matrix:
  "(tier_can_access c t \<longleftrightarrow>
      t \<le> c \<or> (c, t) = (AccessTier.Public, AccessTier.Restricted) \<or> (c, t) = (AccessTier.Restricted, AccessTier.Stealth)) \<and>
   (tier_can_access c t \<longrightarrow> c \<le> c' \<longrightarrow> tier_can_access c' t) \<and>
   (tier_can_access c t \<longrightarrow> t' \<le> t \<longrightarrow> tier_can_access c t') \<and>
   (check c t = TierGateVerdict.Escalate \<longleftrightarrow> \<not> tier_can_access c t \<and> t \<noteq> AccessTier.Sovereignty \<and>
      c \<in> {AccessTier.Restricted, AccessTier.Stealth, AccessTier.Hidden}) \<and>
   (check c AccessTier.Sovereignty = (if c = AccessTier.Sovereignty then TierGateVerdict.Allow else TierGateVerdict.Deny))"
proof -
  have "tier_can_access c t \<longrightarrow> c \<le> c' \<longrightarrow> tier_can_access c' t"
    by (cases c; cases c'; cases t) (simp_all add: tier_can_access_def check_allow_iff tier_order word_le_nat_alt)
  moreover have "tier_can_access c t \<longrightarrow> t' \<le> t \<longrightarrow> tier_can_access c t'"
    by (cases c; cases t'; cases t) (simp_all add: tier_can_access_def check_allow_iff tier_order word_le_nat_alt)
  moreover have "check c AccessTier.Sovereignty = (if c = AccessTier.Sovereignty then TierGateVerdict.Allow else TierGateVerdict.Deny)"
    by (cases c) (simp_all add: check_def)
  moreover have "check c t = TierGateVerdict.Escalate \<longleftrightarrow> \<not> tier_can_access c t \<and> t \<noteq> AccessTier.Sovereignty \<and>
      c \<in> {AccessTier.Restricted, AccessTier.Stealth, AccessTier.Hidden}"
    using check_escalate_iff [of c t] unfolding tier_can_access_def by blast
  ultimately show ?thesis using check_allow_iff [of c t] unfolding tier_can_access_def by blast
qed

theorem tier_gate_matrix_witness:
  "tier_can_access AccessTier.Hidden AccessTier.Stealth \<and> AccessTier.Hidden \<le> AccessTier.Secret \<and>
   tier_can_access AccessTier.Secret AccessTier.Stealth"
  using tier_gate_matrix [of AccessTier.Hidden AccessTier.Stealth AccessTier.Secret AccessTier.Stealth]
  by (simp add: tier_order)

text \<open>the path classifier. Whatever \<open>to_lowercase\<close> does, a path is refused exactly when it is empty or
  contains a NUL, and no path is ever classified as Sovereignty. For ASCII paths the classification
  does not depend on the case of its letters, and a path that names the quarantine directory, in any
  case and at any depth, is Hidden whatever else it names.\<close>

theorem classify_path_spec:
  "(classify_path f path = Err PathMalformed \<longleftrightarrow> path = [] \<or> CHR 0x00 \<in> set path) \<and>
   classify_path f path \<noteq> Ok AccessTier.Sovereignty \<and> classify_path f path \<noteq> Err UnclassifiedDefault \<and>
   (lowers_ascii f \<and> is_ascii p \<and> CHR 0x00 \<notin> set p \<longrightarrow>
      classify_path f p = classify_path f (map ascii_lower p) \<and>
      (\<forall>a b. map ascii_lower p = a @ ''_big-pickle-quarantine'' @ b \<longrightarrow> classify_path f p = Ok AccessTier.Hidden))"
proof -
  have nul: "str_contains path [CHR 0x00] \<longleftrightarrow> CHR 0x00 \<in> set path"
    by (auto simp: str_contains_iff sublist_def in_set_conv_decomp)
  have 1: "(classify_path f path = Err PathMalformed \<longleftrightarrow> path = [] \<or> CHR 0x00 \<in> set path) \<and>
     classify_path f path \<noteq> Ok AccessTier.Sovereignty \<and> classify_path f path \<noteq> Err UnclassifiedDefault"
    by (simp add: classify_path_def Let_def nul)
  have 2: "classify_path f p = classify_path f (map ascii_lower p) \<and>
      (\<forall>a b. map ascii_lower p = a @ ''_big-pickle-quarantine'' @ b \<longrightarrow> classify_path f p = Ok AccessTier.Hidden)"
    if h: "lowers_ascii f" "is_ascii p" "CHR 0x00 \<notin> set p"
  proof -
    have l: "f p = map ascii_lower p" "f (map ascii_lower p) = map ascii_lower p"
      using h(1,2) is_ascii_map_lower by (simp_all add: lowers_ascii_def comp_def)
    have n: "CHR 0x00 \<notin> set (map ascii_lower p)"
    proof
      assume "CHR 0x00 \<in> set (map ascii_lower p)"
      then obtain c where c: "c \<in> set p" "ascii_lower c = CHR 0x00" by auto
      then have "byte_of (ascii_lower c) = 0" by (simp add: byte_of_def)
      then have "byte_of c = 0" by (auto simp: ascii_lower_def byte_of_def is_ascii_uppercase_def split: if_splits)
      then have "c = CHR 0x00" by (intro of_char_eqI) (simp add: byte_of_def)
      then show False using c(1) h(3) by simp
    qed
    show ?thesis
    proof (cases "p = []")
      case False
      then have ne: "map ascii_lower p \<noteq> []" by simp
      note low = classify_path_cases [where to_lowercase = f, OF ne n l(2) [symmetric]]
      note path = classify_path_cases [where to_lowercase = f, OF False h(3) l(1) [symmetric]]
      have "classify_path f p = Ok AccessTier.Hidden"
        if "map ascii_lower p = a @ ''_big-pickle-quarantine'' @ b" for a b
        unfolding path that by (simp only: str_contains_append if_True)
      then show ?thesis using trans [OF path low [symmetric]] by blast
    qed auto
  qed
  show ?thesis using 1 2 by blast
qed

theorem classify_path_spec_witness:
  "lowers_ascii (map ascii_lower) \<and>
   classify_path (map ascii_lower) ''A/_Big-Pickle-Quarantine/x'' = Ok AccessTier.Hidden"
proof -
  have l: "lowers_ascii (map ascii_lower)" by (simp add: lowers_ascii_def)
  have p: "is_ascii ''A/_Big-Pickle-Quarantine/x''" "CHR 0x00 \<notin> set ''A/_Big-Pickle-Quarantine/x''"
    by (simp_all add: is_ascii_def byte_of_def)
  have q: "map ascii_lower ''A/_Big-Pickle-Quarantine/x'' = ''a/'' @ ''_big-pickle-quarantine'' @ ''/x''"
    by code_simp
  show ?thesis
    using classify_path_spec [of "map ascii_lower" "[]" "''A/_Big-Pickle-Quarantine/x''"] l p q by blast
qed

end
