(* ===== verification/Transit.thy ===== *)
theory Transit
  imports Tier Tickets Cosign_Chain
begin

text \<open>
  Moving a resource between tiers: \<open>check_transit\<close> and \<open>execute_transit\<close> of \<^verbatim>\<open>kernel/core/src/highway/mod.rs\<close>
  and the executor of \<^verbatim>\<open>kernel/core/src/transit/mod.rs\<close>, whose static \<open>NEXT_TRANSIT_ID\<close> is passed
  explicitly and is an instance of the locale \<open>ticket_counter\<close>.
\<close>

section \<open>Highway\<close>

datatype HighwayErr = SameTier | TransitForbidden | NotInQuintupleAuthWindow | CosignFailure | Unimplemented

record TransitVerdict =
  verdict_from :: AccessTier
  verdict_to :: AccessTier
  authorized :: bool
  deny_reason :: "string option"
  cosign_row :: "u64 option"

definition check_transit :: "AccessTier \<Rightarrow> AccessTier \<Rightarrow> (TransitVerdict, HighwayErr) result" where
  "check_transit f t =
     (if f = t then Err SameTier
      else if \<not> quintuple_auth_covers t then
        Ok \<lparr>verdict_from = f, verdict_to = t, authorized = False,
            deny_reason = Some ''destination tier not in current quintuple-auth window'', cosign_row = None\<rparr>
      else let _ = policy_for f; _ = policy_for t
           in Ok \<lparr>verdict_from = f, verdict_to = t, authorized = True, deny_reason = None, cosign_row = None\<rparr>)"

definition execute_transit ::
    "CosignChain \<Rightarrow> AccessTier \<Rightarrow> AccessTier \<Rightarrow> string \<Rightarrow> (TransitVerdict, HighwayErr) result \<times> CosignChain" where
  "execute_transit chain f t resource_id = (Err HighwayErr.Unimplemented, chain)"

section \<open>The transit executor\<close>

definition MAX_TRANSIT_ENVELOPE_BYTES :: usize where "MAX_TRANSIT_ENVELOPE_BYTES = 64 * 1024"

record TransitRequest =
  from_tier :: AccessTier
  to_tier :: AccessTier
  envelope_size :: usize

datatype TransitErr = TierMismatch | OversizedPayload | QuintupleAuthRequired | ChainAppendFailed

definition execute :: "TransitRequest \<Rightarrow> u64 \<Rightarrow> (u64, TransitErr) result \<times> u64" where
  "execute req NEXT_TRANSIT_ID =
     (if envelope_size req > MAX_TRANSIT_ENVELOPE_BYTES then (Err OversizedPayload, NEXT_TRANSIT_ID)
      else case check_transit (from_tier req) (to_tier req) of
             Err SameTier \<Rightarrow> (Err TierMismatch, NEXT_TRANSIT_ID)
           | Err _ \<Rightarrow> (Err ChainAppendFailed, NEXT_TRANSIT_ID)
           | Ok verdict \<Rightarrow>
               if \<not> authorized verdict then (Err QuintupleAuthRequired, NEXT_TRANSIT_ID)
               else (Ok NEXT_TRANSIT_ID, NEXT_TRANSIT_ID + 1))"

section \<open>Transit ids as tickets\<close>

lemma execute_eq:
  "execute req n =
     (if envelope_size req > MAX_TRANSIT_ENVELOPE_BYTES then (Err OversizedPayload, n)
      else if from_tier req = to_tier req then (Err TierMismatch, n) else (Ok n, n + 1))"
  by (simp add: execute_def check_transit_def quintuple_auth_covers_def)

definition transit_issue :: "TransitRequest \<Rightarrow> u64 \<Rightarrow> u64 option \<times> u64" where
  "transit_issue req n = (case execute req n of (Ok i, m) \<Rightarrow> (Some i, m) | (Err _, m) \<Rightarrow> (None, m))"

interpretation transit_ids: ticket_counter transit_issue "\<lambda>n. n" 0
  by unfold_locales (auto simp: transit_issue_def execute_eq split: if_splits)

section \<open>Properties\<close>

text \<open>a transit is authorised by its size and by the tiers being different, and by nothing else; the
  transit ids of any sequence of requests (fewer than 2^64) are distinct. In particular a transit of
  at most 64 KiB from any other tier into Sovereignty succeeds, which the tier gate denies to every
  such caller without an escalation path.\<close>

theorem transit_ignores_tier_gate:
  "(is_ok (fst (execute req n)) \<longleftrightarrow> envelope_size req \<le> MAX_TRANSIT_ENVELOPE_BYTES \<and> from_tier req \<noteq> to_tier req) \<and>
   (length reqs < 2 ^ 64 \<longrightarrow> distinct (transit_ids.tickets reqs n)) \<and>
   (c \<noteq> AccessTier.Sovereignty \<and> sz \<le> MAX_TRANSIT_ENVELOPE_BYTES \<longrightarrow>
      check c AccessTier.Sovereignty = TierGateVerdict.Deny \<and>
      execute \<lparr>from_tier = c, to_tier = AccessTier.Sovereignty, envelope_size = sz\<rparr> n = (Ok n, n + 1))"
proof -
  have "is_ok (fst (execute req n)) \<longleftrightarrow> envelope_size req \<le> MAX_TRANSIT_ENVELOPE_BYTES \<and> from_tier req \<noteq> to_tier req"
    by (auto simp: execute_eq not_less)
  moreover have "check c AccessTier.Sovereignty = TierGateVerdict.Deny \<and>
      execute \<lparr>from_tier = c, to_tier = AccessTier.Sovereignty, envelope_size = sz\<rparr> n = (Ok n, n + 1)"
    if "c \<noteq> AccessTier.Sovereignty" "sz \<le> MAX_TRANSIT_ENVELOPE_BYTES"
    using that by (simp add: check_def execute_eq not_less)
  ultimately show ?thesis using transit_ids.tickets_distinct by blast
qed

theorem transit_ignores_tier_gate_witness:
  "check AccessTier.Public AccessTier.Sovereignty = TierGateVerdict.Deny \<and>
   execute \<lparr>from_tier = AccessTier.Public, to_tier = AccessTier.Sovereignty, envelope_size = 100\<rparr> 1 = (Ok 1, 2)"
  using transit_ignores_tier_gate [of undefined 1 "[]" AccessTier.Public 100]
  by (simp add: MAX_TRANSIT_ENVELOPE_BYTES_def)

end
