(* ===== verification/Gates.thy ===== *)
theory Gates
  imports Syscall_Types Crypto Cosign_Chain
begin

text \<open>
  The three gates in front of a launch: the hookwall (\<^verbatim>\<open>kernel/core/src/hookwall/mod.rs\<close>) with its 16-byte
  verdict rows and their append to the cosign sequence, the signature gate
  (\<^verbatim>\<open>kernel/core/src/sign_gate/mod.rs\<close>) and the spawn gate that composes them
  (\<^verbatim>\<open>kernel/core/src/spawn_gate/mod.rs\<close>).
\<close>

section \<open>Hookwall\<close>

definition HOOKWALL_SLOT_COUNT :: nat where "HOOKWALL_SLOT_COUNT = 64"

datatype HookTier = Micro | Cosign | Firmware

record HookContext =
  slot :: u8
  syscall_no :: u8
  caller_pid :: u64
  hook_tier :: HookTier
  target_tier :: AccessTier

definition hookwall_pre :: "HookContext \<Rightarrow> (HookwallVerdict, SyscallErr) result" where
  "hookwall_pre ctx =
     (if unat (slot ctx) \<ge> HOOKWALL_SLOT_COUNT then Err SyscallErr.Invalid
      else Ok (case hook_tier ctx of Micro \<Rightarrow> Proceed | Cosign \<Rightarrow> Hold | Firmware \<Rightarrow> Block))"

fun hook_tier_code :: "HookTier \<Rightarrow> u8" where
  "hook_tier_code Micro = 1"
| "hook_tier_code Cosign = 2"
| "hook_tier_code Firmware = 3"

fun verdict_code :: "HookwallVerdict \<Rightarrow> u8" where
  "verdict_code Proceed = 1"
| "verdict_code Hold = 2"
| "verdict_code Block = 3"

fun target_tier_code :: "AccessTier \<Rightarrow> u8" where
  "target_tier_code AccessTier.Public = 0"
| "target_tier_code AccessTier.Restricted = 1"
| "target_tier_code AccessTier.Stealth = 2"
| "target_tier_code AccessTier.Hidden = 3"
| "target_tier_code AccessTier.Shadow = 4"
| "target_tier_code AccessTier.Secret = 5"
| "target_tier_code AccessTier.Sovereignty = 6"

definition compose_verdict_row :: "HookContext \<Rightarrow> HookwallVerdict \<Rightarrow> bytes" where
  "compose_verdict_row ctx verdict =
     (let row = replicate 16 0;
          row = row[0 := slot ctx];
          row = row[1 := syscall_no ctx];
          row = row[2 := hook_tier_code (hook_tier ctx)];
          row = row[3 := verdict_code verdict];
          row = copy_at 4 (le_bytes 8 (caller_pid ctx)) row;
          row = row[12 := target_tier_code (target_tier ctx)];
          row = row[13 := of_char CHR ''H''];
          row = row[14 := of_char CHR ''V''];
          row = row[15 := of_char CHR ''D'']
      in row)"

definition hookwall_post ::
    "(bytes \<Rightarrow> bytes) \<Rightarrow> HookContext \<Rightarrow> HookwallVerdict \<Rightarrow> u64 \<Rightarrow> (unit, SyscallErr) result \<times> u64" where
  "hookwall_post sha ctx verdict counter =
     (if unat (slot ctx) \<ge> HOOKWALL_SLOT_COUNT then (Err SyscallErr.Invalid, counter)
      else let row = compose_verdict_row ctx verdict;
               (r, counter) = append_seq sha row counter
           in case r of Ok _ \<Rightarrow> (Ok (), counter) | Err _ \<Rightarrow> (Err SyscallErr.CosignReject, counter))"

section \<open>Signature gate\<close>

definition DEFAULT_DENIES :: "string list" where
  "DEFAULT_DENIES = [''HD-virus'', ''drift'', ''malformed-PID'', ''unknown-cube'', ''off-fabric'']"

record GateVerdict =
  admitted :: bool
  reason :: string
  sig_valid :: bool
  deny_clean :: bool
  allow_rescued :: bool

datatype SignGateErr = EnvelopeEmpty | UnsupportedAlg | SigMissing | OwnerMissing

definition verify_envelope_signature ::
    "(bytes \<Rightarrow> bytes) \<Rightarrow> bytes \<Rightarrow> Signature \<Rightarrow> PublicKey \<Rightarrow> string \<Rightarrow> (unit, SignGateErr) result" where
  "verify_envelope_signature sha canonical_bytes sg owner_pub_key alg =
     (if canonical_bytes = [] then Err EnvelopeEmpty
      else if alg \<noteq> ''ed25519'' then Err UnsupportedAlg
      else case verify sha canonical_bytes sg owner_pub_key of
             Ok _ \<Rightarrow> Ok ()
           | Err CryptoErr.SignatureInvalid \<Rightarrow> Err SigMissing
           | Err _ \<Rightarrow> Err SigMissing)"

definition deny_check :: "string list \<Rightarrow> string list \<Rightarrow> bool" where
  "deny_check hookwall_event_tags denies =
     list_all (\<lambda>tag. list_all (\<lambda>deny. \<not> str_contains tag deny) denies) hookwall_event_tags"

definition task_39_envvar_virus_allow :: "string \<Rightarrow> bool" where
  "task_39_envvar_virus_allow name =
     (case name of
        [] \<Rightarrow> False
      | c # _ \<Rightarrow>
          if \<not> is_ascii_uppercase c then False
          else if \<not> list_all (\<lambda>b. is_ascii_uppercase b \<or> is_ascii_digit b \<or> b = CHR ''_'') name then False
          else str_contains name ''VIRUS'')"

definition gate_envelope ::
    "(bytes \<Rightarrow> bytes) \<Rightarrow> bytes \<Rightarrow> Signature \<Rightarrow> PublicKey \<Rightarrow> string \<Rightarrow> string list \<Rightarrow> string list \<Rightarrow> GateVerdict" where
  "gate_envelope sha canonical_bytes sg owner_pub_key alg hookwall_event_tags envvar_names =
     (let sv = is_ok (verify_envelope_signature sha canonical_bytes sg owner_pub_key alg);
          dc = deny_check hookwall_event_tags DEFAULT_DENIES;
          ar = (\<not> dc \<and> list_ex task_39_envvar_virus_allow envvar_names);
          ad = (sv \<and> (dc \<or> ar));
          rs = (if \<not> sv then ''signature-invalid''
                else if \<not> dc \<and> \<not> ar then ''deny-tag-matched-no-allow-rescue''
                else if ar then ''deny-tag-matched-but-allow-rescued''
                else ''admitted-clean'')
      in \<lparr>admitted = ad, reason = rs, sig_valid = sv, deny_clean = dc, allow_rescued = ar\<rparr>)"

section \<open>Spawn gate\<close>

definition GATE_GENIUS_THRESHOLD_Q :: u32 where "GATE_GENIUS_THRESHOLD_Q = 720"
definition GATE_MAX_REVERSE_RISK_Q :: u32 where "GATE_MAX_REVERSE_RISK_Q = 280"

record SpawnGateInput =
  spawn_slot :: u8
  spawn_syscall_no :: u8
  spawn_caller_pid :: u64
  spawn_tier :: HookTier
  spawn_target_tier :: AccessTier
  event_tags :: "string list"
  forward_score_q :: u32
  reverse_risk_q :: u32

definition spawn_ctx :: "SpawnGateInput \<Rightarrow> HookContext" where
  "spawn_ctx i = \<lparr>slot = spawn_slot i, syscall_no = spawn_syscall_no i, caller_pid = spawn_caller_pid i,
     hook_tier = spawn_tier i, target_tier = spawn_target_tier i\<rparr>"

definition spawn_gate_verdict :: "SpawnGateInput \<Rightarrow> HookwallVerdict" where
  "spawn_gate_verdict input =
     (if \<not> deny_check (event_tags input) DEFAULT_DENIES then Block
      else case hookwall_pre (spawn_ctx input) of
             Err _ \<Rightarrow> Block
           | Ok tier_verdict \<Rightarrow>
               if tier_verdict \<noteq> Proceed then tier_verdict
               else if forward_score_q input \<ge> GATE_GENIUS_THRESHOLD_Q \<and>
                       reverse_risk_q input \<le> GATE_MAX_REVERSE_RISK_Q
               then Proceed else Hold)"

definition seal_row :: "SpawnGateInput \<Rightarrow> HookwallVerdict \<Rightarrow> bytes" where
  "seal_row input verdict = compose_verdict_row (spawn_ctx input) verdict"

section \<open>Verdict rows\<close>

lemma compose_verdict_row_eq:
  "compose_verdict_row ctx v =
     [slot ctx, syscall_no ctx, hook_tier_code (hook_tier ctx), verdict_code v] @
     le_bytes 8 (caller_pid ctx) @ [target_tier_code (target_tier ctx)] @ as_bytes ''HVD''"
proof -
  have "\<exists>a b c d e f g h. xs = [a, b, c, d, e, f, g, h]" if "length xs = 8" for xs :: bytes
    using that by (auto simp: numeral_eq_Suc length_Suc_conv)
  then obtain a b c d e f g h where l: "le_bytes 8 (caller_pid ctx) = [a, b, c, d, e, f, g, h]"
    using length_le_bytes by blast
  show ?thesis
    unfolding compose_verdict_row_def Let_def l
    by (simp add: copy_at_def as_bytes_def numeral_eq_Suc)
qed

lemma hook_tier_code_inj [simp]: "hook_tier_code a = hook_tier_code b \<longleftrightarrow> a = b"
  by (cases a; cases b; simp)

lemma verdict_code_inj [simp]: "verdict_code v = verdict_code w \<longleftrightarrow> v = w"
  by (cases v; cases w; simp)

lemma target_tier_code_inj [simp]: "target_tier_code t = target_tier_code u \<longleftrightarrow> t = u"
  by (cases t; cases u; simp)

lemma hookwall_post_eq:
  "hookwall_post sha ctx v n =
     (if unat (slot ctx) < 64 then (Ok (), n + 1) else (Err SyscallErr.Invalid, n))"
  by (simp add: hookwall_post_def append_seq_def compose_verdict_row_eq HOOKWALL_SLOT_COUNT_def)

section \<open>Properties\<close>

text \<open>the verdict row is a faithful witness of the decision. It has 16 bytes and ends in the magic
  \<open>HVD\<close>; two decisions with the same row agree on slot, syscall, caller, tier, target tier and verdict;
  and a post hook with a slot in range appends exactly one row to the cosign sequence, out of range
  none.\<close>

theorem verdict_row_faithful:
  "length (compose_verdict_row ctx v) = 16 \<and> drop 13 (compose_verdict_row ctx v) = as_bytes ''HVD'' \<and>
   (compose_verdict_row ctx v = compose_verdict_row ctx' v' \<longleftrightarrow> ctx = ctx' \<and> v = v') \<and>
   hookwall_post sha ctx v n = (if unat (slot ctx) < 64 then (Ok (), n + 1) else (Err SyscallErr.Invalid, n))"
proof -
  have "compose_verdict_row ctx v = compose_verdict_row ctx' v' \<longleftrightarrow>
     slot ctx = slot ctx' \<and> syscall_no ctx = syscall_no ctx' \<and> hook_tier ctx = hook_tier ctx' \<and> v = v' \<and>
     caller_pid ctx = caller_pid ctx' \<and> target_tier ctx = target_tier ctx'"
    by (auto simp: compose_verdict_row_eq le_bytes_inj)
  then have "compose_verdict_row ctx v = compose_verdict_row ctx' v' \<longleftrightarrow> ctx = ctx' \<and> v = v'" by auto
  then show ?thesis using hookwall_post_eq [of sha ctx v n]
    by (simp add: compose_verdict_row_eq as_bytes_def)
qed

text \<open>the signature gate admits an envelope exactly when it is signed with ed25519 by the owner's key
  and either no event tag contains a denied term or some environment variable name is rescued; the
  reason it records is the first check that failed, and a rescued name is all upper case, digits and
  underscores, starts with a letter and contains VIRUS.\<close>

theorem sign_gate_admits:
  assumes "\<forall>m. length (sha m) = 32" and "length (sig_bytes sg) = SIGNATURE_LEN"
  shows "(admitted (gate_envelope sha msg sg pk alg tags names) \<longleftrightarrow>
      msg \<noteq> [] \<and> alg = ''ed25519'' \<and> sig_bytes sg = expected_sig_bytes sha pk msg \<and>
      ((\<forall>t \<in> set tags. \<forall>d \<in> set DEFAULT_DENIES. \<not> sublist d t) \<or>
       (\<exists>n \<in> set names. \<exists>c s. n = c # s \<and> is_ascii_uppercase c \<and> sublist ''VIRUS'' n \<and>
          (\<forall>b \<in> set n. is_ascii_uppercase b \<or> is_ascii_digit b \<or> b = CHR ''_'')))) \<and>
     (reason (gate_envelope sha msg sg pk alg tags names) = ''admitted-clean'' \<longleftrightarrow>
      admitted (gate_envelope sha msg sg pk alg tags names) \<and> \<not> allow_rescued (gate_envelope sha msg sg pk alg tags names))"
proof -
  have d: "digest sha" by (rule digest.intro) (simp add: assms(1))
  have v: "is_ok (verify_envelope_signature sha msg sg pk alg) \<longleftrightarrow>
      msg \<noteq> [] \<and> alg = ''ed25519'' \<and> sig_bytes sg = expected_sig_bytes sha pk msg"
    by (simp add: verify_envelope_signature_def digest.verify_iff [OF d assms(2)])
  have a: "task_39_envvar_virus_allow n \<longleftrightarrow> (\<exists>c s. n = c # s \<and> is_ascii_uppercase c \<and> sublist ''VIRUS'' n \<and>
          (\<forall>b \<in> set n. is_ascii_uppercase b \<or> is_ascii_digit b \<or> b = CHR ''_''))" for n
    by (cases n) (auto simp: task_39_envvar_virus_allow_def str_contains_iff list_all_iff simp del: str_contains.simps)
  have dc: "deny_check tags ds \<longleftrightarrow> (\<forall>t \<in> set tags. \<forall>d \<in> set ds. \<not> sublist d t)" for ds
    by (simp add: deny_check_def list_all_iff str_contains_iff)
  have "admitted (gate_envelope sha msg sg pk alg tags names) \<longleftrightarrow>
      msg \<noteq> [] \<and> alg = ''ed25519'' \<and> sig_bytes sg = expected_sig_bytes sha pk msg \<and>
      ((\<forall>t \<in> set tags. \<forall>d \<in> set DEFAULT_DENIES. \<not> sublist d t) \<or>
       (\<exists>n \<in> set names. \<exists>c s. n = c # s \<and> is_ascii_uppercase c \<and> sublist ''VIRUS'' n \<and>
          (\<forall>b \<in> set n. is_ascii_uppercase b \<or> is_ascii_digit b \<or> b = CHR ''_'')))"
    unfolding gate_envelope_def Let_def v by (simp add: list_ex_iff a flip: dc) blast
  moreover have "reason (gate_envelope sha msg sg pk alg tags names) = ''admitted-clean'' \<longleftrightarrow>
      admitted (gate_envelope sha msg sg pk alg tags names) \<and> \<not> allow_rescued (gate_envelope sha msg sg pk alg tags names)"
    by (simp add: gate_envelope_def Let_def)
  ultimately show ?thesis by (rule conjI)
qed

theorem sign_gate_admits_witness:
  "admitted (gate_envelope sha256 [1] (Signature (expected_sig_bytes sha256 (PublicKey [2]) [1])) (PublicKey [2])
      ''ed25519'' [''clean''] [])"
proof -
  have d: "\<forall>m. length (sha256 m) = 32" by simp
  have s: "length (sig_bytes (Signature (expected_sig_bytes sha256 (PublicKey [2]) [1]))) = SIGNATURE_LEN"
    by (simp add: boot_sha.length_expected_sig)
  have "\<not> sublist d ''clean''" if "d \<in> set DEFAULT_DENIES" for d
    using that unfolding str_contains_iff [symmetric] by (auto simp: DEFAULT_DENIES_def)
  then show ?thesis
    using sign_gate_admits [OF d s, of "[1]" "PublicKey [2]" "''ed25519''" "[''clean'']" "[]"] by simp
qed

text \<open>the spawn gate. A launch proceeds exactly when no event tag contains a denied term, the slot is
  in range, the request is in the Micro class, the forward score is at least 720 and the reverse risk
  at most 280; the verdict is the strictest of the three stages' verdicts; and a higher forward score
  or a lower reverse risk never makes it stricter.\<close>

theorem spawn_gate_strictest:
  "(spawn_gate_verdict i = Proceed \<longleftrightarrow>
      deny_check (event_tags i) DEFAULT_DENIES \<and> unat (spawn_slot i) < 64 \<and> spawn_tier i = Micro \<and>
      forward_score_q i \<ge> 720 \<and> reverse_risk_q i \<le> 280) \<and>
   spawn_gate_verdict i =
     max (if deny_check (event_tags i) DEFAULT_DENIES then Proceed else Block)
       (max (case hookwall_pre (spawn_ctx i) of Ok v \<Rightarrow> v | Err _ \<Rightarrow> Block)
            (if forward_score_q i \<ge> 720 \<and> reverse_risk_q i \<le> 280 then Proceed else Hold)) \<and>
   (forward_score_q i \<le> f \<longrightarrow> r \<le> reverse_risk_q i \<longrightarrow>
      spawn_gate_verdict (i\<lparr>forward_score_q := f, reverse_risk_q := r\<rparr>) \<le> spawn_gate_verdict i)"
proof -
  note defs = spawn_gate_verdict_def hookwall_pre_def spawn_ctx_def HOOKWALL_SLOT_COUNT_def GATE_GENIUS_THRESHOLD_Q_def
    GATE_MAX_REVERSE_RISK_Q_def
  have "spawn_gate_verdict i = Proceed \<longleftrightarrow>
      deny_check (event_tags i) DEFAULT_DENIES \<and> unat (spawn_slot i) < 64 \<and> spawn_tier i = Micro \<and>
      forward_score_q i \<ge> 720 \<and> reverse_risk_q i \<le> 280"
    by (cases "spawn_tier i") (auto simp: defs)
  moreover have "spawn_gate_verdict i =
     max (if deny_check (event_tags i) DEFAULT_DENIES then Proceed else Block)
       (max (case hookwall_pre (spawn_ctx i) of Ok v \<Rightarrow> v | Err _ \<Rightarrow> Block)
            (if forward_score_q i \<ge> 720 \<and> reverse_risk_q i \<le> 280 then Proceed else Hold))"
    by (cases "spawn_tier i") (auto simp: defs max_def verdict_order)
  moreover have "spawn_gate_verdict (i\<lparr>forward_score_q := f, reverse_risk_q := r\<rparr>) \<le> spawn_gate_verdict i"
    if "forward_score_q i \<le> f" "r \<le> reverse_risk_q i"
    using that by (cases "spawn_tier i") (auto simp: defs verdict_order dest: order_trans)
  ultimately show ?thesis by blast
qed

theorem spawn_gate_strictest_witness:
  "spawn_gate_verdict (\<lparr>spawn_slot = 3, spawn_syscall_no = 2, spawn_caller_pid = 9, spawn_tier = Micro,
      spawn_target_tier = AccessTier.Public, event_tags = [''boot''], forward_score_q = 700, reverse_risk_q = 100\<rparr>
      \<lparr>forward_score_q := 800, reverse_risk_q := 90\<rparr>) \<le>
   spawn_gate_verdict \<lparr>spawn_slot = 3, spawn_syscall_no = 2, spawn_caller_pid = 9, spawn_tier = Micro,
      spawn_target_tier = AccessTier.Public, event_tags = [''boot''], forward_score_q = 700, reverse_risk_q = 100\<rparr>"
  by (rule spawn_gate_strictest [THEN conjunct2, THEN conjunct2, rule_format]) simp_all

end
