(* ===== verification/Pid.thy ===== *)
theory Pid
  imports Prelude
begin

text \<open>
  The PID grammar \<^verbatim>\<open>kernel/core/src/pid/mod.rs\<close>: parser, minters, validator, subclass classifier and
  fingerprint. A PID is a \<open>string\<close> of bytes; the region byte is a character. The hash is the parameter
  \<open>sha\<close>. Slices such as \<open>&pid[..idx]\<close> are \<open>take\<close> and \<open>drop\<close>; each of them is at an ASCII byte the code has
  just tested, so none of them can panic on a character boundary.
\<close>

section \<open>Data\<close>

definition GRAND :: char where "GRAND = CHR ''G''"
definition HOST :: char where "HOST = CHR ''H''"
definition FEDERATION :: char where "FEDERATION = CHR ''F''"
definition DATA :: char where "DATA = CHR ''D''"

definition KNOWN_ROLES :: "string list" where
  "KNOWN_ROLES = [''OPERATOR'', ''OP-JESSE'', ''OP-RAYSSA'', ''ACER'', ''LIRIS'', ''FALCON'', ''AETHER'',
     ''ASOLARIA-FEDERATION-REMAKE-1024'']"

datatype PidErr =
    MalformedFormat | InvalidRegion | InvalidHostCode | InvalidActivity | InvalidWave
  | InvalidProcess | InvalidNonce | UnknownRole

datatype PidSubclass = Regular | RegularExtended | Anchored | HookwallCp | InfrastructureRouting | Pending

record PidParts =
  role :: string
  region :: char
  host_code :: string
  activity :: string
  wave :: string
  process_tag :: "string option"
  nonce :: "string option"

record AnchorPidParts =
  anchor_role :: string
  date :: string

datatype ParsedPid = Canonical PidParts | Anchor AnchorPidParts

section \<open>Operations\<close>

definition is_valid_role :: "string \<Rightarrow> bool" where
  "is_valid_role r = list_ex (\<lambda>k. k = r) KNOWN_ROLES"

definition is_valid_region :: "char \<Rightarrow> bool" where
  "is_valid_region c = (c = GRAND \<or> c = HOST \<or> c = FEDERATION \<or> c = DATA)"

definition is_valid_host_code :: "string \<Rightarrow> bool" where
  "is_valid_host_code s = (length s = 4 \<and> list_all is_ascii_hexdigit s)"

definition is_valid_hex_n :: "string \<Rightarrow> nat \<Rightarrow> bool" where
  "is_valid_hex_n s n = (length s = n \<and> list_all is_ascii_hexdigit s)"

definition date_ok :: "string \<Rightarrow> bool" where
  "date_ok s = (list_all is_ascii_digit (take 4 s) \<and> list_all is_ascii_digit (take 2 (drop 5 s)) \<and>
                list_all is_ascii_digit (take 2 (drop 8 s)))"

text \<open>The block \<open><letter><n hex digits>\<close>.\<close>

definition block_ok :: "char \<Rightarrow> string \<Rightarrow> nat \<Rightarrow> bool" where
  "block_ok c s n = (starts_with s [c] \<and> is_valid_hex_n (drop 1 s) n)"

definition parse_pid :: "string \<Rightarrow> (ParsedPid, PidErr) result" where
  "parse_pid pid =
     (case str_rfind pid ''-PID-'' of
        None \<Rightarrow> Err MalformedFormat
      | Some idx \<Rightarrow>
          let rl = take idx pid;
              tail = drop (idx + 5) pid
          in if length tail = 10 \<and> tail ! 4 = CHR ''-'' \<and> tail ! 7 = CHR ''-'' \<and> date_ok tail
             then Ok (Anchor \<lparr>anchor_role = rl, date = tail\<rparr>)
             else
               let parts = str_split (CHR ''-'') tail
               in if length parts \<noteq> 3 \<and> length parts \<noteq> 5 then Err MalformedFormat
                  else
                    let region_host = parts ! 0; activity_block = parts ! 1; wave_block = parts ! 2
                    in if length region_host \<noteq> 5 then Err MalformedFormat
                       else if \<not> is_valid_region (region_host ! 0) then Err InvalidRegion
                       else if \<not> is_valid_host_code (drop 1 region_host) then Err InvalidHostCode
                       else if \<not> block_ok (CHR ''A'') activity_block 2 then Err InvalidActivity
                       else if \<not> block_ok (CHR ''W'') wave_block 3 then Err InvalidWave
                       else if length parts = 5 \<and> \<not> block_ok (CHR ''P'') (parts ! 3) 2 then Err InvalidProcess
                       else if length parts = 5 \<and> \<not> block_ok (CHR ''N'') (parts ! 4) 5 then Err InvalidNonce
                       else Ok (Canonical
                         \<lparr>role = rl, region = region_host ! 0, host_code = drop 1 region_host,
                          activity = drop 1 activity_block, wave = drop 1 wave_block,
                          process_tag = (if length parts = 5 then Some (drop 1 (parts ! 3)) else None),
                          nonce = (if length parts = 5 then Some (drop 1 (parts ! 4)) else None)\<rparr>))"

definition classify_subclass :: "string \<Rightarrow> PidSubclass" where
  "classify_subclass pid =
     (case parse_pid pid of
        Ok (Canonical p) \<Rightarrow>
          if process_tag p \<noteq> None \<and> nonce p \<noteq> None then RegularExtended else Regular
      | Ok (Anchor _) \<Rightarrow> Anchored
      | Err _ \<Rightarrow> Pending)"

definition is_in_subclass :: "string \<Rightarrow> PidSubclass \<Rightarrow> bool" where
  "is_in_subclass pid sub = (classify_subclass pid = sub \<and> sub \<noteq> Pending)"

definition validate_pid :: "string \<Rightarrow> bool \<Rightarrow> (unit, PidErr) result" where
  "validate_pid pid strict_role =
     (case parse_pid pid of
        Err e \<Rightarrow> Err e
      | Ok parsed \<Rightarrow>
          if strict_role \<and>
             \<not> is_valid_role (case parsed of Canonical p \<Rightarrow> role p | Anchor p \<Rightarrow> anchor_role p)
          then Err UnknownRole else Ok ())"

definition validate_subclass :: "string \<Rightarrow> (PidSubclass, PidErr) result" where
  "validate_subclass pid =
     (case validate_pid pid False of Err e \<Rightarrow> Err e | Ok _ \<Rightarrow> Ok (classify_subclass pid))"

definition mint_pid :: "string \<Rightarrow> char \<Rightarrow> string \<Rightarrow> string \<Rightarrow> string \<Rightarrow> (string, PidErr) result" where
  "mint_pid rl rg host act wv =
     (if \<not> is_valid_region rg then Err InvalidRegion
      else if \<not> is_valid_host_code host then Err InvalidHostCode
      else if \<not> is_valid_hex_n act 2 then Err InvalidActivity
      else if \<not> is_valid_hex_n wv 3 then Err InvalidWave
      else Ok (rl @ ''-PID-'' @ [rg] @ host @ ''-A'' @ act @ ''-W'' @ wv))"

definition mint_pid_extended ::
    "string \<Rightarrow> char \<Rightarrow> string \<Rightarrow> string \<Rightarrow> string \<Rightarrow> string \<Rightarrow> string \<Rightarrow> (string, PidErr) result" where
  "mint_pid_extended rl rg host act wv proc non =
     (case mint_pid rl rg host act wv of
        Err e \<Rightarrow> Err e
      | Ok s \<Rightarrow>
          if \<not> is_valid_hex_n proc 2 then Err InvalidProcess
          else if \<not> is_valid_hex_n non 5 then Err InvalidNonce
          else Ok (s @ ''-P'' @ proc @ ''-N'' @ non))"

definition mint_anchor_pid :: "string \<Rightarrow> string \<Rightarrow> (string, PidErr) result" where
  "mint_anchor_pid rl dt =
     (if length dt \<noteq> 10 then Err MalformedFormat
      else if dt ! 4 \<noteq> CHR ''-'' \<or> dt ! 7 \<noteq> CHR ''-'' then Err MalformedFormat
      else if \<not> date_ok dt then Err MalformedFormat
      else Ok (rl @ ''-PID-'' @ dt))"

definition pid_fingerprint_sha16 :: "(bytes \<Rightarrow> bytes) \<Rightarrow> string \<Rightarrow> string" where
  "pid_fingerprint_sha16 sha pid = concat (map hex_byte (take 8 (sha (as_bytes pid))))"

section \<open>Printing a parsed PID\<close>

text \<open>The minter for each form; a canonical PID has both suffix tags or none.\<close>

definition mint_parsed :: "ParsedPid \<Rightarrow> (string, PidErr) result" where
  "mint_parsed p =
     (case p of
        Anchor a \<Rightarrow> mint_anchor_pid (anchor_role a) (date a)
      | Canonical c \<Rightarrow>
          (case (process_tag c, nonce c) of
             (None, None) \<Rightarrow> mint_pid (role c) (region c) (host_code c) (activity c) (wave c)
           | (Some t, Some n) \<Rightarrow> mint_pid_extended (role c) (region c) (host_code c) (activity c) (wave c) t n
           | _ \<Rightarrow> Err MalformedFormat))"

section \<open>Lemmas\<close>

lemma hexdigit_not_dash: "is_ascii_hexdigit c \<Longrightarrow> c \<noteq> CHR ''-''"
  by (auto simp: is_ascii_hexdigit_def is_ascii_digit_def byte_of_def)

lemma digit_not_dash: "is_ascii_digit c \<Longrightarrow> c \<noteq> CHR ''-''"
  by (auto simp: is_ascii_digit_def byte_of_def)

lemma hex_no_dash: "list_all is_ascii_hexdigit s \<Longrightarrow> CHR ''-'' \<notin> set s"
  by (auto simp: list_all_iff dest: hexdigit_not_dash)

lemma region_not_dash: "is_valid_region c \<Longrightarrow> c \<noteq> CHR ''-'' \<and> c \<noteq> CHR ''P''"
  by (auto simp: is_valid_region_def GRAND_def HOST_def FEDERATION_def DATA_def)

text \<open>A dash that starts \<open>-PID-\<close> is followed by \<open>PID-\<close>; after a dash of a minted tail comes another
  letter, or \<open>P\<close> and two hexadecimal digits.\<close>

lemma pid_find_skip: "CHR ''-'' \<notin> set s \<Longrightarrow> str_contains (s @ t) ''-PID-'' = str_contains t ''-PID-''"
  by (induction s) auto

lemma pid_find_dash: "(\<forall>u. t \<noteq> ''PID-'' @ u) \<Longrightarrow> str_contains (CHR ''-'' # t) ''-PID-'' = str_contains t ''-PID-''"
  by (auto simp: prefix_def)

lemma rfind_mint:
  assumes "\<not> str_contains (''PID-'' @ tail) ''-PID-''"
  shows "str_rfind (rl @ ''-PID-'' @ tail) ''-PID-'' = Some (length rl)"
  using assms by (intro str_rfind_append) simp_all

lemma tail_no_marker:
  assumes "is_valid_region rg" and "list_all is_ascii_hexdigit host" and "list_all is_ascii_hexdigit act"
    and "list_all is_ascii_hexdigit wv" and "rest = [] \<or> (\<exists>p n. rest = ''-P'' @ p @ ''-N'' @ n \<and> length p = 2 \<and>
       list_all is_ascii_hexdigit p \<and> list_all is_ascii_hexdigit n)"
  shows "\<not> str_contains (''PID-'' @ [rg] @ host @ ''-A'' @ act @ ''-W'' @ wv @ rest) ''-PID-''"
proof -
  have nil: "\<not> str_contains [] ''-PID-''" by simp
  have rest: "\<not> str_contains rest ''-PID-''"
    using assms(5)
  proof (elim disjE exE conjE)
    fix p n assume r: "rest = ''-P'' @ p @ ''-N'' @ n" "length p = 2" "list_all is_ascii_hexdigit p" "list_all is_ascii_hexdigit n"
    obtain a b where p: "p = [a, b]" using r(2) by (auto simp: numeral_eq_Suc length_Suc_conv)
    have "a \<noteq> CHR ''I''" "a \<noteq> CHR ''-''" "b \<noteq> CHR ''-''"
      using r(3) p by (auto simp: is_ascii_hexdigit_def is_ascii_digit_def byte_of_def)
    moreover have "\<not> str_contains n ''-PID-''" using pid_find_skip [OF hex_no_dash [OF r(4)], of "[]"] nil by simp
    ultimately show ?thesis using r(1) p by simp
  qed simp
  have w: "\<not> str_contains (wv @ rest) ''-PID-''" using pid_find_skip [OF hex_no_dash [OF assms(4)]] rest by simp
  have a: "\<not> str_contains (act @ ''-W'' @ wv @ rest) ''-PID-''"
    using pid_find_skip [OF hex_no_dash [OF assms(3)]] w by simp
  have "\<not> str_contains (host @ ''-A'' @ act @ ''-W'' @ wv @ rest) ''-PID-''"
    using pid_find_skip [OF hex_no_dash [OF assms(2)]] a by simp
  then show ?thesis using region_not_dash [OF assms(1)] by auto
qed

lemma split_blocks:
  assumes "CHR ''-'' \<notin> set (x # xs)" and "CHR ''-'' \<notin> set ys" and "CHR ''-'' \<notin> set zs"
  shows "str_split (CHR ''-'') (x # xs @ ''-A'' @ ys @ ''-W'' @ zs) = [x # xs, CHR ''A'' # ys, CHR ''W'' # zs]"
  using assms by (auto simp: str_split_append str_split_no_sep)

lemma split_blocks_ext:
  assumes "CHR ''-'' \<notin> set (x # xs)" and "CHR ''-'' \<notin> set ys" and "CHR ''-'' \<notin> set zs"
    and "CHR ''-'' \<notin> set us" and "CHR ''-'' \<notin> set vs"
  shows "str_split (CHR ''-'') (x # xs @ ''-A'' @ ys @ ''-W'' @ zs @ ''-P'' @ us @ ''-N'' @ vs) =
    [x # xs, CHR ''A'' # ys, CHR ''W'' # zs, CHR ''P'' # us, CHR ''N'' # vs]"
  using assms by (auto simp: str_split_append str_split_no_sep)

lemma block_ok_cons [simp]: "block_ok c (c # s) n = is_valid_hex_n s n"
  by (simp add: block_ok_def starts_with_def)

lemma parse_tail:
  assumes "\<not> str_contains (''PID-'' @ tail) ''-PID-''"
  shows "parse_pid (rl @ ''-PID-'' @ tail) =
     (if length tail = 10 \<and> tail ! 4 = CHR ''-'' \<and> tail ! 7 = CHR ''-'' \<and> date_ok tail
      then Ok (Anchor \<lparr>anchor_role = rl, date = tail\<rparr>)
      else
        let parts = str_split (CHR ''-'') tail
        in if length parts \<noteq> 3 \<and> length parts \<noteq> 5 then Err MalformedFormat
           else
             let region_host = parts ! 0; activity_block = parts ! 1; wave_block = parts ! 2
             in if length region_host \<noteq> 5 then Err MalformedFormat
                else if \<not> is_valid_region (region_host ! 0) then Err InvalidRegion
                else if \<not> is_valid_host_code (drop 1 region_host) then Err InvalidHostCode
                else if \<not> block_ok (CHR ''A'') activity_block 2 then Err InvalidActivity
                else if \<not> block_ok (CHR ''W'') wave_block 3 then Err InvalidWave
                else if length parts = 5 \<and> \<not> block_ok (CHR ''P'') (parts ! 3) 2 then Err InvalidProcess
                else if length parts = 5 \<and> \<not> block_ok (CHR ''N'') (parts ! 4) 5 then Err InvalidNonce
                else Ok (Canonical
                  \<lparr>role = rl, region = region_host ! 0, host_code = drop 1 region_host,
                   activity = drop 1 activity_block, wave = drop 1 wave_block,
                   process_tag = (if length parts = 5 then Some (drop 1 (parts ! 3)) else None),
                   nonce = (if length parts = 5 then Some (drop 1 (parts ! 4)) else None)\<rparr>))"
proof -
  have "take (length rl) (rl @ ''-PID-'' @ tail) = rl" "drop (length rl + 5) (rl @ ''-PID-'' @ tail) = tail" by simp_all
  then show ?thesis unfolding parse_pid_def rfind_mint [OF assms] by (simp only: option.case Let_def)
qed

lemma mint_pid_Ok:
  "mint_pid rl rg host act wv = Ok s \<longleftrightarrow>
     is_valid_region rg \<and> is_valid_host_code host \<and> is_valid_hex_n act 2 \<and> is_valid_hex_n wv 3 \<and>
     s = rl @ ''-PID-'' @ [rg] @ host @ ''-A'' @ act @ ''-W'' @ wv"
  by (auto simp: mint_pid_def)

lemma mint_pid_extended_Ok:
  "mint_pid_extended rl rg host act wv pr no = Ok s \<longleftrightarrow>
     is_valid_region rg \<and> is_valid_host_code host \<and> is_valid_hex_n act 2 \<and> is_valid_hex_n wv 3 \<and>
     is_valid_hex_n pr 2 \<and> is_valid_hex_n no 5 \<and>
     s = rl @ ''-PID-'' @ [rg] @ host @ ''-A'' @ act @ ''-W'' @ wv @ ''-P'' @ pr @ ''-N'' @ no"
  by (auto simp: mint_pid_extended_def mint_pid_def)

lemma parse_mint_short:
  assumes "mint_pid rl rg host act wv = Ok s"
  shows "parse_pid s = Ok (Canonical \<lparr>role = rl, region = rg, host_code = host, activity = act, wave = wv,
     process_tag = None, nonce = None\<rparr>)"
proof -
  have v: "is_valid_region rg" "is_valid_host_code host" "is_valid_hex_n act 2" "is_valid_hex_n wv 3"
    and s: "s = rl @ ''-PID-'' @ [rg] @ host @ ''-A'' @ act @ ''-W'' @ wv"
    using assms by (simp_all add: mint_pid_Ok)
  have h: "list_all is_ascii_hexdigit host" "list_all is_ascii_hexdigit act" "list_all is_ascii_hexdigit wv"
    and l: "length host = 4" "length act = 2" "length wv = 3"
    using v by (simp_all add: is_valid_host_code_def is_valid_hex_n_def)
  have sp: "str_split (CHR ''-'') (rg # host @ ''-A'' @ act @ ''-W'' @ wv) = [rg # host, CHR ''A'' # act, CHR ''W'' # wv]"
    using h region_not_dash [OF v(1)] by (intro split_blocks) (auto dest: hex_no_dash)
  show ?thesis
    using tail_no_marker [OF v(1) h, of "[]"] sp v l
    by (simp add: s parse_tail [of "rg # host @ ''-A'' @ act @ ''-W'' @ wv" rl, simplified])
qed

lemma parse_mint_ext:
  assumes "mint_pid_extended rl rg host act wv pr no = Ok s"
  shows "parse_pid s = Ok (Canonical \<lparr>role = rl, region = rg, host_code = host, activity = act, wave = wv,
     process_tag = Some pr, nonce = Some no\<rparr>)"
proof -
  have v: "is_valid_region rg" "is_valid_host_code host" "is_valid_hex_n act 2" "is_valid_hex_n wv 3"
    "is_valid_hex_n pr 2" "is_valid_hex_n no 5"
    and s: "s = rl @ ''-PID-'' @ [rg] @ host @ ''-A'' @ act @ ''-W'' @ wv @ ''-P'' @ pr @ ''-N'' @ no"
    using assms by (simp_all add: mint_pid_extended_Ok)
  have h: "list_all is_ascii_hexdigit host" "list_all is_ascii_hexdigit act" "list_all is_ascii_hexdigit wv"
    and h2: "list_all is_ascii_hexdigit pr" "list_all is_ascii_hexdigit no"
    and l: "length host = 4" "length act = 2" "length wv = 3" "length pr = 2" "length no = 5"
    using v by (simp_all add: is_valid_host_code_def is_valid_hex_n_def)
  have sp: "str_split (CHR ''-'') (rg # host @ ''-A'' @ act @ ''-W'' @ wv @ ''-P'' @ pr @ ''-N'' @ no) =
      [rg # host, CHR ''A'' # act, CHR ''W'' # wv, CHR ''P'' # pr, CHR ''N'' # no]"
    using h h2 region_not_dash [OF v(1)] by (intro split_blocks_ext) (auto dest: hex_no_dash)
  have "\<not> str_contains (''PID-'' @ [rg] @ host @ ''-A'' @ act @ ''-W'' @ wv @ ''-P'' @ pr @ ''-N'' @ no) ''-PID-''"
    using h2 l by (intro tail_no_marker [OF v(1) h]) auto
  then show ?thesis
    using sp v l
    by (simp add: s parse_tail [of "rg # host @ ''-A'' @ act @ ''-W'' @ wv @ ''-P'' @ pr @ ''-N'' @ no" rl, simplified])
qed

lemma date_shape:
  assumes "length dt = 10" and "dt ! 4 = CHR ''-''" and "dt ! 7 = CHR ''-''" and "date_ok dt"
  shows "\<not> str_contains (''PID-'' @ dt) ''-PID-''"
proof -
  have "\<exists>a b c d e f g h i j. dt = [a, b, c, d, e, f, g, h, i, j]"
    using assms(1) by (auto simp: numeral_eq_Suc length_Suc_conv)
  then obtain a b c d e f g h i j where dt: "dt = [a, b, c, d, e, f, g, h, i, j]" by blast
  have np: "is_ascii_digit x \<Longrightarrow> x \<noteq> CHR ''-'' \<and> x \<noteq> CHR ''P''" for x
    by (auto simp: is_ascii_digit_def byte_of_def)
  then show ?thesis using assms unfolding dt date_ok_def by (auto dest!: np)
qed

lemma parse_mint_anchor:
  assumes "mint_anchor_pid rl dt = Ok s"
  shows "parse_pid s = Ok (Anchor \<lparr>anchor_role = rl, date = dt\<rparr>)"
proof -
  have v: "length dt = 10" "dt ! 4 = CHR ''-''" "dt ! 7 = CHR ''-''" "date_ok dt" and s: "s = rl @ ''-PID-'' @ dt"
    using assms by (auto simp: mint_anchor_pid_def split: if_splits)
  show ?thesis using v by (simp only: s parse_tail [OF date_shape [OF v]]) simp
qed

text \<open>What the parser accepts, taken apart.\<close>

lemma block_ok_split: "block_ok c b n \<Longrightarrow> b = c # drop 1 b \<and> is_valid_hex_n (drop 1 b) n"
  by (cases b) (auto simp: block_ok_def starts_with_def)

lemma parse_pid_mint:
  assumes "parse_pid s = Ok p"
  shows "mint_parsed p = Ok s"
proof -
  obtain idx where idx: "str_rfind s ''-PID-'' = Some idx"
    using assms by (auto simp: parse_pid_def split: option.splits)
  define rl tail parts where "rl = take idx s" and "tail = drop (idx + 5) s" and "parts = str_split (CHR ''-'') tail"
  have five: "length ''-PID-'' = 5" by simp
  have s: "s = rl @ ''-PID-'' @ tail"
    using str_rfind_Some [OF idx, unfolded five] unfolding rl_def tail_def by (rule conjunct2)
  have join: "str_join (CHR ''-'') parts = tail" by (simp add: parts_def str_join_split)
  show ?thesis
  proof (cases "length tail = 10 \<and> tail ! 4 = CHR ''-'' \<and> tail ! 7 = CHR ''-'' \<and> date_ok tail")
    case True
    then have "p = Anchor \<lparr>anchor_role = rl, date = tail\<rparr>"
      using assms idx by (simp add: parse_pid_def rl_def tail_def Let_def)
    then show ?thesis using True s by (simp add: mint_parsed_def mint_anchor_pid_def)
  next
    case False
    have run: "length parts = 3 \<or> length parts = 5" "length (parts ! 0) = 5" "is_valid_region (parts ! 0 ! 0)"
      "is_valid_host_code (drop 1 (parts ! 0))" "block_ok (CHR ''A'') (parts ! 1) 2" "block_ok (CHR ''W'') (parts ! 2) 3"
      "length parts = 5 \<longrightarrow> block_ok (CHR ''P'') (parts ! 3) 2 \<and> block_ok (CHR ''N'') (parts ! 4) 5"
      and p: "p = Canonical \<lparr>role = rl, region = parts ! 0 ! 0, host_code = drop 1 (parts ! 0),
                 activity = drop 1 (parts ! 1), wave = drop 1 (parts ! 2),
                 process_tag = (if length parts = 5 then Some (drop 1 (parts ! 3)) else None),
                 nonce = (if length parts = 5 then Some (drop 1 (parts ! 4)) else None)\<rparr>"
      using assms False unfolding parse_pid_def idx option.case Let_def rl_def [symmetric] tail_def [symmetric]
        parts_def [symmetric] by (auto split: if_splits)
    note blk = block_ok_split [OF run(5)] block_ok_split [OF run(6)]
    have b0: "parts ! 0 = parts ! 0 ! 0 # drop 1 (parts ! 0)" using run(2) by (cases "parts ! 0") auto
    from run(1) show ?thesis
    proof
      assume l: "length parts = 3"
      then have "parts = [parts ! 0, parts ! 1, parts ! 2]" by (auto simp: numeral_eq_Suc length_Suc_conv)
      then have "tail = parts ! 0 @ CHR ''-'' # parts ! 1 @ CHR ''-'' # parts ! 2"
        using join by (metis str_join.simps(2,3))
      then have "tail = [parts ! 0 ! 0] @ drop 1 (parts ! 0) @ ''-A'' @ drop 1 (parts ! 1) @ ''-W'' @ drop 1 (parts ! 2)"
        using b0 blk by (metis append_Cons append_Nil)
      then show ?thesis using p l s run blk by (simp add: mint_parsed_def mint_pid_Ok)
    next
      assume l: "length parts = 5"
      then have "parts = [parts ! 0, parts ! 1, parts ! 2, parts ! 3, parts ! 4]"
        by (auto simp: numeral_eq_Suc length_Suc_conv)
      then have t: "tail = parts ! 0 @ CHR ''-'' # parts ! 1 @ CHR ''-'' # parts ! 2 @ CHR ''-'' # parts ! 3 @ CHR ''-'' # parts ! 4"
        using join by (metis str_join.simps(2,3))
      note blk2 = block_ok_split [OF run(7) [THEN mp, OF l, THEN conjunct1]] block_ok_split [OF run(7) [THEN mp, OF l, THEN conjunct2]]
      have "tail = [parts ! 0 ! 0] @ drop 1 (parts ! 0) @ ''-A'' @ drop 1 (parts ! 1) @ ''-W'' @ drop 1 (parts ! 2) @
          ''-P'' @ drop 1 (parts ! 3) @ ''-N'' @ drop 1 (parts ! 4)"
        using t b0 blk blk2 by (metis append_Cons append_Nil)
      then show ?thesis using p l s run blk blk2 by (simp add: mint_parsed_def mint_pid_extended_Ok)
    qed
  qed
qed

lemma parse_iff_mint: "parse_pid s = Ok p \<longleftrightarrow> mint_parsed p = Ok s"
proof
  assume m: "mint_parsed p = Ok s"
  show "parse_pid s = Ok p"
  proof (cases p)
    case (Anchor a)
    then show ?thesis using m parse_mint_anchor by (simp add: mint_parsed_def)
  next
    case (Canonical c)
    then show ?thesis
      using m parse_mint_short parse_mint_ext
      by (cases "process_tag c"; cases "nonce c") (auto simp: mint_parsed_def)
  qed
qed (rule parse_pid_mint)

section \<open>Properties\<close>

text \<open>C21: parsing and minting are inverse to each other. A string parses as a PID with given parts exactly
  when minting those parts (short, extended or anchor form) gives that string, whatever the role
  text; so every PID has exactly one reading and every reading one PID.\<close>

theorem pid_parse_mint: "parse_pid s = Ok p \<longleftrightarrow> mint_parsed p = Ok s"
  by (rule parse_iff_mint)

text \<open>the subclass of a PID is determined by its form: minting in the extended form gives
  \<open>RegularExtended\<close>, in the short form \<open>Regular\<close>, with a date \<open>Anchored\<close>, and \<open>Pending\<close> is given exactly to
  the strings that do not parse; the two remaining subclasses are never given. Validation succeeds
  exactly on the others, and in strict mode only for the eight known roles.\<close>

theorem pid_subclasses:
  "(classify_subclass s = RegularExtended \<longleftrightarrow> (\<exists>r g h a w t n. mint_pid_extended r g h a w t n = Ok s)) \<and>
   (classify_subclass s = Regular \<longleftrightarrow> (\<exists>r g h a w. mint_pid r g h a w = Ok s)) \<and>
   (classify_subclass s = Anchored \<longleftrightarrow> (\<exists>r d. mint_anchor_pid r d = Ok s)) \<and>
   (classify_subclass s = Pending \<longleftrightarrow> \<not> is_ok (parse_pid s)) \<and>
   classify_subclass s \<notin> {HookwallCp, InfrastructureRouting} \<and>
   (is_ok (validate_pid s False) \<longleftrightarrow> classify_subclass s \<noteq> Pending) \<and>
   (is_ok (validate_pid s True) \<longleftrightarrow> (\<exists>p. parse_pid s = Ok p \<and>
      (case p of Canonical c \<Rightarrow> role c | Anchor a \<Rightarrow> anchor_role a) \<in> set KNOWN_ROLES))"
proof -
  have ext: "classify_subclass s = RegularExtended \<longleftrightarrow> (\<exists>r g h a w t n. mint_pid_extended r g h a w t n = Ok s)"
  proof
    assume "classify_subclass s = RegularExtended"
    then obtain c t n where c: "parse_pid s = Ok (Canonical c)" "process_tag c = Some t" "nonce c = Some n"
      by (auto simp: classify_subclass_def split: result.splits ParsedPid.splits if_splits)
    then show "\<exists>r g h a w t n. mint_pid_extended r g h a w t n = Ok s"
      using parse_pid_mint [OF c(1)] c by (simp add: mint_parsed_def) blast
  qed (auto dest!: parse_mint_ext simp: classify_subclass_def)
  have short: "classify_subclass s = Regular \<longleftrightarrow> (\<exists>r g h a w. mint_pid r g h a w = Ok s)"
  proof
    assume "classify_subclass s = Regular"
    then obtain c where c: "parse_pid s = Ok (Canonical c)" "process_tag c = None \<or> nonce c = None"
      by (auto simp: classify_subclass_def split: result.splits ParsedPid.splits if_splits)
    then show "\<exists>r g h a w. mint_pid r g h a w = Ok s"
      using parse_pid_mint [OF c(1)] by (cases "process_tag c"; cases "nonce c") (auto simp: mint_parsed_def intro!: exI)
  qed (auto dest!: parse_mint_short simp: classify_subclass_def)
  have anchor: "classify_subclass s = Anchored \<longleftrightarrow> (\<exists>r d. mint_anchor_pid r d = Ok s)"
  proof
    assume "classify_subclass s = Anchored"
    then obtain c where c: "parse_pid s = Ok (Anchor c)"
      by (auto simp: classify_subclass_def split: result.splits ParsedPid.splits if_splits)
    then show "\<exists>r d. mint_anchor_pid r d = Ok s" using parse_pid_mint [OF c] by (auto simp: mint_parsed_def)
  qed (auto dest!: parse_mint_anchor simp: classify_subclass_def)
  have rest: "(classify_subclass s = Pending \<longleftrightarrow> \<not> is_ok (parse_pid s)) \<and>
     classify_subclass s \<notin> {HookwallCp, InfrastructureRouting} \<and>
     (is_ok (validate_pid s False) \<longleftrightarrow> classify_subclass s \<noteq> Pending) \<and>
     (is_ok (validate_pid s True) \<longleftrightarrow> (\<exists>p. parse_pid s = Ok p \<and>
        (case p of Canonical c \<Rightarrow> role c | Anchor a \<Rightarrow> anchor_role a) \<in> set KNOWN_ROLES))"
    by (auto simp: classify_subclass_def validate_pid_def is_valid_role_def list_ex_iff split: result.splits ParsedPid.splits)
  show ?thesis using ext short anchor rest by blast
qed

end
