(* ===== verification/Agent_Runtime.thy ===== *)
theory Agent_Runtime
  imports Syscall_Types
begin

text \<open>
  The agent registry \<^verbatim>\<open>kernel/core/src/agent_runtime/mod.rs\<close>: registration of agents in three dispatch
  classes with a counter per class, retirement and heartbeats, the FNV-minted agent PIDs, and the
  child-handle counter behind \<open>sys_fork\<close>. Counters are \<open>u64\<close> and wrap.
\<close>

section \<open>Data\<close>

datatype AgentState = Spawned | Working | Heartbeating | Failed | Retired

datatype AgentRole =
  Hermes | SpaceDeckDriver | SpaceAgent | Pi | Omnispindle | Omniflywheel | BigPickle | SubAgent

datatype AgentClass = VirtualPointer | RealReceiptGated | Ambiguous

datatype VantageId = Acer | Liris | Falcon | Aether

datatype AgentErr =
    RegistryFull | PidMintFailed | NotFound | InvalidStateTransition | OperatorWitnessRequired
  | Unimplemented

record AgentEntry =
  agent_pid :: string
  agent_role :: AgentRole
  agent_state :: AgentState
  vantage :: VantageId
  agent_tier :: AccessTier
  agent_class :: AgentClass
  spawned_at_ns :: u64
  last_heartbeat_ns :: u64

definition AGENT_REGISTRY_MAX :: nat where "AGENT_REGISTRY_MAX = 10000"
definition SUBSTRATE_COUNT :: nat where "SUBSTRATE_COUNT = 2"
definition AGENT_REGISTRY_MAX_TOTAL :: nat where "AGENT_REGISTRY_MAX_TOTAL = AGENT_REGISTRY_MAX * SUBSTRATE_COUNT"
definition HEARTBEAT_TIMEOUT_NS :: u64 where "HEARTBEAT_TIMEOUT_NS = 60 * 1000000000"
definition GULP_THRESHOLD :: u32 where "GULP_THRESHOLD = 2000"

record DispatchCounters =
  virtual_registered :: u64
  omnidispatch_routed :: u64
  receipt_gated_helper :: u64
  opencode_free_agent_call :: u64
  os_process_spawn :: u64
  ambiguous_held :: u64

record AgentRegistry =
  entries :: "AgentEntry list"
  counters :: DispatchCounters

section \<open>PIDs of agents\<close>

text \<open>\<open>role as u64\<close>, \<open>vantage as u64\<close>, \<open>tier as u64\<close>: the declaration order.\<close>

fun role_code :: "AgentRole \<Rightarrow> u64" where
  "role_code Hermes = 0"
| "role_code SpaceDeckDriver = 1"
| "role_code SpaceAgent = 2"
| "role_code Pi = 3"
| "role_code Omnispindle = 4"
| "role_code Omniflywheel = 5"
| "role_code BigPickle = 6"
| "role_code SubAgent = 7"

fun vantage_code :: "VantageId \<Rightarrow> u64" where
  "vantage_code Acer = 0"
| "vantage_code Liris = 1"
| "vantage_code Falcon = 2"
| "vantage_code Aether = 3"

fun role_tag :: "AgentRole \<Rightarrow> string" where
  "role_tag Hermes = ''HRM''"
| "role_tag SpaceDeckDriver = ''SDD''"
| "role_tag SpaceAgent = ''SPA''"
| "role_tag Pi = ''PI''"
| "role_tag Omnispindle = ''SPN''"
| "role_tag Omniflywheel = ''FLY''"
| "role_tag BigPickle = ''BPK''"
| "role_tag SubAgent = ''SUB''"

fun vantage_tag :: "VantageId \<Rightarrow> string" where
  "vantage_tag Acer = ''ACER''"
| "vantage_tag Liris = ''LIRIS''"
| "vantage_tag Falcon = ''FALCON''"
| "vantage_tag Aether = ''AETHER''"

definition FNV_OFFSET :: u64 where "FNV_OFFSET = 0xcbf29ce484222325"
definition FNV_PRIME :: u64 where "FNV_PRIME = 0x100000001b3"

definition fnv_step :: "u64 \<Rightarrow> u8 \<Rightarrow> u64" where
  "fnv_step h b = (h XOR ucast b) * FNV_PRIME"

definition fnv1a64 :: "u64 list \<Rightarrow> u64" where
  "fnv1a64 parts = foldl (\<lambda>h p. foldl fnv_step h (le_bytes 8 p)) FNV_OFFSET parts"

text \<open>\<open>{:012X}\<close>: twelve upper-case hexadecimal digits, most significant first.\<close>

definition HEX_UPPER :: string where "HEX_UPPER = ''0123456789ABCDEF''"

definition hex12 :: "u64 \<Rightarrow> string" where
  "hex12 v = map (\<lambda>i. HEX_UPPER ! unat (drop_bit (4 * i) v AND 0xF)) (rev [0..<12])"

definition mint_agent_pid :: "u64 \<Rightarrow> AgentRole \<Rightarrow> VantageId \<Rightarrow> AccessTier \<Rightarrow> string" where
  "mint_agent_pid handle rl v t =
     (let seed = fnv1a64 [handle, role_code rl, vantage_code v, ucast (tier_rank t)];
          low48 = seed AND 0x0000FFFFFFFFFFFF
      in ''AGT-'' @ vantage_tag v @ ''-'' @ role_tag rl @ ''-H'' @ hex12 low48)"

section \<open>The registry\<close>

definition classify_request :: "u32 \<Rightarrow> bool \<Rightarrow> AgentClass" where
  "classify_request planned_os_spawns has_receipt =
     (if planned_os_spawns = 0 then VirtualPointer
      else if has_receipt then RealReceiptGated else Ambiguous)"

definition registry_new :: AgentRegistry where
  "registry_new = \<lparr>entries = [],
     counters = \<lparr>virtual_registered = 0, omnidispatch_routed = 0, receipt_gated_helper = 0,
                 opencode_free_agent_call = 0, os_process_spawn = 0, ambiguous_held = 0\<rparr>\<rparr>"

definition note_omnidispatch_routed :: "AgentRegistry \<Rightarrow> AgentRegistry" where
  "note_omnidispatch_routed r =
     r\<lparr>counters := (counters r)\<lparr>omnidispatch_routed := omnidispatch_routed (counters r) + 1\<rparr>\<rparr>"

definition note_opencode_free_agent_call :: "AgentRegistry \<Rightarrow> AgentRegistry" where
  "note_opencode_free_agent_call r =
     r\<lparr>counters := (counters r)\<lparr>opencode_free_agent_call := opencode_free_agent_call (counters r) + 1\<rparr>\<rparr>"

definition note_os_process_spawn :: "AgentRegistry \<Rightarrow> AgentRegistry" where
  "note_os_process_spawn r =
     r\<lparr>counters := (counters r)\<lparr>os_process_spawn := os_process_spawn (counters r) + 1\<rparr>\<rparr>"

definition live :: "AgentEntry \<Rightarrow> bool" where
  "live e = (agent_state e \<noteq> Retired)"

definition count :: "AgentRegistry \<Rightarrow> nat" where
  "count r = length (filter live (entries r))"

definition count_in_vantage :: "VantageId \<Rightarrow> AgentRegistry \<Rightarrow> nat" where
  "count_in_vantage v r = length (filter (\<lambda>e. vantage e = v \<and> live e) (entries r))"

definition bump_class :: "AgentClass \<Rightarrow> DispatchCounters \<Rightarrow> DispatchCounters" where
  "bump_class c k =
     (case c of
        VirtualPointer \<Rightarrow> k\<lparr>virtual_registered := virtual_registered k + 1\<rparr>
      | RealReceiptGated \<Rightarrow> k\<lparr>receipt_gated_helper := receipt_gated_helper k + 1\<rparr>
      | Ambiguous \<Rightarrow> k\<lparr>ambiguous_held := ambiguous_held k + 1\<rparr>)"

definition register ::
    "AgentRole \<Rightarrow> VantageId \<Rightarrow> AccessTier \<Rightarrow> AgentClass \<Rightarrow> AgentRegistry \<Rightarrow> (string, AgentErr) result \<times> AgentRegistry" where
  "register rl v t c r =
     (if count r \<ge> AGENT_REGISTRY_MAX then (Err RegistryFull, r)
      else let handle = word_of_nat (length (entries r)) + 1;
               pid = mint_agent_pid handle rl v t
           in if pid = [] then (Err PidMintFailed, r)
              else (Ok pid,
                r\<lparr>entries := entries r @ [\<lparr>agent_pid = pid, agent_role = rl, agent_state = Spawned, vantage = v,
                     agent_tier = t, agent_class = c, spawned_at_ns = 0, last_heartbeat_ns = 0\<rparr>],
                  counters := bump_class c (counters r)\<rparr>))"

definition spawn ::
    "AgentRole \<Rightarrow> VantageId \<Rightarrow> AccessTier \<Rightarrow> AgentRegistry \<Rightarrow> (string, AgentErr) result \<times> AgentRegistry" where
  "spawn rl v t r = register rl v t VirtualPointer r"

definition spawn_real_gated ::
    "AgentRole \<Rightarrow> VantageId \<Rightarrow> AccessTier \<Rightarrow> bool \<Rightarrow> AgentRegistry \<Rightarrow> (string, AgentErr) result \<times> AgentRegistry" where
  "spawn_real_gated rl v t has_receipt r = register rl v t (classify_request 1 has_receipt) r"

text \<open>The loops \<open>for e in self.entries.iter_mut()\<close> that stop at the first entry with the PID.\<close>

fun retire_entries :: "string \<Rightarrow> AgentEntry list \<Rightarrow> (unit, AgentErr) result \<times> AgentEntry list" where
  "retire_entries pid [] = (Err NotFound, [])"
| "retire_entries pid (e # es) =
     (if agent_pid e = pid then (Ok (), e\<lparr>agent_state := Retired\<rparr> # es)
      else let (res, es') = retire_entries pid es in (res, e # es'))"

definition retire :: "string \<Rightarrow> AgentRegistry \<Rightarrow> (unit, AgentErr) result \<times> AgentRegistry" where
  "retire pid r = (let (res, es) = retire_entries pid (entries r) in (res, r\<lparr>entries := es\<rparr>))"

fun heartbeat_entries :: "string \<Rightarrow> u64 \<Rightarrow> AgentEntry list \<Rightarrow> (unit, AgentErr) result \<times> AgentEntry list" where
  "heartbeat_entries pid now [] = (Err NotFound, [])"
| "heartbeat_entries pid now (e # es) =
     (if agent_pid e = pid then
        if agent_state e = Retired then (Err InvalidStateTransition, e # es)
        else (Ok (), e\<lparr>last_heartbeat_ns := now\<rparr> # es)
      else let (res, es') = heartbeat_entries pid now es in (res, e # es'))"

definition heartbeat :: "string \<Rightarrow> u64 \<Rightarrow> AgentRegistry \<Rightarrow> (unit, AgentErr) result \<times> AgentRegistry" where
  "heartbeat pid now r = (let (res, es) = heartbeat_entries pid now (entries r) in (res, r\<lparr>entries := es\<rparr>))"

definition big_pickle_action_requires_witness :: "AgentRole \<Rightarrow> bool" where
  "big_pickle_action_requires_witness rl = (rl = BigPickle)"

section \<open>Child handles\<close>

definition spawn_child_agent :: "u64 \<Rightarrow> (u64, AgentErr) result \<times> u64" where
  "spawn_child_agent counter =
     (let prev = counter;
          counter = counter + 1
      in if unat prev \<ge> AGENT_REGISTRY_MAX
         then (Err RegistryFull, word_of_nat AGENT_REGISTRY_MAX)
         else (Ok (prev + 1), counter))"

definition spawn_child_agent_count :: "u64 \<Rightarrow> u64" where
  "spawn_child_agent_count counter = counter"

section \<open>Runs of a registry\<close>

inductive registry_run :: "AgentRegistry \<Rightarrow> bool" where
  new: "registry_run registry_new"
| spawn: "registry_run r \<Longrightarrow> spawn rl v t r = (res, r') \<Longrightarrow> registry_run r'"
| spawn_real: "registry_run r \<Longrightarrow> spawn_real_gated rl v t b r = (res, r') \<Longrightarrow> registry_run r'"
| retire: "registry_run r \<Longrightarrow> retire pid r = (res, r') \<Longrightarrow> registry_run r'"
| heartbeat: "registry_run r \<Longrightarrow> heartbeat pid now r = (res, r') \<Longrightarrow> registry_run r'"
| routed: "registry_run r \<Longrightarrow> registry_run (note_omnidispatch_routed r)"
| call: "registry_run r \<Longrightarrow> registry_run (note_opencode_free_agent_call r)"
| os_spawn: "registry_run r \<Longrightarrow> registry_run (note_os_process_spawn r)"

definition class_count :: "AgentClass \<Rightarrow> AgentRegistry \<Rightarrow> u64" where
  "class_count c r = word_of_nat (length (filter (\<lambda>e. agent_class e = c) (entries r)))"

definition registry_inv :: "AgentRegistry \<Rightarrow> bool" where
  "registry_inv r \<longleftrightarrow> count r \<le> AGENT_REGISTRY_MAX \<and>
     virtual_registered (counters r) = class_count VirtualPointer r \<and>
     receipt_gated_helper (counters r) = class_count RealReceiptGated r \<and>
     ambiguous_held (counters r) = class_count Ambiguous r \<and>
     list_all (\<lambda>e. agent_state e \<in> {Spawned, Retired}) (entries r)"

section \<open>Lemmas\<close>

lemma mint_agent_pid_nonempty [simp]: "mint_agent_pid h rl v t \<noteq> []"
  by (simp add: mint_agent_pid_def Let_def)

lemma register_eq:
  "register rl v t c r =
     (if count r < AGENT_REGISTRY_MAX then
        let pid = mint_agent_pid (word_of_nat (length (entries r)) + 1) rl v t
        in (Ok pid,
            r\<lparr>entries := entries r @ [\<lparr>agent_pid = pid, agent_role = rl, agent_state = Spawned, vantage = v,
                 agent_tier = t, agent_class = c, spawned_at_ns = 0, last_heartbeat_ns = 0\<rparr>],
              counters := bump_class c (counters r)\<rparr>)
      else (Err RegistryFull, r))"
  by (simp add: register_def Let_def)

lemma registry_inv_register: "registry_inv r \<Longrightarrow> register rl v t c r = (res, r') \<Longrightarrow> registry_inv r'"
  by (cases c) (auto simp: register_eq Let_def registry_inv_def count_def live_def class_count_def bump_class_def
      split: if_splits)

text \<open>Both loops look at the first entry with the PID, if there is one.\<close>

lemma first_with_pid:
  obtains (missing) "\<forall>e \<in> set es. agent_pid e \<noteq> pid"
  | (found) xs e ys where "es = xs @ e # ys" "agent_pid e = pid" "\<forall>x \<in> set xs. agent_pid x \<noteq> pid"
  using split_list_first_prop [of es "\<lambda>e. agent_pid e = pid"] by blast

lemma retire_missing: "\<forall>e \<in> set es. agent_pid e \<noteq> pid \<Longrightarrow> retire_entries pid es = (Err NotFound, es)"
  by (induction es) auto

lemma retire_found:
  "agent_pid e = pid \<Longrightarrow> \<forall>x \<in> set xs. agent_pid x \<noteq> pid \<Longrightarrow>
   retire_entries pid (xs @ e # ys) = (Ok (), xs @ e\<lparr>agent_state := Retired\<rparr> # ys)"
  by (induction xs) auto

lemma heartbeat_missing: "\<forall>e \<in> set es. agent_pid e \<noteq> pid \<Longrightarrow> heartbeat_entries pid now es = (Err NotFound, es)"
  by (induction es) auto

lemma heartbeat_found:
  "agent_pid e = pid \<Longrightarrow> \<forall>x \<in> set xs. agent_pid x \<noteq> pid \<Longrightarrow>
   heartbeat_entries pid now (xs @ e # ys) =
     (if agent_state e = Retired then (Err InvalidStateTransition, xs @ e # ys)
      else (Ok (), xs @ e\<lparr>last_heartbeat_ns := now\<rparr> # ys))"
  by (induction xs) auto

lemmas first_simps = retire_missing retire_found heartbeat_missing heartbeat_found

lemma registry_inv_retire: "registry_inv r \<Longrightarrow> retire pid r = (res, r') \<Longrightarrow> registry_inv r'"
proof (cases rule: first_with_pid [of "entries r" pid])
  case (found xs e ys)
  assume "registry_inv r" "retire pid r = (res, r')"
  then show ?thesis
    by (auto simp: retire_def found(1) retire_found [OF found(2,3)] registry_inv_def count_def live_def class_count_def)
qed (auto simp: retire_def retire_missing)

lemma registry_inv_heartbeat: "registry_inv r \<Longrightarrow> heartbeat pid now r = (res, r') \<Longrightarrow> registry_inv r'"
proof (cases rule: first_with_pid [of "entries r" pid])
  case (found xs e ys)
  assume "registry_inv r" "heartbeat pid now r = (res, r')"
  then show ?thesis
    by (auto simp: heartbeat_def found(1) heartbeat_found [OF found(2,3)] registry_inv_def count_def live_def class_count_def
        split: if_splits)
qed (auto simp: heartbeat_def heartbeat_missing)

lemma registry_inv_notes:
  "registry_inv (note_omnidispatch_routed r) = registry_inv r"
  "registry_inv (note_opencode_free_agent_call r) = registry_inv r"
  "registry_inv (note_os_process_spawn r) = registry_inv r"
  by (simp_all add: registry_inv_def note_omnidispatch_routed_def note_opencode_free_agent_call_def
      note_os_process_spawn_def count_def class_count_def)

lemma registry_run_inv: "registry_run r \<Longrightarrow> registry_inv r"
proof (induction rule: registry_run.induct)
  case new
  then show ?case by (simp add: registry_inv_def registry_new_def count_def class_count_def)
qed (auto simp: spawn_def spawn_real_gated_def registry_inv_notes
    dest: registry_inv_register registry_inv_retire registry_inv_heartbeat)

section \<open>FNV on its low 48 bits\<close>

text \<open>Multiplication by the odd FNV prime is invertible modulo any power of two, and so is exclusive or;
  both commute with the reduction to 48 bits that the PID keeps.\<close>

definition fnv48 :: "48 word \<Rightarrow> u8 \<Rightarrow> 48 word" where
  "fnv48 h b = (h XOR ucast b) * 0x100000001b3"

lemma ucast_xor: "ucast (a XOR b) = (ucast a XOR ucast b :: 48 word)" for a b :: u64
  by (rule bit_word_eqI) (simp add: bit_ucast_iff bit_xor_iff)

lemma ucast_mult: "ucast (a * b) = (ucast a * ucast b :: 48 word)" for a b :: u64
proof -
  have "unat (ucast (a * b) :: 48 word) = unat (ucast a * ucast b :: 48 word)"
    by (simp add: unat_word_ariths unsigned_ucast_eq take_bit_eq_mod mod_mult_eq mod_mod_cancel)
  then show ?thesis by (simp only: word_unat_eq_iff)
qed

lemma ucast_fnv_step: "ucast (fnv_step h b) = fnv48 (ucast h) b"
proof -
  have "(ucast (ucast b :: u64) :: 48 word) = ucast b"
    by (rule bit_word_eqI) (auto simp: bit_ucast_iff dest: bit_imp_le_length)
  then show ?thesis by (simp add: fnv_step_def fnv48_def ucast_mult ucast_xor FNV_PRIME_def)
qed

lemma ucast_fnv_fold: "ucast (foldl fnv_step h bs) = foldl fnv48 (ucast h) bs"
  by (induction bs arbitrary: h) (simp_all add: ucast_fnv_step)

lemma fnv48_inj: "fnv48 h b = fnv48 h' b' \<longleftrightarrow> h XOR ucast b = h' XOR ucast b'"
proof
  assume "fnv48 h b = fnv48 h' b'"
  then have "fnv48 h b * 0x5057aff6957b = fnv48 h' b' * 0x5057aff6957b" by simp
  moreover have "(0x100000001b3 :: 48 word) * 0x5057aff6957b = 1" by simp
  ultimately show "h XOR ucast b = h' XOR ucast b'" by (simp only: fnv48_def mult.assoc mult_1_right)
qed (simp add: fnv48_def)

lemma fnv48_inj_state: "fnv48 h b = fnv48 h' b \<longleftrightarrow> h = h'"
proof -
  have "h = h'" if "h XOR x = h' XOR x" for x :: "48 word"
  proof -
    have "(h XOR x) XOR x = (h' XOR x) XOR x" using that by simp
    then show ?thesis by (simp add: xor.assoc)
  qed
  then show ?thesis by (auto simp: fnv48_inj)
qed

lemma fnv48_fold_inj: "foldl fnv48 h bs = foldl fnv48 h' bs \<longleftrightarrow> h = h'"
  by (induction bs arbitrary: h h') (simp_all add: fnv48_inj_state)

lemma fnv48_inj_byte: "fnv48 h b = fnv48 h b' \<longleftrightarrow> b = b'"
proof
  assume "fnv48 h b = fnv48 h b'"
  then have "h XOR (h XOR ucast b) = h XOR (h XOR ucast b' :: 48 word)" by (simp add: fnv48_inj)
  then have "(ucast b :: 48 word) = ucast b'" by (simp add: xor.assoc [symmetric])
  then have "unat (ucast b :: 48 word) = unat (ucast b' :: 48 word)" by simp
  then show "b = b'" using unat_bound [of b] unat_bound [of b']
    by (simp add: unsigned_ucast_eq take_bit_nat_eq_self word_unat_eq_iff)
qed simp

lemma le_bytes_small:
  assumes "unat (h :: u64) < 256"
  shows "le_bytes 8 h = ucast h # replicate 7 0"
proof -
  have z: "ucast (drop_bit (8 * i) h) = (0 :: u8)" if "0 < i" for i
  proof -
    have "(2 :: nat) ^ 8 \<le> 2 ^ (8 * i)" using that by (intro power_increasing) auto
    then have "unat h < 2 ^ (8 * i)" using assms by simp
    then have "unat (drop_bit (8 * i) h) = 0" 
      using unat_bound [of h] by (simp only: unsigned_drop_bit_eq) (simp add: drop_bit_eq_div take_bit_nat_eq_self)
    then have "drop_bit (8 * i) h = 0" by (simp only: unat_eq_0)
    then show ?thesis by simp
  qed
  have "map (\<lambda>i. ucast (drop_bit (8 * i) h) :: u8) [1..<8] = map (\<lambda>_. 0) [1..<8]"
    by (intro map_cong refl z) auto
  moreover have "[0..<8] = 0 # [1..<8]" by (simp add: upt_conv_Cons)
  ultimately show ?thesis by (simp add: le_bytes_def map_replicate_const)
qed

text \<open>With the other three parts fixed, the handles below 256 give different hashes in 48 bits.\<close>

lemma fnv1a64_low48_inj:
  assumes "unat h < 256" and "unat h' < 256"
    and "(ucast (fnv1a64 (h # ps)) :: 48 word) = ucast (fnv1a64 (h' # ps))"
  shows "h = h'"
proof -
  have fold: "(ucast (fnv1a64 (x # ps)) :: 48 word) =
      foldl fnv48 (foldl fnv48 (ucast FNV_OFFSET) (le_bytes 8 x)) (concat (map (le_bytes 8) ps))" for x
  proof -
    have flat: "foldl (\<lambda>h p. foldl fnv_step h (le_bytes 8 p)) k qs = foldl fnv_step k (concat (map (le_bytes 8) qs))" for k qs
      by (induction qs arbitrary: k) simp_all
    show ?thesis unfolding fnv1a64_def flat by (simp add: ucast_fnv_fold)
  qed
  have "fnv48 (ucast FNV_OFFSET) (ucast h) = fnv48 (ucast FNV_OFFSET) (ucast h')"
    using assms(3) unfolding fold fnv48_fold_inj le_bytes_small [OF assms(1)] le_bytes_small [OF assms(2)]
    by (simp add: fnv48_fold_inj)
  then have "unat (ucast h :: u8) = unat (ucast h' :: u8)" by (simp add: fnv48_inj_byte)
  then show "h = h'" using assms(1,2) by (simp add: unsigned_ucast_eq take_bit_nat_eq_self word_unat_eq_iff)
qed

text \<open>The twelve digits show the low 48 bits.\<close>

lemma nth_HEX_UPPER_inj: "i < 16 \<Longrightarrow> j < 16 \<Longrightarrow> HEX_UPPER ! i = HEX_UPPER ! j \<longleftrightarrow> i = j"
proof -
  have "distinct HEX_UPPER" "length HEX_UPPER = 16" by (simp_all add: HEX_UPPER_def)
  then show "i < 16 \<Longrightarrow> j < 16 \<Longrightarrow> HEX_UPPER ! i = HEX_UPPER ! j \<longleftrightarrow> i = j" by (simp add: nth_eq_iff_index_eq)
qed

lemma hex12_low48:
  assumes "hex12 v = hex12 w"
  shows "(ucast v :: 48 word) = ucast w"
proof (rule bit_word_eqI)
  fix k assume "k < LENGTH(48)"
  then have k: "k < 48" by simp
  let ?i = "k div 4" and ?j = "k mod 4"
  have nib: "unat (x AND 0xF) < 16" for x :: u64
  proof -
    have "x AND 0xF \<le> 0xF" by (rule word_and_le1)
    then show ?thesis by (simp add: word_le_nat_alt)
  qed
  have "?i \<in> set (rev [0..<12])" using k by auto
  moreover have "\<forall>i \<in> set (rev [0..<12]). HEX_UPPER ! unat (drop_bit (4 * i) v AND 0xF) = HEX_UPPER ! unat (drop_bit (4 * i) w AND 0xF)"
    using assms unfolding hex12_def by (simp only: map_eq_conv)
  ultimately have "HEX_UPPER ! unat (drop_bit (4 * ?i) v AND 0xF) = HEX_UPPER ! unat (drop_bit (4 * ?i) w AND 0xF)" by blast
  then have eq: "drop_bit (4 * ?i) v AND 0xF = drop_bit (4 * ?i) w AND 0xF"
    by (simp only: nth_HEX_UPPER_inj nib word_unat_eq_iff)
  have m: "(0xF :: u64) = mask 4" by (simp add: mask_eq_exp_minus_1)
  have bt: "bit (drop_bit (4 * ?i) x AND 0xF) ?j = bit x k" for x :: u64
    unfolding m by (auto simp: bit_and_iff bit_drop_bit_eq bit_mask_iff)
  have "bit v k = bit w k" using bt [of v] bt [of w] eq by metis
  then show "bit (ucast v :: 48 word) k = bit (ucast w :: 48 word) k"
    using k by (simp add: bit_ucast_iff)
qed

lemma vantage_tag_no_dash: "CHR ''-'' \<notin> set (vantage_tag v)"
  by (cases v; simp)

lemma role_tag_no_dash: "CHR ''-'' \<notin> set (role_tag rl)"
  by (cases rl; simp)

lemmas tags_no_dash = vantage_tag_no_dash role_tag_no_dash

lemma vantage_tag_inj: "vantage_tag v = vantage_tag w \<longleftrightarrow> v = w"
  by (cases v; cases w; simp)

lemma role_tag_inj: "role_tag v = role_tag w \<longleftrightarrow> v = w"
  by (cases v; cases w; simp)

lemma mint_agent_pid_eq:
  assumes "mint_agent_pid h rl v t = mint_agent_pid h' rl' v' t'"
  shows "v = v' \<and> rl = rl' \<and>
    (ucast (fnv1a64 [h, role_code rl, vantage_code v, ucast (tier_rank t)]) :: 48 word) =
     ucast (fnv1a64 [h', role_code rl', vantage_code v', ucast (tier_rank t')])"
proof -
  let ?s = "fnv1a64 [h, role_code rl, vantage_code v, ucast (tier_rank t)]"
  let ?s' = "fnv1a64 [h', role_code rl', vantage_code v', ucast (tier_rank t')]"
  have "vantage_tag v @ CHR ''-'' # role_tag rl @ CHR ''-'' # CHR ''H'' # hex12 (?s AND 0x0000FFFFFFFFFFFF) =
        vantage_tag v' @ CHR ''-'' # role_tag rl' @ CHR ''-'' # CHR ''H'' # hex12 (?s' AND 0x0000FFFFFFFFFFFF)"
    using assms by (simp add: mint_agent_pid_def Let_def)
  then have t: "vantage_tag v = vantage_tag v'" "role_tag rl = role_tag rl'"
    and h: "hex12 (?s AND 0x0000FFFFFFFFFFFF) = hex12 (?s' AND 0x0000FFFFFFFFFFFF)"
    by (simp_all add: append_sep_eq tags_no_dash)
  have m: "(0x0000FFFFFFFFFFFF :: u64) = mask 48" by (simp add: mask_eq_exp_minus_1)
  have u: "(ucast (x AND 0x0000FFFFFFFFFFFF) :: 48 word) = ucast x" for x :: u64
    unfolding m by (intro bit_word_eqI) (simp add: bit_ucast_iff bit_and_iff bit_mask_iff)
  show ?thesis using t hex12_low48 [OF h] by (simp add: u vantage_tag_inj role_tag_inj)
qed

section \<open>Properties\<close>



text \<open>agent PIDs. Among the first 255 registrations of a registry, two agents of the same tier have
  the same PID only if they are the same registration with the same role and vantage.\<close>

theorem agent_pid_distinct:
  assumes "unat h < 256" and "unat h' < 256"
  shows "mint_agent_pid h rl v t = mint_agent_pid h' rl' v' t \<longleftrightarrow> (h, rl, v) = (h', rl', v')"
proof
  assume "mint_agent_pid h rl v t = mint_agent_pid h' rl' v' t"
  from mint_agent_pid_eq [OF this] show "(h, rl, v) = (h', rl', v')"
    using fnv1a64_low48_inj [OF assms] by auto
qed simp

theorem agent_pid_distinct_witness:
  "mint_agent_pid 1 Pi Acer AccessTier.Public \<noteq> mint_agent_pid 2 Pi Acer AccessTier.Public"
  using agent_pid_distinct [of 1 2 Pi Acer AccessTier.Public Pi Acer] by simp

text \<open>retirement. Retiring a PID succeeds exactly when some entry has it and then changes only the
  state of the first such entry; afterwards the PID cannot heartbeat, retiring it again succeeds and
  changes nothing, and if the agent was live the number of live agents drops by one, which frees a
  slot of a full registry.\<close>

theorem agent_retire_spec:
  assumes "retire pid r = (res, r')"
  shows "(res = Ok () \<longleftrightarrow> (\<exists>e \<in> set (entries r). agent_pid e = pid)) \<and>
     length (entries r') = length (entries r) \<and> counters r' = counters r \<and>
     (res = Ok () \<longrightarrow> heartbeat pid now r' = (Err InvalidStateTransition, r') \<and> retire pid r' = (Ok (), r')) \<and>
     (res \<noteq> Ok () \<longrightarrow> res = Err NotFound \<and> r' = r) \<and>
     count r' \<le> count r \<and> count r \<le> count r' + 1 \<and>
     (\<forall>e. find (\<lambda>e. agent_pid e = pid) (entries r) = Some e \<and> live e \<longrightarrow> count r' + 1 = count r)"
proof (cases rule: first_with_pid [of "entries r" pid])
  case missing
  then have "res = Err NotFound" "r' = r" using assms by (simp_all add: retire_def retire_missing)
  moreover have "find (\<lambda>e. agent_pid e = pid) (entries r) = None"
    using missing by (simp add: find_None_iff)
  ultimately show ?thesis using missing by auto
next
  case (found xs e ys)
  then have r: "res = Ok ()" "r' = r\<lparr>entries := xs @ e\<lparr>agent_state := Retired\<rparr> # ys\<rparr>"
    using assms by (simp_all add: retire_def retire_found)
  let ?e = "e\<lparr>agent_state := Retired\<rparr>"
  have again: "heartbeat pid now r' = (Err InvalidStateTransition, r')" "retire pid r' = (Ok (), r')"
    using found by (simp_all add: r retire_def heartbeat_def retire_found [of ?e] heartbeat_found [of ?e])
  have cnt: "count r' \<le> count r" "count r \<le> count r' + 1" "live e \<longrightarrow> count r' + 1 = count r"
    using found(1) by (simp_all add: r count_def live_def)
  have "find (\<lambda>e. agent_pid e = pid) (xs @ e # ys) = Some e"
    using found(2,3) by (induction xs) auto
  then show ?thesis using r(1) again cnt found(1,2) r(2) by auto
qed

theorem agent_retire_spec_witness:
  "\<exists>r r' pid. retire pid r = (Ok (), r') \<and> count r = 1 \<and> count r' = 0 \<and> heartbeat pid 5 r' = (Err InvalidStateTransition, r')"
proof -
  define r where "r = snd (spawn Hermes Acer AccessTier.Public registry_new)"
  define pid where "pid = mint_agent_pid 1 Hermes Acer AccessTier.Public"
  obtain res r' where ret: "retire pid r = (res, r')" by fastforce
  have e: "\<exists>e. entries r = [e] \<and> agent_pid e = pid \<and> live e"
    by (simp add: r_def spawn_def register_eq registry_new_def count_def live_def AGENT_REGISTRY_MAX_def Let_def pid_def)
  then have c: "count r = 1" by (auto simp: count_def)
  have "find (\<lambda>e. agent_pid e = pid) (entries r) \<noteq> None" using e by auto
  then show ?thesis using agent_retire_spec [OF ret, of 5] e ret c by (intro exI [of _ r] exI [of _ r'] exI [of _ pid]) auto
qed

end
