(* ===== verification/Gnn.thy ===== *)
theory Gnn
  imports Prelude
begin

text \<open>
  The inference lane of \<^verbatim>\<open>kernel/core/src/gnn/mod.rs\<close>: the inference handle, its deterministic answers
  while no model is loaded, and the fallback ranking.
\<close>

section \<open>Data\<close>

definition GNN_EDGES_TARGET :: u32 where "GNN_EDGES_TARGET = 2158671"
definition GNN_INFER_P99_LATENCY_MS_BUDGET :: u32 where "GNN_INFER_P99_LATENCY_MS_BUDGET = 100"
definition GNN_BATCH_TARGET_PER_SEC :: u32 where "GNN_BATCH_TARGET_PER_SEC = 40783"

datatype GnnErr =
  ModelNotLoaded | InputShapeInvalid | LatencyBudgetExceeded | ModelSwapUnauthorized | Unimplemented

datatype RoutingDecision =
  Local | TriadBroadcast | QuadBroadcast | UnicastAcer | UnicastLiris | UnicastFalcon | UnicastAether

record RankedItem =
  item_id :: string
  score_micro :: u32

datatype AggregatedVerdict = ProceedStrong | ProceedWeak | Hold | Block | Investigate

section \<open>Operations\<close>

text \<open>\<open>1_000_000 - (i as u32) * 1_000\<close> is \<open>u32\<close> arithmetic.\<close>

definition top_n_deterministic_fallback :: "string list \<Rightarrow> nat \<Rightarrow> RankedItem list" where
  "top_n_deterministic_fallback items n =
     map (\<lambda>(i, name). \<lparr>item_id = name, score_micro = 1000000 - word_of_nat i * 1000\<rparr>)
       (List.enumerate 0 (take n items))"

record GnnInference =
  model_loaded :: bool
  model_sha16 :: "string option"

definition gnn_new :: GnnInference where
  "gnn_new = \<lparr>model_loaded = False, model_sha16 = None\<rparr>"

definition is_ready :: "GnnInference \<Rightarrow> bool" where
  "is_ready g = model_loaded g"

definition load_onnx_model :: "bytes \<Rightarrow> string \<Rightarrow> GnnInference \<Rightarrow> (unit, GnnErr) result \<times> GnnInference" where
  "load_onnx_model model_bytes expected_sha16 g = (Err GnnErr.Unimplemented, g)"

definition predict_route :: "bytes \<Rightarrow> GnnInference \<Rightarrow> (RoutingDecision, GnnErr) result" where
  "predict_route envelope_bytes g = (if \<not> model_loaded g then Ok Local else Err GnnErr.Unimplemented)"

definition rank_top_n :: "string list \<Rightarrow> nat \<Rightarrow> GnnInference \<Rightarrow> (RankedItem list, GnnErr) result" where
  "rank_top_n items n g =
     (if \<not> model_loaded g then Ok (top_n_deterministic_fallback items n) else Err GnnErr.Unimplemented)"

definition aggregate_verdict :: "u32 \<Rightarrow> u32 \<Rightarrow> GnnInference \<Rightarrow> (AggregatedVerdict, GnnErr) result" where
  "aggregate_verdict votes_in_favor total_votes g =
     (if \<not> model_loaded g then Ok AggregatedVerdict.Hold else Err GnnErr.Unimplemented)"

section \<open>The fallback ranking\<close>

lemma top_n_nth:
  assumes "i < length (top_n_deterministic_fallback items n)"
  shows "top_n_deterministic_fallback items n ! i =
    \<lparr>item_id = items ! i, score_micro = 1000000 - word_of_nat i * 1000\<rparr>"
  using assms by (simp add: top_n_deterministic_fallback_def nth_enumerate_eq)

lemma length_top_n: "length (top_n_deterministic_fallback items n) = min (length items) n"
  by (simp add: top_n_deterministic_fallback_def)

lemma score_micro_exact:
  assumes "i \<le> 1000"
  shows "unat (1000000 - word_of_nat i * 1000 :: u32) = 1000000 - i * 1000"
proof -
  have p: "unat (word_of_nat i * 1000 :: u32) = i * 1000"
    using assms by (simp add: unat_word_ariths(2) unat_of_nat)
  then have "(word_of_nat i * 1000 :: u32) \<le> 1000000" using assms by (simp add: word_le_nat_alt)
  from unat_sub [OF this] p show ?thesis by simp
qed

text \<open>the fallback ranking keeps the first \<open>n\<close> items in input order, and its scores are strictly
  decreasing for the first 1001 of them; from item 1001 on the subtraction wraps, so that item is
  scored far above the first one (a build with overflow checks stops there instead).\<close>

theorem gnn_fallback_ranking:
  "map item_id (top_n_deterministic_fallback items n) = take n items \<and>
   (i < j \<and> j < min (length items) n \<and> j \<le> 1000 \<longrightarrow>
      score_micro (top_n_deterministic_fallback items n ! j) < score_micro (top_n_deterministic_fallback items n ! i)) \<and>
   (1001 < min (length items) n \<longrightarrow>
      score_micro (top_n_deterministic_fallback items n ! 0) < score_micro (top_n_deterministic_fallback items n ! 1001))"
proof (intro conjI impI)
  show "map item_id (top_n_deterministic_fallback items n) = take n items"
    by (rule nth_equalityI) (auto simp: length_top_n top_n_nth)
  assume ij: "i < j \<and> j < min (length items) n \<and> j \<le> 1000"
  then have "i < j" "j \<le> 1000" by simp_all
  then have "unat (1000000 - word_of_nat j * 1000 :: u32) < unat (1000000 - word_of_nat i * 1000 :: u32)"
    by (simp add: score_micro_exact)
  then show "score_micro (top_n_deterministic_fallback items n ! j) < score_micro (top_n_deterministic_fallback items n ! i)"
    using ij by (simp add: top_n_nth length_top_n word_less_nat_alt)
next
  assume "1001 < min (length items) n"
  then have "0 < length (top_n_deterministic_fallback items n)" "1001 < length (top_n_deterministic_fallback items n)"
    by (auto simp: length_top_n)
  then show "score_micro (top_n_deterministic_fallback items n ! 0) < score_micro (top_n_deterministic_fallback items n ! 1001)"
    by (simp add: top_n_nth [of 0] top_n_nth [of 1001])
qed

theorem gnn_fallback_ranking_witness:
  "score_micro (top_n_deterministic_fallback (replicate 2000 ''a'') 2000 ! 1000) <
   score_micro (top_n_deterministic_fallback (replicate 2000 ''a'') 2000 ! 999) \<and>
   score_micro (top_n_deterministic_fallback (replicate 2000 ''a'') 2000 ! 0) <
   score_micro (top_n_deterministic_fallback (replicate 2000 ''a'') 2000 ! 1001)"
  using gnn_fallback_ranking [where items = "replicate 2000 ''a''" and n = 2000 and i = 999 and j = 1000] by simp

end
