(* ===== verification/Syscall.thy ===== *)
theory Syscall
  imports Syscall_Types Frame_Alloc Vfs Agent_Runtime Tier Gates Gnn Tickets
begin

text \<open>
  The syscall surface of \<^verbatim>\<open>kernel/core/src/syscall/mod.rs\<close> over the kernel's global state. The record
  \<open>kernel\<close> holds the statics of every module a syscall reaches: the descriptor table, the envelope
  slot, the allocator's watermark, and the counters of child handles, exec handles, cosign rows and the
  clock. Each \<open>sys_*\<close> is its Rust function; \<open>sys_call\<close> is one call of the surface, and \<open>kernel_run\<close> a
  sequence of calls from any number of callers, in the order in which they take effect. \<open>sys_exit\<close>
  never returns and is not a call of the list.
\<close>

section \<open>Kernel state\<close>

record kernel =
  FD_STATE :: fd_table
  SLOT :: slot_st
  NEXT_VIRTUAL_BASE :: usize
  SPAWN_CHILD_COUNTER :: u64
  MONOTONIC_COUNTER :: u64
  EXEC_HANDLE_NEXT :: u64
  APPEND_SEQ_COUNTER :: u64

definition kernel_boot :: kernel where
  "kernel_boot = \<lparr>FD_STATE = fd_init, SLOT = slot_init, NEXT_VIRTUAL_BASE = VIRTUAL_BASE_START,
     SPAWN_CHILD_COUNTER = 0, MONOTONIC_COUNTER = 0, EXEC_HANDLE_NEXT = 1, APPEND_SEQ_COUNTER = 0\<rparr>"

definition FEDERATION_ANCHOR_PID :: string where
  "FEDERATION_ANCHOR_PID = ''ASOLARIA-FEDERATION-REMAKE-1024-PID-2026-05-11''"

definition KERNEL_VERSION :: string where
  "KERNEL_VERSION = ''0.2.0-phase3-scaffold''"

section \<open>Files and memory\<close>

definition sys_read :: "u64 \<Rightarrow> bytes \<Rightarrow> nat \<Rightarrow> kernel \<Rightarrow> (nat, SyscallErr) result \<times> bytes \<times> kernel" where
  "sys_read fd buf len k =
     (if len > length buf then (Err SyscallErr.Invalid, buf, k)
      else case vfs_read fd buf len (FD_STATE k) (SLOT k) of
             (Ok n, buf, s) \<Rightarrow> (Ok n, buf, k\<lparr>SLOT := s\<rparr>)
           | (Err _, buf, s) \<Rightarrow> (Err SyscallErr.Invalid, buf, k\<lparr>SLOT := s\<rparr>))"

definition sys_write :: "u64 \<Rightarrow> bytes \<Rightarrow> kernel \<Rightarrow> (nat, SyscallErr) result \<times> kernel" where
  "sys_write fd buf k =
     (if buf = [] then (Err SyscallErr.Invalid, k)
      else case vfs_write fd buf (FD_STATE k) (SLOT k) of
             (Ok n, s) \<Rightarrow> (Ok n, k\<lparr>SLOT := s\<rparr>)
           | (Err _, s) \<Rightarrow> (Err SyscallErr.Invalid, k\<lparr>SLOT := s\<rparr>))"

definition sys_mmap :: "usize \<Rightarrow> u32 \<Rightarrow> kernel \<Rightarrow> (usize, SyscallErr) result \<times> kernel" where
  "sys_mmap len prot k =
     (if len = 0 then (Err SyscallErr.Invalid, k)
      else if prot = 0 then (Err SyscallErr.Invalid, k)
      else case alloc_pages len (NEXT_VIRTUAL_BASE k) of
             (Ok p, n) \<Rightarrow> (Ok p, k\<lparr>NEXT_VIRTUAL_BASE := n\<rparr>)
           | (Err FrameErr.PoolExhausted, n) \<Rightarrow> (Err SyscallErr.Exhausted, k\<lparr>NEXT_VIRTUAL_BASE := n\<rparr>)
           | (Err _, n) \<Rightarrow> (Err SyscallErr.Invalid, k\<lparr>NEXT_VIRTUAL_BASE := n\<rparr>))"

definition sys_munmap :: "usize \<Rightarrow> usize \<Rightarrow> (unit, SyscallErr) result" where
  "sys_munmap addr len =
     (if addr = 0 then Err SyscallErr.Invalid
      else if len = 0 then Err SyscallErr.Invalid
      else case free_pages addr len of Ok _ \<Rightarrow> Ok () | Err _ \<Rightarrow> Err SyscallErr.Invalid)"

section \<open>Processes and time\<close>

definition sys_exec :: "bytes \<Rightarrow> kernel \<Rightarrow> (u64, SyscallErr) result \<times> kernel" where
  "sys_exec envelope_bytes k =
     (if length envelope_bytes < MIN_ENVELOPE_BYTES then (Err SyscallErr.Invalid, k)
      else case dispatch_enqueue_bytes envelope_bytes 0 (SLOT k) of
             (Ok _, s) \<Rightarrow> (Ok (EXEC_HANDLE_NEXT k), k\<lparr>SLOT := s, EXEC_HANDLE_NEXT := EXEC_HANDLE_NEXT k + 1\<rparr>)
           | (Err EnvelopeErr.QueueFull, s) \<Rightarrow> (Err SyscallErr.Exhausted, k\<lparr>SLOT := s\<rparr>)
           | (Err EnvelopeErr.PayloadOversize, s) \<Rightarrow> (Err SyscallErr.Invalid, k\<lparr>SLOT := s\<rparr>)
           | (Err _, s) \<Rightarrow> (Err SyscallErr.Invalid, k\<lparr>SLOT := s\<rparr>))"

definition sys_fork :: "kernel \<Rightarrow> (u64, SyscallErr) result \<times> kernel" where
  "sys_fork k =
     (case spawn_child_agent (SPAWN_CHILD_COUNTER k) of
        (Ok child_handle, c) \<Rightarrow> (Ok child_handle, k\<lparr>SPAWN_CHILD_COUNTER := c\<rparr>)
      | (Err AgentErr.RegistryFull, c) \<Rightarrow> (Err SyscallErr.Exhausted, k\<lparr>SPAWN_CHILD_COUNTER := c\<rparr>)
      | (Err _, c) \<Rightarrow> (Err SyscallErr.Invalid, k\<lparr>SPAWN_CHILD_COUNTER := c\<rparr>))"

definition sys_time :: "kernel \<Rightarrow> (u64, SyscallErr) result \<times> kernel" where
  "sys_time k = (Ok (MONOTONIC_COUNTER k), k\<lparr>MONOTONIC_COUNTER := MONOTONIC_COUNTER k + 1\<rparr>)"

definition sys_pid_current :: "(bytes \<Rightarrow> bytes) \<Rightarrow> (u64, SyscallErr) result" where
  "sys_pid_current sha = Ok (u64_of_be (take 8 (sha (as_bytes FEDERATION_ANCHOR_PID))))"

section \<open>The bus\<close>

definition sys_envelope_send :: "bytes \<Rightarrow> u32 \<Rightarrow> kernel \<Rightarrow> (unit, SyscallErr) result \<times> kernel" where
  "sys_envelope_send env route_hint k =
     (if length env < MIN_ENVELOPE_BYTES then (Err SyscallErr.Invalid, k)
      else case dispatch_enqueue_bytes env route_hint (SLOT k) of
             (Ok _, s) \<Rightarrow> (Ok (), k\<lparr>SLOT := s\<rparr>)
           | (Err EnvelopeErr.QueueFull, s) \<Rightarrow> (Err SyscallErr.Exhausted, k\<lparr>SLOT := s\<rparr>)
           | (Err EnvelopeErr.PayloadOversize, s) \<Rightarrow> (Err SyscallErr.Invalid, k\<lparr>SLOT := s\<rparr>)
           | (Err _, s) \<Rightarrow> (Err SyscallErr.Invalid, k\<lparr>SLOT := s\<rparr>))"

definition sys_envelope_recv :: "bytes \<Rightarrow> u64 \<Rightarrow> kernel \<Rightarrow> (nat, SyscallErr) result \<times> bytes \<times> kernel" where
  "sys_envelope_recv buf max_wait_ns k =
     (if buf = [] then (Err SyscallErr.Invalid, buf, k)
      else case dispatch_dequeue_bytes buf max_wait_ns (SLOT k) of
             (Ok n, buf, s) \<Rightarrow> (Ok n, buf, k\<lparr>SLOT := s\<rparr>)
           | (Err EnvelopeErr.QueueEmpty, buf, s) \<Rightarrow> (Err SyscallErr.WouldBlock, buf, k\<lparr>SLOT := s\<rparr>)
           | (Err EnvelopeErr.PayloadOversize, buf, s) \<Rightarrow> (Err SyscallErr.Invalid, buf, k\<lparr>SLOT := s\<rparr>)
           | (Err _, buf, s) \<Rightarrow> (Err SyscallErr.Invalid, buf, k\<lparr>SLOT := s\<rparr>))"

section \<open>Hookwall, cosign, tiers, inference\<close>

text \<open>The context both hookwall calls build from the first two bytes of an envelope.\<close>

definition hook_context :: "bytes \<Rightarrow> HookContext" where
  "hook_context env = \<lparr>slot = env ! 0, syscall_no = env ! 1, caller_pid = 0, hook_tier = Micro,
                       target_tier = AccessTier.Public\<rparr>"

definition sys_hookwall_pre :: "bytes \<Rightarrow> (HookwallVerdict, SyscallErr) result" where
  "sys_hookwall_pre env =
     (if length env < 2 then Err SyscallErr.Invalid else hookwall_pre (hook_context env))"

definition sys_hookwall_post ::
    "(bytes \<Rightarrow> bytes) \<Rightarrow> bytes \<Rightarrow> HookwallVerdict \<Rightarrow> kernel \<Rightarrow> (unit, SyscallErr) result \<times> kernel" where
  "sys_hookwall_post sha env verdict k =
     (if length env < 2 then (Err SyscallErr.Invalid, k)
      else case hookwall_post sha (hook_context env) verdict (APPEND_SEQ_COUNTER k) of
             (r, c) \<Rightarrow> (r, k\<lparr>APPEND_SEQ_COUNTER := c\<rparr>))"

definition MIN_COSIGN_ROW_BYTES :: nat where "MIN_COSIGN_ROW_BYTES = 16"

definition sys_cosign_append :: "(bytes \<Rightarrow> bytes) \<Rightarrow> bytes \<Rightarrow> kernel \<Rightarrow> (u64, SyscallErr) result \<times> kernel" where
  "sys_cosign_append sha rw k =
     (if length rw < MIN_COSIGN_ROW_BYTES then (Err SyscallErr.Invalid, k)
      else case append_seq sha rw (APPEND_SEQ_COUNTER k) of
             (r, c) \<Rightarrow> (map_err (\<lambda>_. SyscallErr.CosignReject) r, k\<lparr>APPEND_SEQ_COUNTER := c\<rparr>))"

text \<open>\<open>core::str::from_utf8\<close>: the well-formed UTF-8 sequences of one to four bytes.\<close>

definition utf8_cont :: "u8 \<Rightarrow> bool" where
  "utf8_cont b = (0x80 \<le> unat b \<and> unat b \<le> 0xBF)"

definition utf8_second :: "u8 \<Rightarrow> u8 \<Rightarrow> bool" where
  "utf8_second a b =
     (if a = 0xE0 then 0xA0 \<le> unat b \<and> unat b \<le> 0xBF
      else if a = 0xED then 0x80 \<le> unat b \<and> unat b \<le> 0x9F
      else if a = 0xF0 then 0x90 \<le> unat b \<and> unat b \<le> 0xBF
      else if a = 0xF4 then 0x80 \<le> unat b \<and> unat b \<le> 0x8F
      else utf8_cont b)"

fun utf8_valid :: "bytes \<Rightarrow> bool" where
  "utf8_valid [] = True"
| "utf8_valid (a # bs) =
     (if unat a < 0x80 then utf8_valid bs
      else if 0xC2 \<le> unat a \<and> unat a \<le> 0xDF then
        (case bs of b # cs \<Rightarrow> utf8_second a b \<and> utf8_valid cs | [] \<Rightarrow> False)
      else if 0xE0 \<le> unat a \<and> unat a \<le> 0xEF then
        (case bs of b # c # ds \<Rightarrow> utf8_second a b \<and> utf8_cont c \<and> utf8_valid ds | _ \<Rightarrow> False)
      else if 0xF0 \<le> unat a \<and> unat a \<le> 0xF4 then
        (case bs of b # c # d # es \<Rightarrow> utf8_second a b \<and> utf8_cont c \<and> utf8_cont d \<and> utf8_valid es | _ \<Rightarrow> False)
      else False)"

definition from_utf8 :: "bytes \<Rightarrow> string option" where
  "from_utf8 bs = (if utf8_valid bs then Some (map (\<lambda>b. char_of (unat b)) bs) else None)"

definition sys_tier_query :: "(string \<Rightarrow> string) \<Rightarrow> bytes \<Rightarrow> (AccessTier, SyscallErr) result" where
  "sys_tier_query to_lowercase path =
     (case from_utf8 path of
        None \<Rightarrow> Err SyscallErr.Invalid
      | Some s \<Rightarrow>
          (case classify_path to_lowercase s of
             Ok t \<Rightarrow> Ok t
           | Err TierClassifierErr.PathMalformed \<Rightarrow> Err SyscallErr.Invalid
           | Err TierClassifierErr.UnclassifiedDefault \<Rightarrow> Ok AccessTier.Public))"

fun routing_code :: "RoutingDecision \<Rightarrow> u8" where
  "routing_code Local = 0"
| "routing_code TriadBroadcast = 1"
| "routing_code QuadBroadcast = 2"
| "routing_code UnicastAcer = 3"
| "routing_code UnicastLiris = 4"
| "routing_code UnicastFalcon = 5"
| "routing_code UnicastAether = 6"

definition sys_gnn_infer :: "bytes \<Rightarrow> bytes \<Rightarrow> (nat, SyscallErr) result \<times> bytes" where
  "sys_gnn_infer input out =
     (if out = [] then (Err SyscallErr.Invalid, out)
      else case map_err (\<lambda>_. SyscallErr.Invalid) (predict_route input gnn_new) of
             Err e \<Rightarrow> (Err e, out)
           | Ok decision \<Rightarrow> (Ok 1, out[0 := routing_code decision]))"

definition CANONICAL_SYSCALLS :: "string list" where
  "CANONICAL_SYSCALLS =
     [''read'', ''write'', ''exec'', ''fork'', ''exit'', ''mmap'', ''munmap'', ''time'', ''pid_current'',
      ''envelope_send'', ''envelope_recv'', ''hookwall_pre'', ''hookwall_post'', ''cosign_append'',
      ''tier_query'', ''gnn_infer'']"

end
