(* ===== verification/Kernel.thy ===== *)
theory Kernel
  imports Syscall
begin

text \<open>
  The kernel as a whole: sequences of calls of the syscall surface (and of the descriptor operations
  \<open>vfs_open\<close> and \<open>vfs_close\<close>, which no syscall exposes), the invariant of the global state, and what the
  components promise through the surface: memory regions that do not overlap, a clock that never
  repeats, one message at a time on the bus.
\<close>

section \<open>Calls and runs\<close>

datatype syscall =
    Read u64 bytes nat | Write u64 bytes | Exec bytes | Fork | Mmap usize u32 | Munmap usize usize
  | Time | PidCurrent | EnvelopeSend bytes u32 | EnvelopeRecv bytes u64 | HookwallPre bytes
  | HookwallPost bytes HookwallVerdict | CosignAppend bytes | TierQuery bytes | GnnInfer bytes bytes
  | VfsOpen bytes u32 | VfsClose u64

datatype outcome =
    RCount "(nat, SyscallErr) result" bytes
  | RWritten "(nat, SyscallErr) result"
  | RHandle "(u64, SyscallErr) result"
  | RPtr "(usize, SyscallErr) result"
  | RUnit "(unit, SyscallErr) result"
  | RVerdict "(HookwallVerdict, SyscallErr) result"
  | RTier "(AccessTier, SyscallErr) result"
  | RFd "(u64, VfsErr) result"
  | RClosed "(unit, VfsErr) result"

text \<open>\<open>sha\<close> is the SHA-256 of the \<open>sha2\<close> crate, \<open>lc\<close> is \<open>str::to_lowercase\<close>.\<close>

fun sys_call :: "(bytes \<Rightarrow> bytes) \<Rightarrow> (string \<Rightarrow> string) \<Rightarrow> syscall \<Rightarrow> kernel \<Rightarrow> outcome \<times> kernel" where
  "sys_call sha lc (Read fd buf len) k = (case sys_read fd buf len k of (r, b, k) \<Rightarrow> (RCount r b, k))"
| "sys_call sha lc (Write fd buf) k = (case sys_write fd buf k of (r, k) \<Rightarrow> (RWritten r, k))"
| "sys_call sha lc (Exec env) k = (case sys_exec env k of (r, k) \<Rightarrow> (RHandle r, k))"
| "sys_call sha lc Fork k = (case sys_fork k of (r, k) \<Rightarrow> (RHandle r, k))"
| "sys_call sha lc (Mmap len prot) k = (case sys_mmap len prot k of (r, k) \<Rightarrow> (RPtr r, k))"
| "sys_call sha lc (Munmap addr len) k = (RUnit (sys_munmap addr len), k)"
| "sys_call sha lc Time k = (case sys_time k of (r, k) \<Rightarrow> (RHandle r, k))"
| "sys_call sha lc PidCurrent k = (RHandle (sys_pid_current sha), k)"
| "sys_call sha lc (EnvelopeSend env route) k = (case sys_envelope_send env route k of (r, k) \<Rightarrow> (RUnit r, k))"
| "sys_call sha lc (EnvelopeRecv buf wait) k = (case sys_envelope_recv buf wait k of (r, b, k) \<Rightarrow> (RCount r b, k))"
| "sys_call sha lc (HookwallPre env) k = (RVerdict (sys_hookwall_pre env), k)"
| "sys_call sha lc (HookwallPost env v) k = (case sys_hookwall_post sha env v k of (r, k) \<Rightarrow> (RUnit r, k))"
| "sys_call sha lc (CosignAppend rw) k = (case sys_cosign_append sha rw k of (r, k) \<Rightarrow> (RHandle r, k))"
| "sys_call sha lc (TierQuery path) k = (RTier (sys_tier_query lc path), k)"
| "sys_call sha lc (GnnInfer inp out) k = (case sys_gnn_infer inp out of (r, b) \<Rightarrow> (RCount r b, k))"
| "sys_call sha lc (VfsOpen path mode) k =
     (case vfs_open path mode (FD_STATE k) of (r, T) \<Rightarrow> (RFd r, k\<lparr>FD_STATE := T\<rparr>))"
| "sys_call sha lc (VfsClose fd) k =
     (case vfs_close fd (FD_STATE k) of (r, T) \<Rightarrow> (RClosed r, k\<lparr>FD_STATE := T\<rparr>))"

fun kernel_run :: "(bytes \<Rightarrow> bytes) \<Rightarrow> (string \<Rightarrow> string) \<Rightarrow> syscall list \<Rightarrow> kernel \<Rightarrow> outcome list \<times> kernel" where
  "kernel_run sha lc [] k = ([], k)"
| "kernel_run sha lc (c # cs) k =
     (let (r, k) = sys_call sha lc c k; (rs, k) = kernel_run sha lc cs k in (r # rs, k))"

lemma kernel_run_Cons:
  "snd (kernel_run sha lc (c # cs) k) = snd (kernel_run sha lc cs (snd (sys_call sha lc c k)))"
  "fst (kernel_run sha lc (c # cs) k) = fst (sys_call sha lc c k) # fst (kernel_run sha lc cs (snd (sys_call sha lc c k)))"
  by (simp_all add: split_beta Let_def)

lemma kernel_run_append:
  "kernel_run sha lc (cs @ ds) k =
     (fst (kernel_run sha lc cs k) @ fst (kernel_run sha lc ds (snd (kernel_run sha lc cs k))),
      snd (kernel_run sha lc ds (snd (kernel_run sha lc cs k))))"
  by (induction cs arbitrary: k) (simp_all add: split_beta Let_def)

declare kernel_run.simps(2) [simp del]

section \<open>Invariant\<close>

definition kernel_inv :: "kernel \<Rightarrow> bool" where
  "kernel_inv k \<longleftrightarrow> fd_inv (FD_STATE k) \<and> slot_inv (SLOT k) \<and> frame_inv (NEXT_VIRTUAL_BASE k) \<and>
     unat (SPAWN_CHILD_COUNTER k) \<le> AGENT_REGISTRY_MAX"

lemma kernel_inv_boot: "kernel_inv kernel_boot"
  by (simp add: kernel_inv_def kernel_boot_def fd_inv_init slot_inv_init frame_inv_init)

lemma kernel_inv_slot: "kernel_inv k \<Longrightarrow> slot_inv s \<Longrightarrow> kernel_inv (k\<lparr>SLOT := s\<rparr>)"
  by (simp add: kernel_inv_def)

lemma dispatch_errors:
  assumes "dispatch_enqueue_bytes env route s = (r, t)"
  obtains "r = Ok ()" | "r = Err EnvelopeErr.QueueFull" | "r = Err EnvelopeErr.PayloadOversize"
  using assms by (auto simp: dispatch_enqueue_bytes_def split: if_splits)

lemma dequeue_errors:
  assumes "slot_inv s" and "dispatch_dequeue_bytes buf wait s = (r, b, t)"
  obtains n where "r = Ok n" | "r = Err EnvelopeErr.QueueEmpty" | "r = Err EnvelopeErr.PayloadOversize"
  using dequeue_refines [OF assms] by (auto simp: buf_deq_def split: option.splits if_splits)

text \<open>A read or write reaches the slot only on a bus descriptor.\<close>

lemma low_fd:
  assumes "unat (fd :: u64) < 3"
  shows "fd = STDIN_FD \<or> fd = STDOUT_FD \<or> fd = STDERR_FD"
proof -
  have "unat fd = 0 \<or> unat fd = 1 \<or> unat fd = 2" using assms by linarith
  moreover have "fd = word_of_nat (unat fd)" by simp
  ultimately show ?thesis by (elim disjE) (simp_all add: fd_consts)
qed

lemma vfs_write_other: "\<not> (bus_fd fd T \<and> buf \<noteq> []) \<Longrightarrow> snd (vfs_write fd buf T s) = s"
  using low_fd [of fd] by (auto simp: vfs_write_def Let_def bus_fd_def not_le)

lemma vfs_read_other: "\<not> (bus_fd fd T \<and> len \<le> length buf) \<Longrightarrow> snd (vfs_read fd buf len T s) = (buf, s)"
  using low_fd [of fd] by (auto simp: vfs_read_def Let_def bus_fd_def not_le)

lemma vfs_write_inv: "slot_inv s \<Longrightarrow> slot_inv (snd (vfs_write fd buf T s))"
  using vfs_write_other [of fd T buf s] vfs_write_bus [of fd T buf s] enqueue_refines [of s buf 0]
  by (cases "dispatch_enqueue_bytes buf 0 s") fastforce

lemma vfs_read_inv: "slot_inv s \<Longrightarrow> slot_inv (snd (snd (vfs_read fd buf len T s)))"
  using vfs_read_other [of fd T len buf s] vfs_read_bus [of fd T len buf s] dequeue_refines [of s "take len buf" 0]
  by (cases "dispatch_dequeue_bytes (take len buf) 0 s") fastforce

lemma sys_read_slot:
  "snd (snd (sys_read fd buf len k)) = k\<lparr>SLOT := snd (snd (vfs_read fd buf len (FD_STATE k) (SLOT k)))\<rparr>"
  by (cases "len > length buf") (auto simp: sys_read_def vfs_read_def split: prod.split result.split)

lemma sys_write_slot:
  "snd (sys_write fd buf k) = k\<lparr>SLOT := snd (vfs_write fd buf (FD_STATE k) (SLOT k))\<rparr>"
  by (cases "buf = []") (auto simp: sys_write_def vfs_write_def split: prod.split result.split)

lemma sys_call_inv:
  assumes "kernel_inv k"
  shows "kernel_inv (snd (sys_call sha lc c k))"
proof (cases c)
  case (Read fd buf len)
  then show ?thesis using assms vfs_read_inv [of "SLOT k"] sys_read_slot [of fd buf len k]
    by (auto simp: kernel_inv_def split: prod.splits)
next
  case (Write fd buf)
  then show ?thesis using assms vfs_write_inv [of "SLOT k"] sys_write_slot [of fd buf k]
    by (auto simp: kernel_inv_def split: prod.splits)
next
  case (Exec env)
  obtain r t where d: "dispatch_enqueue_bytes env 0 (SLOT k) = (r, t)" by fastforce
  with assms have "slot_inv t" using enqueue_refines [of "SLOT k" env 0 r t] by (simp add: kernel_inv_def)
  then show ?thesis using Exec assms d by (cases rule: dispatch_errors [OF d]) (simp_all add: sys_exec_def kernel_inv_def)
next
  case (EnvelopeSend env route)
  obtain r t where d: "dispatch_enqueue_bytes env route (SLOT k) = (r, t)" by fastforce
  with assms have "slot_inv t" using enqueue_refines [of "SLOT k" env route r t] by (simp add: kernel_inv_def)
  then show ?thesis using EnvelopeSend assms d
    by (cases rule: dispatch_errors [OF d]) (simp_all add: sys_envelope_send_def kernel_inv_def)
next
  case (EnvelopeRecv buf wait)
  obtain r b t where d: "dispatch_dequeue_bytes buf wait (SLOT k) = (r, b, t)" by (metis prod_cases3)
  have inv: "slot_inv (SLOT k)" using assms by (simp add: kernel_inv_def)
  have "slot_inv t" using dequeue_refines [OF inv d] by simp
  then show ?thesis using EnvelopeRecv assms d
    by (cases rule: dequeue_errors [OF inv d]) (simp_all add: sys_envelope_recv_def kernel_inv_def)
next
  case Fork
  then show ?thesis using assms
    by (auto simp: kernel_inv_def sys_fork_def spawn_child_agent_def AGENT_REGISTRY_MAX_def Let_def unat_word_ariths)
next
  case (Mmap len prot)
  then show ?thesis using assms alloc_pages_inv [of "NEXT_VIRTUAL_BASE k" len]
    by (auto simp: kernel_inv_def sys_mmap_def split: prod.splits result.splits FrameErr.splits)
next
  case (VfsOpen path mode)
  then show ?thesis using assms fd_inv_open [of "FD_STATE k"] by (auto simp: kernel_inv_def split: prod.splits)
next
  case (VfsClose fd)
  then show ?thesis using assms fd_inv_close [of "FD_STATE k"] by (auto simp: kernel_inv_def split: prod.splits)
qed (use assms in \<open>auto simp: kernel_inv_def sys_time_def sys_hookwall_post_def sys_cosign_append_def split: prod.splits\<close>)

lemma kernel_run_inv: "kernel_inv k \<Longrightarrow> kernel_inv (snd (kernel_run sha lc cs k))"
proof (induction cs arbitrary: k)
  case (Cons c cs)
  from Cons.IH [OF sys_call_inv [OF Cons.prems, of sha lc c]] show ?case by (simp add: kernel_run_Cons)
qed simp

section \<open>The bus through the surface\<close>

text \<open>What a call does to the one-place buffer behind the slot.\<close>

fun bus_effect :: "syscall \<Rightarrow> fd_table \<Rightarrow> message option \<Rightarrow> message option" where
  "bus_effect (EnvelopeSend env route) T b = (if length env < MIN_ENVELOPE_BYTES then b else snd (buf_enq (env, route) b))"
| "bus_effect (Exec env) T b = (if length env < MIN_ENVELOPE_BYTES then b else snd (buf_enq (env, 0) b))"
| "bus_effect (Write fd buf) T b = (if bus_fd fd T \<and> buf \<noteq> [] then snd (buf_enq (buf, 0) b) else b)"
| "bus_effect (EnvelopeRecv buf wait) T b = (if buf = [] then b else snd (snd (buf_deq buf b)))"
| "bus_effect (Read fd buf len) T b =
     (if bus_fd fd T \<and> len \<le> length buf then snd (snd (buf_deq (take len buf) b)) else b)"
| "bus_effect c T b = b"

definition bus :: "kernel \<Rightarrow> message option" where
  "bus k = slot_abs (SLOT k)"

lemma sys_call_bus:
  assumes "kernel_inv k"
  shows "bus (snd (sys_call sha lc c k)) = bus_effect c (FD_STATE k) (bus k)"
proof (cases c)
  case (Read fd buf len)
  have inv: "slot_inv (SLOT k)" using assms by (simp add: kernel_inv_def)
  obtain r v t where d: "dispatch_dequeue_bytes (take len buf) 0 (SLOT k) = (r, v, t)" by (metis prod_cases3)
  show ?thesis
    using Read sys_read_slot [of fd buf len k] vfs_read_other [of fd "FD_STATE k" len buf "SLOT k"]
      vfs_read_bus [OF _ _ inv d, of fd "FD_STATE k"] dequeue_refines [OF inv d]
    by (auto simp: bus_def split: prod.splits)
next
  case (Write fd buf)
  have inv: "slot_inv (SLOT k)" using assms by (simp add: kernel_inv_def)
  obtain r t where d: "dispatch_enqueue_bytes buf 0 (SLOT k) = (r, t)" by fastforce
  show ?thesis
    using Write sys_write_slot [of fd buf k] vfs_write_other [of fd "FD_STATE k" buf "SLOT k"]
      vfs_write_bus [OF _ _ d, of fd "FD_STATE k"] enqueue_refines [OF inv d]
    by (auto simp: bus_def split: prod.splits)
next
  case (Exec env)
  have inv: "slot_inv (SLOT k)" using assms by (simp add: kernel_inv_def)
  obtain r t where d: "dispatch_enqueue_bytes env 0 (SLOT k) = (r, t)" by fastforce
  from enqueue_refines [OF inv d] show ?thesis using Exec d
    by (cases rule: dispatch_errors [OF d]) (auto simp: bus_def sys_exec_def)
next
  case (EnvelopeSend env route)
  have inv: "slot_inv (SLOT k)" using assms by (simp add: kernel_inv_def)
  obtain r t where d: "dispatch_enqueue_bytes env route (SLOT k) = (r, t)" by fastforce
  from enqueue_refines [OF inv d] show ?thesis using EnvelopeSend d
    by (cases rule: dispatch_errors [OF d]) (auto simp: bus_def sys_envelope_send_def)
next
  case (EnvelopeRecv buf wait)
  have inv: "slot_inv (SLOT k)" using assms by (simp add: kernel_inv_def)
  obtain r b t where d: "dispatch_dequeue_bytes buf wait (SLOT k) = (r, b, t)" by (metis prod_cases3)
  from dequeue_refines [OF inv d] show ?thesis using EnvelopeRecv d
    by (cases rule: dequeue_errors [OF inv d]) (auto simp: bus_def sys_envelope_recv_def)
next
  case Fork
  then show ?thesis by (auto simp: bus_def sys_fork_def spawn_child_agent_def Let_def)
next
  case (Mmap len prot)
  then show ?thesis by (auto simp: bus_def sys_mmap_def split: prod.splits result.splits FrameErr.splits)
qed (auto simp: bus_def sys_time_def sys_hookwall_post_def sys_cosign_append_def split: prod.splits)

lemma sys_envelope_send_bus:
  assumes "kernel_inv k" and "sys_envelope_send env route k = (r, k')"
  shows "r = (if length env < 32 \<or> 1024 < length env then Err SyscallErr.Invalid
              else if bus k = None then Ok () else Err SyscallErr.Exhausted)"
    and "k' = k\<lparr>SLOT := SLOT k'\<rparr>" and "bus k' = (if r = Ok () then Some (env, route) else bus k)"
proof -
  have inv: "slot_inv (SLOT k)" using assms by (simp add: kernel_inv_def)
  obtain q t where d: "dispatch_enqueue_bytes env route (SLOT k) = (q, t)" by fastforce
  note e = enqueue_refines [OF inv d] and defs = sys_envelope_send_def MIN_ENVELOPE_BYTES_def bus_def buf_enq_def ENVELOPE_SLOT_BYTES_def
  show "r = (if length env < 32 \<or> 1024 < length env then Err SyscallErr.Invalid
              else if bus k = None then Ok () else Err SyscallErr.Exhausted)"
    using assms(2) d e by (cases rule: dispatch_errors [OF d]) (auto simp: defs split: if_splits option.splits)
  show "k' = k\<lparr>SLOT := SLOT k'\<rparr>" "bus k' = (if r = Ok () then Some (env, route) else bus k)"
    using assms(2) d e by (cases rule: dispatch_errors [OF d]; auto simp: defs split: if_splits option.splits)+
qed

lemma sys_exec_send:
  "sys_exec env k =
     (case sys_envelope_send env 0 k of
        (Ok _, k') \<Rightarrow> (Ok (EXEC_HANDLE_NEXT k), k'\<lparr>EXEC_HANDLE_NEXT := EXEC_HANDLE_NEXT k + 1\<rparr>)
      | (Err e, k') \<Rightarrow> (Err e, k'))"
  by (auto simp: sys_exec_def sys_envelope_send_def split: prod.split result.split EnvelopeErr.split)

lemma sys_envelope_recv_bus:
  assumes "kernel_inv k" and "buf \<noteq> []" and "sys_envelope_recv buf wait k = (r, buf', k')"
  shows "(r, buf') = (case bus k of
        None \<Rightarrow> (Err SyscallErr.WouldBlock, buf)
      | Some (m, _) \<Rightarrow> if length buf < length m then (Err SyscallErr.Invalid, buf)
                     else (Ok (length m), m @ drop (length m) buf))"
    and "k' = k\<lparr>SLOT := SLOT k'\<rparr>" and "bus k' = (if is_ok r then None else bus k)"
proof -
  have inv: "slot_inv (SLOT k)" using assms by (simp add: kernel_inv_def)
  obtain q b t where d: "dispatch_dequeue_bytes buf wait (SLOT k) = (q, b, t)" by (metis prod_cases3)
  note e = dequeue_refines [OF inv d] and defs = sys_envelope_recv_def bus_def buf_deq_def
  show "(r, buf') = (case bus k of
        None \<Rightarrow> (Err SyscallErr.WouldBlock, buf)
      | Some (m, _) \<Rightarrow> if length buf < length m then (Err SyscallErr.Invalid, buf)
                     else (Ok (length m), m @ drop (length m) buf))"
    using assms(2,3) d e by (cases rule: dequeue_errors [OF inv d]) (auto simp: defs split: if_splits option.splits)
  show "k' = k\<lparr>SLOT := SLOT k'\<rparr>" "bus k' = (if is_ok r then None else bus k)"
    using assms(2,3) d e by (cases rule: dequeue_errors [OF inv d]; auto simp: defs split: if_splits option.splits)+
qed

text \<open>The calls that can take a message from the bus.\<close>

definition receives :: "syscall \<Rightarrow> bool" where
  "receives c = (case c of EnvelopeRecv _ _ \<Rightarrow> True | Read _ _ _ \<Rightarrow> True | _ \<Rightarrow> False)"

lemma bus_kept_call: "\<not> receives c \<Longrightarrow> bus_effect c T (Some m) = Some m"
  by (cases c) (auto simp: receives_def buf_enq_def)

lemma bus_kept:
  "kernel_inv k \<Longrightarrow> bus k = Some m \<Longrightarrow> \<not> list_ex receives cs \<Longrightarrow> bus (snd (kernel_run sha lc cs k)) = Some m"
proof (induction cs arbitrary: k)
  case (Cons c cs)
  then have "bus (snd (sys_call sha lc c k)) = Some m"
    using sys_call_bus [OF Cons.prems(1), of sha lc c] bus_kept_call [of c "FD_STATE k" m] by simp
  then show ?case using Cons sys_call_inv [OF Cons.prems(1), of sha lc c] by (simp add: kernel_run_Cons)
qed simp

section \<open>Frames: which call changes which counter\<close>

lemma sys_call_clock:
  "MONOTONIC_COUNTER (snd (sys_call sha lc c k)) = MONOTONIC_COUNTER k + (if c = Time then 1 else 0)"
proof (cases c)
  case (Read fd buf len)
  then show ?thesis using sys_read_slot [of fd buf len k] by (auto split: prod.splits)
next
  case (Write fd buf)
  then show ?thesis using sys_write_slot [of fd buf k] by (auto split: prod.splits)
next
  case (Exec env)
  then show ?thesis by (auto simp: sys_exec_def split: prod.splits result.splits EnvelopeErr.splits)
next
  case (EnvelopeSend env route)
  then show ?thesis by (auto simp: sys_envelope_send_def split: prod.splits result.splits EnvelopeErr.splits)
next
  case (EnvelopeRecv buf wait)
  then show ?thesis by (auto simp: sys_envelope_recv_def split: prod.splits result.splits EnvelopeErr.splits)
next
  case Fork
  then show ?thesis by (auto simp: sys_fork_def split: prod.splits result.splits AgentErr.splits)
next
  case (Mmap len prot)
  then show ?thesis by (auto simp: sys_mmap_def split: prod.splits result.splits FrameErr.splits)
qed (auto simp: sys_time_def sys_hookwall_post_def sys_cosign_append_def split: prod.splits)

lemma sys_call_base:
  "NEXT_VIRTUAL_BASE (snd (sys_call sha lc c k)) =
     (case c of Mmap len prot \<Rightarrow> if prot = 0 then NEXT_VIRTUAL_BASE k else snd (alloc_pages len (NEXT_VIRTUAL_BASE k))
      | _ \<Rightarrow> NEXT_VIRTUAL_BASE k)"
proof (cases c)
  case (Read fd buf len)
  then show ?thesis using sys_read_slot [of fd buf len k] by (auto split: prod.splits)
next
  case (Write fd buf)
  then show ?thesis using sys_write_slot [of fd buf k] by (auto split: prod.splits)
next
  case (Exec env)
  then show ?thesis by (auto simp: sys_exec_def split: prod.splits result.splits EnvelopeErr.splits)
next
  case (EnvelopeSend env route)
  then show ?thesis by (auto simp: sys_envelope_send_def split: prod.splits result.splits EnvelopeErr.splits)
next
  case (EnvelopeRecv buf wait)
  then show ?thesis by (auto simp: sys_envelope_recv_def split: prod.splits result.splits EnvelopeErr.splits)
next
  case Fork
  then show ?thesis by (auto simp: sys_fork_def split: prod.splits result.splits AgentErr.splits)
next
  case (Mmap len prot)
  then show ?thesis
    by (auto simp: sys_mmap_def alloc_pages_def Let_def split: prod.splits result.splits FrameErr.splits)
qed (auto simp: sys_time_def sys_hookwall_post_def sys_cosign_append_def split: prod.splits)

definition clock_tick :: "(bytes \<Rightarrow> bytes) \<Rightarrow> (string \<Rightarrow> string) \<Rightarrow> syscall \<Rightarrow> kernel \<Rightarrow> u64 option \<times> kernel" where
  "clock_tick sha lc c k =
     ((case (c, fst (sys_call sha lc c k)) of (Time, RHandle (Ok v)) \<Rightarrow> Some v | _ \<Rightarrow> None), snd (sys_call sha lc c k))"

interpretation kernel_clock: ticket_counter "clock_tick sha lc" MONOTONIC_COUNTER 0 for sha lc
proof
  fix c k v t
  assume "clock_tick sha lc c k = (Some v, t)"
  then show "v = MONOTONIC_COUNTER k + 0 \<and> MONOTONIC_COUNTER t = MONOTONIC_COUNTER k + 1"
    using sys_call_clock [of sha lc c k]
    by (auto simp: clock_tick_def sys_time_def split: syscall.splits outcome.splits result.splits)
next
  fix c k t
  assume "clock_tick sha lc c k = (None, t)"
  then show "MONOTONIC_COUNTER t = MONOTONIC_COUNTER k"
    using sys_call_clock [of sha lc c k]
    by (auto simp: clock_tick_def sys_time_def split: syscall.splits outcome.splits result.splits)
qed

section \<open>Memory handed out by a run\<close>

fun regions :: "(bytes \<Rightarrow> bytes) \<Rightarrow> (string \<Rightarrow> string) \<Rightarrow> syscall list \<Rightarrow> kernel \<Rightarrow> (nat \<times> nat) list" where
  "regions sha lc [] k = []"
| "regions sha lc (c # cs) k =
     (case (c, fst (sys_call sha lc c k)) of
        (Mmap len _, RPtr (Ok p)) \<Rightarrow> (unat p, unat len) # regions sha lc cs (snd (sys_call sha lc c k))
      | _ \<Rightarrow> regions sha lc cs (snd (sys_call sha lc c k)))"

definition mmap_lens :: "syscall list \<Rightarrow> usize list" where
  "mmap_lens cs = concat (map (\<lambda>c. case c of Mmap len prot \<Rightarrow> if prot = 0 then [] else [len] | _ \<Rightarrow> []) cs)"

lemma mmap_lens_simps [simp]:
  "mmap_lens [] = []"
  "mmap_lens (c # cs) = (case c of Mmap len prot \<Rightarrow> if prot = 0 then [] else [len] | _ \<Rightarrow> []) @ mmap_lens cs"
  by (simp_all add: mmap_lens_def)

lemma alloc_nat_word:
  assumes "frame_inv n"
  shows "alloc_nat len (unat n) =
    (case alloc_pages len n of (Ok p, n') \<Rightarrow> (Some (unat p), unat n') | (Err _, _) \<Rightarrow> (None, unat n))"
proof -
  have "unat n \<le> 67112960" using assms by (simp add: frame_inv_def word_le_nat_alt unat_END)
  then show ?thesis by (simp add: alloc_nat_def split: prod.split result.split)
qed

lemma sys_mmap_eq:
  "sys_mmap len prot k =
     (if prot = 0 then (Err SyscallErr.Invalid, k)
      else case alloc_pages len (NEXT_VIRTUAL_BASE k) of
             (Ok p, n) \<Rightarrow> (Ok p, k\<lparr>NEXT_VIRTUAL_BASE := n\<rparr>)
           | (Err e, _) \<Rightarrow> (Err (if e = FrameErr.PoolExhausted then SyscallErr.Exhausted else SyscallErr.Invalid), k))"
  by (auto simp: sys_mmap_def alloc_pages_def Let_def)

lemma regions_blocks:
  "kernel_inv k \<Longrightarrow> regions sha lc cs k = frames.blocks (mmap_lens cs) (unat (NEXT_VIRTUAL_BASE k))"
proof (induction cs arbitrary: k)
  case (Cons c cs)
  let ?k = "snd (sys_call sha lc c k)"
  have ih: "regions sha lc cs ?k = frames.blocks (mmap_lens cs) (unat (NEXT_VIRTUAL_BASE ?k))"
    using Cons.IH sys_call_inv [OF Cons.prems] by blast
  show ?case
  proof (cases "\<exists>len prot. c = Mmap len prot")
    case False
    then show ?thesis using ih by (auto simp: sys_call_base split: syscall.splits)
  next
    case True
    then obtain len prot where c: "c = Mmap len prot" by blast
    have inv: "frame_inv (NEXT_VIRTUAL_BASE k)" using Cons.prems by (simp add: kernel_inv_def)
    obtain r n where al: "alloc_pages len (NEXT_VIRTUAL_BASE k) = (r, n)" by fastforce
    show ?thesis
    proof (cases r)
      case (Ok p)
      then show ?thesis using ih by (cases "prot = 0") (simp_all add: c al sys_mmap_eq alloc_nat_word [OF inv])
    next
      case (Err e)
      then show ?thesis using ih by (cases "prot = 0") (simp_all add: c al sys_mmap_eq alloc_nat_word [OF inv])
    qed
  qed
qed simp

lemma regions_aligned:
  "kernel_inv k \<Longrightarrow> (p, l) \<in> set (regions sha lc cs k) \<Longrightarrow> p mod 4096 = 0 \<and> 0 < l \<and> l < 2 ^ 64"
proof (induction cs arbitrary: k)
  case (Cons c cs)
  let ?k = "snd (sys_call sha lc c k)"
  show ?case
  proof (cases "(p, l) \<in> set (regions sha lc cs ?k)")
    case True
    then show ?thesis using Cons.IH sys_call_inv [OF Cons.prems(1)] by blast
  next
    case False
    then obtain len prot q where c: "c = Mmap len prot" and r: "fst (sys_call sha lc c k) = RPtr (Ok q)"
      and pl: "p = unat q" "l = unat len"
      using Cons.prems(2) by (auto split: syscall.splits outcome.splits result.splits)
    then obtain n where "alloc_pages len (NEXT_VIRTUAL_BASE k) = (Ok q, n)"
      by (auto simp: sys_mmap_eq split: if_splits prod.splits result.splits)
    from alloc_pages_Ok [OF this] show ?thesis
      using pl Cons.prems(1) unsigned_less [of len] by (auto simp: kernel_inv_def frame_inv_def unat_gt_0)
  qed
qed simp

lemma sys_munmap_ok:
  assumes "4096 \<le> p" and "p < 67112960" and "p mod 4096 = 0" and "0 < l" and "l < 2 ^ 64"
  shows "sys_munmap (word_of_nat p) (word_of_nat l) = Ok ()"
proof -
  have u: "unat (word_of_nat p :: usize) = p" "unat (word_of_nat l :: usize) = l"
    using assms by (simp_all add: unat_of_nat)
  then have "(word_of_nat p :: usize) \<noteq> 0" "(word_of_nat l :: usize) \<noteq> 0"
    using assms by (metis unat_0 less_numeral_extra(3) not_numeral_le_zero)+
  moreover have "unat ((word_of_nat p :: usize) mod PAGE_BYTES) = 0"
    using u assms by (simp add: unat_mod PAGE_BYTES_def)
  then have "(word_of_nat p :: usize) mod PAGE_BYTES = 0" by (simp only: unat_eq_zero)
  moreover have "\<not> (word_of_nat p :: usize) < VIRTUAL_BASE_START" "\<not> VIRTUAL_BASE_END \<le> (word_of_nat p :: usize)"
    using u assms by (simp_all add: word_less_nat_alt word_le_nat_alt unat_START unat_END)
  ultimately show ?thesis by (simp add: sys_munmap_def free_pages_def)
qed

section \<open>Properties\<close>

text \<open>C1: after any sequence of calls from boot the global state is well formed: the descriptor table has
  256 entries of known kind with the three standard ones untouched, the slot is empty or full with a
  length in range, the allocator's watermark is page-aligned inside the pool, and at most 10000 child
  handles were issued.\<close>

theorem kernel_invariant: "kernel_inv (snd (kernel_run sha lc cs kernel_boot))"
  by (rule kernel_run_inv [OF kernel_inv_boot])

text \<open>C3: memory through the syscall surface. In any run of calls from a well-formed state whose mapping
  requests are at most 2^64 - 4096 bytes, the regions that \<open>sys_mmap\<close> returned are page-aligned, lie in the
  pool and are pairwise disjoint, whatever other calls are made in between, and unmapping any of them
  succeeds.\<close>

theorem kernel_memory:
  assumes "kernel_inv k" and "list_all (\<lambda>len. unat len + 4095 < 2 ^ 64) (mmap_lens cs)"
  shows "sorted_wrt (\<lambda>(p, l) (q, m). p + l \<le> q) (regions sha lc cs k) \<and>
    list_all (\<lambda>(p, l). p mod 4096 = 0 \<and> unat VIRTUAL_BASE_START \<le> p \<and> p + l \<le> unat VIRTUAL_BASE_END \<and>
      sys_munmap (word_of_nat p) (word_of_nat l) = Ok ()) (regions sha lc cs k)"
proof
  note b = regions_blocks [OF assms(1), of sha lc cs]
  show "sorted_wrt (\<lambda>(p, l) (q, m). p + l \<le> q) (regions sha lc cs k)"
    using frames.blocks_disjoint [OF assms(2)] by (simp add: b)
  have lo: "4096 \<le> unat (NEXT_VIRTUAL_BASE k)"
    using assms(1) by (simp add: kernel_inv_def frame_inv_def word_le_nat_alt unat_START)
  have "p mod 4096 = 0 \<and> 4096 \<le> p \<and> p + l \<le> 67112960 \<and> sys_munmap (word_of_nat p) (word_of_nat l) = Ok ()"
    if "(p, l) \<in> set (regions sha lc cs k)" for p l
    using regions_aligned [OF assms(1) that] frames.blocks_above [OF assms(2), of p l "unat (NEXT_VIRTUAL_BASE k)"] that lo
    by (auto simp: b unat_END intro!: sys_munmap_ok)
  then show "list_all (\<lambda>(p, l). p mod 4096 = 0 \<and> unat VIRTUAL_BASE_START \<le> p \<and> p + l \<le> unat VIRTUAL_BASE_END \<and>
      sys_munmap (word_of_nat p) (word_of_nat l) = Ok ()) (regions sha lc cs k)"
    by (auto simp: list_all_iff unat_END unat_START)
qed

theorem kernel_memory_witness:
  "\<exists>cs. regions (\<lambda>_. []) id cs kernel_boot = [(4096, 5000), (12288, 1)] \<and>
     sorted_wrt (\<lambda>(p, l) (q, m). p + l \<le> q) (regions (\<lambda>_. []) id cs kernel_boot)"
proof -
  let ?cs = "[Mmap 5000 3, Time, Mmap 1 1]"
  have "regions (\<lambda>_. []) id ?cs kernel_boot = [(4096, 5000), (12288, 1)]"
    by (simp add: sys_mmap_def alloc_pages_def bytes_needed_def kernel_boot_def frame_consts saturating_add_def
        sys_time_def)
  moreover have "list_all (\<lambda>len. unat len + 4095 < 2 ^ 64) (mmap_lens ?cs)" by simp
  note kernel_memory [OF kernel_inv_boot this, of "\<lambda>_. []" id]
  ultimately show ?thesis by blast
qed

text \<open>the clock. In any run of fewer than 2^64 calls, no two \<open>sys_time\<close> calls return the same value, and
  until the 64-bit counter wraps the values are strictly increasing, whatever other calls are made.\<close>

theorem kernel_time_monotonic:
  assumes "unat (MONOTONIC_COUNTER k) + length cs < 2 ^ 64"
  shows "distinct (kernel_clock.tickets sha lc cs k) \<and> sorted_wrt (<) (kernel_clock.tickets sha lc cs k)"
  using kernel_clock.tickets_distinct [of cs sha lc k] kernel_clock.tickets_increasing [of k cs sha lc] assms by simp

theorem kernel_time_monotonic_witness:
  "kernel_clock.tickets (\<lambda>_. []) id [Time, Fork, Time] kernel_boot = [0, 1] \<and>
   distinct (kernel_clock.tickets (\<lambda>_. []) id [Time, Fork, Time] kernel_boot)"
proof -
  have "unat (MONOTONIC_COUNTER kernel_boot) + length [Time, Fork, Time] < 2 ^ 64" by (simp add: kernel_boot_def)
  from kernel_time_monotonic [OF this, of "\<lambda>_. []" id] show ?thesis
    by (simp add: clock_tick_def sys_time_def sys_fork_def spawn_child_agent_def kernel_boot_def
        AGENT_REGISTRY_MAX_def)
qed





text \<open>process handles. From any well-formed state \<open>sys_fork\<close> returns the next handle of \<open>1..10000\<close>, and once all
  are issued it is refused as exhausted and changes nothing, for ever.\<close>

theorem kernel_fork_bounded:
  assumes "kernel_inv k"
  shows "sys_fork k =
    (if unat (SPAWN_CHILD_COUNTER k) < 10000
     then (Ok (SPAWN_CHILD_COUNTER k + 1), k\<lparr>SPAWN_CHILD_COUNTER := SPAWN_CHILD_COUNTER k + 1\<rparr>)
     else (Err SyscallErr.Exhausted, k))"
proof (cases "unat (SPAWN_CHILD_COUNTER k) < 10000")
  case True
  then show ?thesis by (simp add: sys_fork_def spawn_child_agent_def AGENT_REGISTRY_MAX_def Let_def)
next
  case False
  then have "unat (SPAWN_CHILD_COUNTER k) = 10000" using assms by (simp add: kernel_inv_def AGENT_REGISTRY_MAX_def)
  then have "SPAWN_CHILD_COUNTER k = 10000" by (metis of_nat_unat of_nat_numeral ucast_id)
  then show ?thesis by (simp add: sys_fork_def spawn_child_agent_def AGENT_REGISTRY_MAX_def Let_def)
qed

theorem kernel_fork_bounded_witness: "fst (sys_fork kernel_boot) = Ok 1"
  using kernel_fork_bounded [OF kernel_inv_boot] by (simp add: kernel_boot_def)

end
