(* ===== verification/Init.thy ===== *)
theory Init
  imports Kernel
begin

text \<open>
  The init process of \<^verbatim>\<open>kernel/boot/src/init.rs\<close>, which is the kernel's shell: it announces itself on the
  bus and then receives, gates, dispatches and answers envelopes for ever. One iteration of its loop
  is \<open>init_step\<close>; \<open>sys_exit\<close> does not return, which is the outcome \<open>Exited\<close>. Between two iterations
  other callers may make any sequence of kernel calls (\<open>init_run\<close>).
\<close>

section \<open>Constants and state\<close>

definition INIT_ENVELOPE_MAX :: nat where "INIT_ENVELOPE_MAX = 512"
definition RECV_FAILURE_THRESHOLD :: u32 where "RECV_FAILURE_THRESHOLD = 32"
definition RECV_WAIT_NS :: u64 where "RECV_WAIT_NS = 1000000000"
definition ROUTE_HINT_LOCAL :: u32 where "ROUTE_HINT_LOCAL = 0"

record init_st =
  kern :: kernel
  recv_buf :: bytes
  consecutive_failures :: u32
  seq :: u64

datatype dispatch_flow = Returned u64 kernel | Halted int kernel

datatype init_flow = Running init_st | Exited int kernel

section \<open>Emitting\<close>

definition emit_bytes :: "bytes \<Rightarrow> u64 \<Rightarrow> bytes \<Rightarrow> bytes" where
  "emit_bytes type_prefix sq body =
     (let buf = replicate INIT_ENVELOPE_MAX 0;
          buf = copy_at 0 type_prefix buf;
          buf = copy_at 4 (le_bytes 8 sq) buf;
          n = min (length body) (INIT_ENVELOPE_MAX - 12);
          buf = copy_at 12 (take n body) buf;
          send_len = max (12 + n) MIN_ENVELOPE_BYTES
      in take send_len buf)"

definition emit_envelope :: "bytes \<Rightarrow> u64 \<Rightarrow> bytes \<Rightarrow> kernel \<Rightarrow> u64 \<times> kernel" where
  "emit_envelope type_prefix sq body k =
     (case sys_envelope_send (emit_bytes type_prefix sq body) ROUTE_HINT_LOCAL k of (_, k) \<Rightarrow> (sq + 1, k))"

definition emit_init_ready :: "(bytes \<Rightarrow> bytes) \<Rightarrow> u64 \<Rightarrow> kernel \<Rightarrow> kernel" where
  "emit_init_ready sha pid k =
     (let buf = replicate 32 0;
          buf = copy_at 0 (as_bytes ''INIT'') buf;
          buf = copy_at 4 (le_bytes 8 (0 :: u64)) buf;
          buf = copy_at 12 (le_bytes 8 pid) buf;
          _ = sys_hookwall_pre buf;
          (_, k) = sys_envelope_send buf ROUTE_HINT_LOCAL k;
          (_, k) = sys_hookwall_post sha buf Proceed k
      in k)"

section \<open>Dispatch\<close>

fun exec_error_text :: "SyscallErr \<Rightarrow> string" where
  "exec_error_text SyscallErr.Invalid = ''invalid''"
| "exec_error_text SyscallErr.PermissionDenied = ''perm-denied''"
| "exec_error_text SyscallErr.HookwallBlock = ''hookwall-block''"
| "exec_error_text SyscallErr.Exhausted = ''exhausted''"
| "exec_error_text SyscallErr.WouldBlock = ''would-block''"
| "exec_error_text SyscallErr.Unimplemented = ''unimplemented''"
| "exec_error_text SyscallErr.CosignReject = ''cosign-reject''"

definition handle_exec :: "bytes \<Rightarrow> u64 \<Rightarrow> kernel \<Rightarrow> u64 \<times> kernel" where
  "handle_exec body sq k =
     (if body = [] then emit_envelope (as_bytes ''EERR'') sq (as_bytes ''empty-exec'') k
      else case sys_exec body k of
             (Ok handle, k) \<Rightarrow> emit_envelope (as_bytes ''EOKx'') sq (le_bytes 8 handle) k
           | (Err e, k) \<Rightarrow> emit_envelope (as_bytes ''EERR'') sq (as_bytes (exec_error_text e)) k)"

definition dispatch_envelope :: "(bytes \<Rightarrow> bytes) \<Rightarrow> bytes \<Rightarrow> bytes \<Rightarrow> u64 \<Rightarrow> kernel \<Rightarrow> dispatch_flow" where
  "dispatch_envelope sha type_prefix full_env sq k =
     (let verdict = (case sys_hookwall_pre full_env of Ok v \<Rightarrow> v | Err _ \<Rightarrow> HookwallVerdict.Block)
      in if verdict = HookwallVerdict.Block then
           let (sq, k) = emit_envelope (as_bytes ''BLOK'') sq type_prefix k;
               (_, k) = sys_hookwall_post sha full_env HookwallVerdict.Block k
           in Returned sq k
         else if verdict = HookwallVerdict.Hold then
           let (sq, k) = emit_envelope (as_bytes ''HOLD'') sq type_prefix k;
               (_, k) = sys_hookwall_post sha full_env HookwallVerdict.Hold k
           in Returned sq k
         else if type_prefix = as_bytes ''SHTD'' then
           let (sq, k) = emit_envelope (as_bytes ''FINI'') sq (as_bytes ''init-shutdown'') k;
               (_, k) = sys_hookwall_post sha full_env Proceed k;
               (_, k) = sys_cosign_append sha (as_bytes ''init-shutdown'') k
           in Halted 0 k
         else
           let (sq, k) =
                 (if type_prefix = as_bytes ''PING'' then emit_envelope (as_bytes ''PONG'') sq [] k
                  else if type_prefix = as_bytes ''EXEC'' then
                    (if length full_env < 12 then emit_envelope (as_bytes ''EERR'') sq (as_bytes ''short-exec'') k
                     else handle_exec (drop 12 full_env) sq k)
                  else if type_prefix = as_bytes ''VERS'' then emit_envelope (as_bytes ''VERS'') sq (as_bytes KERNEL_VERSION) k
                  else if type_prefix = as_bytes ''PIDA'' then
                    emit_envelope (as_bytes ''PIDA'') sq (as_bytes FEDERATION_ANCHOR_PID) k
                  else emit_envelope (as_bytes ''UNKN'') sq type_prefix k);
               (_, k) = sys_hookwall_post sha full_env Proceed k
           in Returned sq k)"

section \<open>The loop\<close>

definition init_start :: "(bytes \<Rightarrow> bytes) \<Rightarrow> kernel \<Rightarrow> init_st" where
  "init_start sha k =
     (let pid = (case sys_pid_current sha of Ok p \<Rightarrow> p | Err _ \<Rightarrow> 0)
      in \<lparr>kern = emit_init_ready sha pid k, recv_buf = replicate INIT_ENVELOPE_MAX 0,
          consecutive_failures = 0, seq = 1\<rparr>)"

definition init_step :: "(bytes \<Rightarrow> bytes) \<Rightarrow> init_st \<Rightarrow> init_flow" where
  "init_step sha st =
     (case sys_envelope_recv (recv_buf st) RECV_WAIT_NS (kern st) of
        (Ok n, buf, k) \<Rightarrow>
          if n \<ge> 4 then
            (case dispatch_envelope sha [buf ! 0, buf ! 1, buf ! 2, buf ! 3] (take n buf) (seq st) k of
               Returned sq k \<Rightarrow> Running \<lparr>kern = k, recv_buf = buf, consecutive_failures = 0, seq = sq\<rparr>
             | Halted status k \<Rightarrow> Exited status k)
          else Running (st\<lparr>kern := k, recv_buf := buf\<rparr>)
      | (Err SyscallErr.WouldBlock, buf, k) \<Rightarrow> Running (st\<lparr>kern := k, recv_buf := buf\<rparr>)
      | (Err _, buf, k) \<Rightarrow>
          let failures = saturating_add (consecutive_failures st) 1
          in if failures \<ge> RECV_FAILURE_THRESHOLD then
               (case emit_envelope (as_bytes ''SOS!'') (seq st) (as_bytes ''init-recv-exhausted'') k of
                  (_, k) \<Rightarrow> Exited 2 k)
             else Running (st\<lparr>kern := k, recv_buf := buf, consecutive_failures := failures\<rparr>))"

text \<open>The loop with other callers: before each iteration they make one of the given sequences of calls.\<close>

fun init_run :: "(bytes \<Rightarrow> bytes) \<Rightarrow> (string \<Rightarrow> string) \<Rightarrow> syscall list list \<Rightarrow> init_st \<Rightarrow> init_flow" where
  "init_run sha lc [] st = Running st"
| "init_run sha lc (cs # css) st =
     (case init_step sha (st\<lparr>kern := snd (kernel_run sha lc cs (kern st))\<rparr>) of
        Running st' \<Rightarrow> init_run sha lc css st'
      | Exited status k \<Rightarrow> Exited status k)"

section \<open>What is emitted\<close>

lemma emit_bytes_eq:
  assumes "length tp = 4"
  shows "emit_bytes tp sq body = tp @ le_bytes 8 sq @ take 500 body @ replicate (20 - length body) 0"
proof -
  have "copy_at 12 (take 500 body) (copy_at 4 (le_bytes 8 sq) (copy_at 0 tp (replicate INIT_ENVELOPE_MAX 0))) =
      tp @ le_bytes 8 sq @ take 500 body @ replicate (500 - length body) 0"
    using assms by (simp add: copy_at_def INIT_ENVELOPE_MAX_def bytes_simps)
  moreover have "take (min (length body) 500) body = take 500 body" by (simp add: min_def)
  ultimately have "emit_bytes tp sq body = take (max (12 + min (length body) 500) 32)
      (tp @ le_bytes 8 sq @ take 500 body @ replicate (500 - length body) 0)"
    by (simp add: emit_bytes_def Let_def INIT_ENVELOPE_MAX_def MIN_ENVELOPE_BYTES_def)
  then show ?thesis using assms
    by (cases "length body \<le> 20"; cases "length body \<le> 500") (simp_all add: bytes_simps max_def)
qed

lemma length_emit_bytes:
  assumes "length tp = 4"
  shows "32 \<le> length (emit_bytes tp sq body)" and "length (emit_bytes tp sq body) \<le> 512"
  using assms by (auto simp: emit_bytes_eq bytes_simps min_def)

lemma emit_envelope_pair: "emit_envelope tp sq body k = (sq + 1, snd (emit_envelope tp sq body k))"
  by (simp add: emit_envelope_def split_beta)

lemma emit_envelope_bus:
  assumes "kernel_inv k" and "length tp = 4"
  shows "kernel_inv (snd (emit_envelope tp sq body k))"
    and "bus (snd (emit_envelope tp sq body k)) =
           (case bus k of None \<Rightarrow> Some (emit_bytes tp sq body, 0) | Some m \<Rightarrow> Some m)"
    and "snd (emit_envelope tp sq body k) = k\<lparr>SLOT := SLOT (snd (emit_envelope tp sq body k))\<rparr>"
proof -
  obtain r k' where s: "sys_envelope_send (emit_bytes tp sq body) ROUTE_HINT_LOCAL k = (r, k')" by fastforce
  note b = sys_envelope_send_bus [OF assms(1) s] and l = length_emit_bytes [OF assms(2), of sq body]
  show "kernel_inv (snd (emit_envelope tp sq body k))"
    using sys_call_inv [OF assms(1), of id id "EnvelopeSend (emit_bytes tp sq body) ROUTE_HINT_LOCAL"]
    by (simp add: emit_envelope_def s)
  have "bus (snd (emit_envelope tp sq body k)) =
      (case bus k of None \<Rightarrow> Some (emit_bytes tp sq body, ROUTE_HINT_LOCAL) | Some m \<Rightarrow> Some m)"
    using b(1,3) l by (auto simp: emit_envelope_def s split: option.splits)
  then show "bus (snd (emit_envelope tp sq body k)) = (case bus k of None \<Rightarrow> Some (emit_bytes tp sq body, 0) | Some m \<Rightarrow> Some m)"
    by (simp only: ROUTE_HINT_LOCAL_def)
  show "snd (emit_envelope tp sq body k) = k\<lparr>SLOT := SLOT (snd (emit_envelope tp sq body k))\<rparr>"
    using b(2) by (simp add: emit_envelope_def s)
qed

section \<open>Dispatch and the hookwall slot\<close>

text \<open>The hookwall reads the first byte of the envelope as a slot number below 64; every command of the
  shell starts with an ASCII letter, which is not one.\<close>

lemma hookwall_high:
  assumes "2 \<le> length env" and "64 \<le> unat (env ! 0)"
  shows "sys_hookwall_pre env = Err SyscallErr.Invalid" and "sys_hookwall_post sha env v k = (Err SyscallErr.Invalid, k)"
  using assms by (simp_all add: sys_hookwall_pre_def sys_hookwall_post_def hook_context_def hookwall_pre_def
      hookwall_post_def HOOKWALL_SLOT_COUNT_def)

lemma dispatch_high:
  assumes "2 \<le> length full" and "64 \<le> unat (full ! 0)"
  shows "dispatch_envelope sha tp full sq k = Returned (sq + 1) (snd (emit_envelope (as_bytes ''BLOK'') sq tp k))"
proof -
  obtain k' where e: "emit_envelope (as_bytes ''BLOK'') sq tp k = (sq + 1, k')" using emit_envelope_pair by blast
  show ?thesis by (simp add: dispatch_envelope_def hookwall_high [OF assms] Let_def e)
qed

lemma command_high:
  assumes "tp \<in> set (map as_bytes [''PING'', ''EXEC'', ''SHTD'', ''VERS'', ''PIDA''])"
  shows "64 \<le> unat (tp ! 0)"
  using assms by (auto simp: as_bytes_def)

lemma dispatch_low:
  assumes "4 \<le> length full" and "unat (full ! 0) < 64"
  shows "dispatch_envelope sha (take 4 full) full sq k =
    (let (sq, k) = emit_envelope (as_bytes ''UNKN'') sq (take 4 full) k;
         (_, k) = sys_hookwall_post sha full Proceed k
     in Returned sq k)"
proof -
  have "take 4 full \<notin> set (map as_bytes [''PING'', ''EXEC'', ''SHTD'', ''VERS'', ''PIDA''])"
    using command_high [of "take 4 full"] assms by fastforce
  moreover have "sys_hookwall_pre full = Ok Proceed"
    using assms by (simp add: sys_hookwall_pre_def hook_context_def hookwall_pre_def HOOKWALL_SLOT_COUNT_def)
  ultimately show ?thesis by (simp add: dispatch_envelope_def)
qed

section \<open>Iterations\<close>

text \<open>Init waits on a message of its own kind: it fits the receive buffer and its first byte is a letter.\<close>

definition own :: "bytes \<Rightarrow> bool" where
  "own env \<longleftrightarrow> 32 \<le> length env \<and> length env \<le> 512 \<and> 64 \<le> unat (env ! 0)"

lemma own_emit: "length tp = 4 \<Longrightarrow> 64 \<le> unat (tp ! 0) \<Longrightarrow> own (emit_bytes tp sq body)"
  using length_emit_bytes [of tp sq body] by (simp add: own_def emit_bytes_eq nth_append)

lemma init_step_own:
  assumes "kernel_inv (kern st)" and "length (recv_buf st) = 512" and "bus (kern st) = Some (env, r)" and "own env"
  obtains st' where "init_step sha st = Running st'" and "kernel_inv (kern st')" and "length (recv_buf st') = 512"
    and "seq st' = seq st + 1"
    and "bus (kern st') = Some (emit_bytes (as_bytes ''BLOK'') (seq st) (take 4 env), 0)"
    and "kern st' = (kern st)\<lparr>SLOT := SLOT (kern st')\<rparr>"
proof -
  let ?buf = "env @ drop (length env) (recv_buf st)"
  have l: "32 \<le> length env" "length env \<le> 512" "64 \<le> unat (env ! 0)" using assms(4) by (simp_all add: own_def)
  have ne: "recv_buf st \<noteq> []" using assms(2) by auto
  obtain q b k where rc: "sys_envelope_recv (recv_buf st) RECV_WAIT_NS (kern st) = (q, b, k)" by (metis prod_cases3)
  note rb = sys_envelope_recv_bus [OF assms(1) ne rc]
  from rb(1) have q: "q = Ok (length env)" "b = ?buf" using assms(2,3) l by auto
  have k: "kernel_inv k" "bus k = None" "k = (kern st)\<lparr>SLOT := SLOT k\<rparr>"
    using sys_call_inv [OF assms(1), of id id "EnvelopeRecv (recv_buf st) RECV_WAIT_NS"] rc rb(2,3) q(1) by simp_all
  have pre: "[b ! 0, b ! 1, b ! 2, b ! 3] = take 4 env"
    using l(1) by (intro nth_equalityI) (auto simp: q(2) nth_append nth_Cons less_Suc_eq numeral_eq_Suc split: nat.splits)
  define st' where "st' = \<lparr>kern = snd (emit_envelope (as_bytes ''BLOK'') (seq st) (take 4 env) k), recv_buf = b,
    consecutive_failures = 0, seq = seq st + 1\<rparr>"
  have step: "init_step sha st = Running st'"
    using l rc q dispatch_high [of env sha "take 4 env" "seq st" k] unfolding init_step_def st'_def by (simp flip: pre)
  note e = emit_envelope_bus [OF k(1), of "as_bytes ''BLOK''" "seq st" "take 4 env"]
  show ?thesis
  proof (rule that [of st'])
    show "init_step sha st = Running st'" by (rule step)
    show "kernel_inv (kern st')" "seq st' = seq st + 1" using e(1) by (simp_all add: st'_def)
    show "length (recv_buf st') = 512" using q(2) assms(2) l by (simp add: st'_def)
    show "bus (kern st') = Some (emit_bytes (as_bytes ''BLOK'') (seq st) (take 4 env), 0)"
      using e(2) k(2) by (simp add: st'_def)
    have "kern st' = k\<lparr>SLOT := SLOT (kern st')\<rparr>" using e(3) by (simp add: st'_def)
    then show "kern st' = (kern st)\<lparr>SLOT := SLOT (kern st')\<rparr>"
      using arg_cong [OF k(3), of "\<lambda>x. x\<lparr>SLOT := SLOT (kern st')\<rparr>"] by simp
  qed
qed

text \<open>A message on the bus survives the calls of others, so the iteration finds it.\<close>

lemma init_run_own:
  "css \<noteq> [] \<Longrightarrow> list_all (\<lambda>cs. \<not> list_ex receives cs) css \<Longrightarrow> kernel_inv (kern st) \<Longrightarrow> length (recv_buf st) = 512 \<Longrightarrow>
   bus (kern st) = Some (env, r) \<Longrightarrow> own env \<Longrightarrow>
   \<exists>st' body. init_run sha lc css st = Running st' \<and> kernel_inv (kern st') \<and> seq st' = seq st + word_of_nat (length css) \<and>
     bus (kern st') = Some (emit_bytes (as_bytes ''BLOK'') (seq st' - 1) body, 0)"
proof (induction css arbitrary: st env r)
  case (Cons cs css)
  let ?st = "st\<lparr>kern := snd (kernel_run sha lc cs (kern st))\<rparr>"
  have kept: "bus (kern ?st) = Some (env, r)" using bus_kept [OF Cons.prems(3,5)] Cons.prems(2) by simp
  have inv: "kernel_inv (kern ?st)" using kernel_run_inv [OF Cons.prems(3)] by simp
  have len: "length (recv_buf ?st) = 512" using Cons.prems(4) by simp
  obtain st' where st': "init_step sha ?st = Running st'" "kernel_inv (kern st')" "length (recv_buf st') = 512"
      "seq st' = seq st + 1" "bus (kern st') = Some (emit_bytes (as_bytes ''BLOK'') (seq st) (take 4 env), 0)"
    using init_step_own [OF inv len kept Cons.prems(6), of sha] by auto
  show ?case
  proof (cases "css = []")
    case True
    then show ?thesis using st' by auto
  next
    case False
    have "own (emit_bytes (as_bytes ''BLOK'') (seq st) (take 4 env))" by (rule own_emit) (simp_all add: as_bytes_def)
    from Cons.IH [OF False _ st'(2,3,5) this] Cons.prems(2) obtain st'' body where
      "init_run sha lc css st' = Running st''" "kernel_inv (kern st'')" "seq st'' = seq st' + word_of_nat (length css)"
      "bus (kern st'') = Some (emit_bytes (as_bytes ''BLOK'') (seq st'' - 1) body, 0)" by auto
    then show ?thesis using st'(1,4) by (intro exI [of _ st'']) auto
  qed
qed simp

lemma init_start_own:
  obtains env where "bus (kern (init_start sha kernel_boot)) = Some (env, 0)" and "own env"
    and "kernel_inv (kern (init_start sha kernel_boot))" and "take 4 env = as_bytes ''INIT''"
    and "kern (init_start sha kernel_boot) = kernel_boot\<lparr>SLOT := SLOT (kern (init_start sha kernel_boot))\<rparr>"
proof -
  let ?pid = "u64_of_be (take 8 (sha (as_bytes FEDERATION_ANCHOR_PID)))"
  define buf where "buf = copy_at 12 (le_bytes 8 ?pid) (copy_at 4 (le_bytes 8 (0 :: u64)) (copy_at 0 (as_bytes ''INIT'') (replicate 32 0)))"
  have len: "length buf = 32" by (simp add: buf_def)
  have "buf ! 0 = of_char CHR ''I''" by (simp add: buf_def copy_at_def as_bytes_def nth_append)
  then have high: "64 \<le> unat (buf ! 0)" by simp
  obtain r k where s: "sys_envelope_send buf ROUTE_HINT_LOCAL kernel_boot = (r, k)" by fastforce
  have "bus kernel_boot = None" by (simp add: bus_def kernel_boot_def slot_abs_init)
  then have b: "bus k = Some (buf, ROUTE_HINT_LOCAL)"
    using sys_envelope_send_bus(1,3) [OF kernel_inv_boot s] len by simp
  have inv: "kernel_inv k"
    using sys_call_inv [OF kernel_inv_boot, of id id "EnvelopeSend buf ROUTE_HINT_LOCAL"] s by simp
  have pre: "take 4 buf = as_bytes ''INIT''" by (simp add: buf_def copy_at_def as_bytes_def)
  have start: "kern (init_start sha kernel_boot) = k"
    using hookwall_high(2) [of buf sha Proceed k] len high s
    by (simp add: init_start_def sys_pid_current_def emit_init_ready_def flip: buf_def)
  moreover have "k = kernel_boot\<lparr>SLOT := SLOT k\<rparr>" using sys_envelope_send_bus(2) [OF kernel_inv_boot s] by simp
  ultimately show ?thesis using that [of buf] b inv len high pre by (simp add: own_def ROUTE_HINT_LOCAL_def)
qed

text \<open>A message longer than the receive buffer makes every iteration fail.\<close>

lemma init_step_oversize:
  assumes "kernel_inv (kern st)" and "length (recv_buf st) = 512" and "bus (kern st) = Some (m, r)" and "512 < length m"
    and "unat (consecutive_failures st) < 32"
  obtains k where "kernel_inv k" and "bus k = Some (m, r)"
    and "init_step sha st = (if unat (consecutive_failures st) = 31 then Exited 2 k
           else Running (st\<lparr>kern := k, consecutive_failures := consecutive_failures st + 1\<rparr>))"
proof -
  have ne: "recv_buf st \<noteq> []" using assms(2) by auto
  obtain q b k where rc: "sys_envelope_recv (recv_buf st) RECV_WAIT_NS (kern st) = (q, b, k)" by (metis prod_cases3)
  note rb = sys_envelope_recv_bus [OF assms(1) ne rc]
  have q: "q = Err SyscallErr.Invalid" "b = recv_buf st" using rb(1) assms(2-4) by simp_all
  have k: "kernel_inv k" "bus k = Some (m, r)"
    using sys_call_inv [OF assms(1), of id id "EnvelopeRecv (recv_buf st) RECV_WAIT_NS"] rc rb(3) q(1) assms(3) by simp_all
  have f: "saturating_add (consecutive_failures st) 1 = consecutive_failures st + 1"
    "unat (consecutive_failures st + 1) = unat (consecutive_failures st) + 1"
    using assms(5) by (simp_all add: saturating_add_def unat_word_ariths)
  then have th: "RECV_FAILURE_THRESHOLD \<le> consecutive_failures st + 1 \<longleftrightarrow> unat (consecutive_failures st) = 31"
    using assms(5) by (auto simp: RECV_FAILURE_THRESHOLD_def word_le_nat_alt)
  let ?e = "emit_envelope (as_bytes ''SOS!'') (seq st) (as_bytes ''init-recv-exhausted'') k"
  note e = emit_envelope_bus [OF k(1), of "as_bytes ''SOS!''" "seq st" "as_bytes ''init-recv-exhausted''"]
  show ?thesis
  proof (cases "unat (consecutive_failures st) = 31")
    case True
    then show ?thesis using that [of "snd ?e"] e(1,2) k(2) rc q f(1) th by (simp add: init_step_def split_beta)
  next
    case False
    then show ?thesis using that [of k] k rc q f(1) th by (simp add: init_step_def)
  qed
qed

lemma init_run_oversize:
  "list_all (\<lambda>cs. \<not> list_ex receives cs) css \<Longrightarrow> kernel_inv (kern st) \<Longrightarrow> length (recv_buf st) = 512 \<Longrightarrow>
   bus (kern st) = Some (m, r) \<Longrightarrow> 512 < length m \<Longrightarrow> unat (consecutive_failures st) + length css = 32 \<Longrightarrow> css \<noteq> [] \<Longrightarrow>
   \<exists>k. init_run sha lc css st = Exited 2 k \<and> bus k = Some (m, r)"
proof (induction css arbitrary: st)
  case (Cons cs css)
  let ?st = "st\<lparr>kern := snd (kernel_run sha lc cs (kern st))\<rparr>"
  have kept: "bus (kern ?st) = Some (m, r)" using bus_kept [OF Cons.prems(2,4)] Cons.prems(1) by simp
  have inv: "kernel_inv (kern ?st)" using kernel_run_inv [OF Cons.prems(2)] by simp
  have len: "length (recv_buf ?st) = 512" using Cons.prems(3) by simp
  have fail: "unat (consecutive_failures ?st) < 32" using Cons.prems(6) by simp
  obtain k where k: "kernel_inv k" "bus k = Some (m, r)" "init_step sha ?st =
      (if unat (consecutive_failures ?st) = 31 then Exited 2 k
       else Running (?st\<lparr>kern := k, consecutive_failures := consecutive_failures ?st + 1\<rparr>))"
    using init_step_oversize [OF inv len kept Cons.prems(5) fail, of sha] by metis
  show ?case
  proof (cases "css = []")
    case True
    then show ?thesis using k Cons.prems(6) by simp
  next
    case False
    let ?st' = "?st\<lparr>kern := k, consecutive_failures := consecutive_failures ?st + 1\<rparr>"
    have n31: "unat (consecutive_failures ?st) \<noteq> 31" using False Cons.prems(6) by (cases css) auto
    have "unat (consecutive_failures ?st') + length css = 32"
      using Cons.prems(6) fail by (simp add: unat_word_ariths)
    then have "\<exists>k. init_run sha lc css ?st' = Exited 2 k \<and> bus k = Some (m, r)"
      using Cons.IH [of ?st'] Cons.prems(1,3,5) k(1,2) False by simp
    then show ?thesis using k(3) n31 by simp
  qed
qed simp

section \<open>Properties\<close>

text \<open>the shell's commands are never carried out. The hookwall takes the first byte of an envelope as a slot
  number below 64, so init answers \<open>BLOK\<close> to every envelope whose type starts with a byte of at least 64,
  in particular to all five documented commands, and \<open>UNKN\<close> to every other one; no envelope reaches
  \<open>sys_exec\<close> and none makes init exit.\<close>

theorem init_commands_blocked:
  assumes "4 \<le> length full"
  shows "\<exists>tag v. tag = (if 64 \<le> unat (full ! 0) then ''BLOK'' else ''UNKN'') \<and>
      dispatch_envelope sha (take 4 full) full sq k =
        Returned (sq + 1) (snd (sys_hookwall_post sha full v (snd (emit_envelope (as_bytes tag) sq (take 4 full) k)))) \<and>
      (take 4 full \<in> set (map as_bytes [''PING'', ''EXEC'', ''SHTD'', ''VERS'', ''PIDA'']) \<longrightarrow> tag = ''BLOK'')"
proof (cases "64 \<le> unat (full ! 0)")
  case True
  have two: "2 \<le> length full" using assms by simp
  show ?thesis using dispatch_high [OF two True] hookwall_high(2) [OF two True] True by simp
next
  case False
  obtain k' where e: "emit_envelope (as_bytes ''UNKN'') sq (take 4 full) k = (sq + 1, k')" using emit_envelope_pair by blast
  have "take 4 full \<notin> set (map as_bytes [''PING'', ''EXEC'', ''SHTD'', ''VERS'', ''PIDA''])"
    using command_high [of "take 4 full"] assms False by fastforce
  then show ?thesis using dispatch_low [OF assms, of sha sq k] False e
    by (intro exI [of _ "''UNKN''"] exI [of _ Proceed]) (simp add: split_beta)
qed

theorem init_commands_blocked_witness:
  "\<exists>k'. dispatch_envelope (\<lambda>_. []) (as_bytes ''PING'') (as_bytes ''PING'') 1 kernel_boot = Returned 2 k'"
  using init_commands_blocked [of "as_bytes ''PING''" "\<lambda>_. []" 1 kernel_boot] by auto

text \<open>C14: init starves the bus. From boot, however many iterations its loop makes and whatever calls other processes
  make between them short of receiving, init keeps running, after \<open>n\<close> iterations has answered its own
  messages \<open>n\<close> times, and the bus is occupied by its latest \<open>BLOK\<close> reply, so every send is refused.\<close>

theorem init_livelock:
  assumes "css \<noteq> []" and "list_all (\<lambda>cs. \<not> list_ex receives cs) css"
  shows "\<exists>st body. init_run sha lc css (init_start sha kernel_boot) = Running st \<and>
     seq st = 1 + word_of_nat (length css) \<and>
     bus (kern st) = Some (emit_bytes (as_bytes ''BLOK'') (seq st - 1) body, 0) \<and>
     (\<forall>env route. fst (sys_envelope_send env route (kern st)) \<noteq> Ok ())"
proof -
  obtain env where o: "bus (kern (init_start sha kernel_boot)) = Some (env, 0)" "own env"
    "kernel_inv (kern (init_start sha kernel_boot))" using init_start_own .
  have "length (recv_buf (init_start sha kernel_boot)) = 512" "seq (init_start sha kernel_boot) = 1"
    by (simp_all add: init_start_def INIT_ENVELOPE_MAX_def Let_def)
  with init_run_own [OF assms o(3) _ o(1,2), of sha lc] obtain st body where
    st: "init_run sha lc css (init_start sha kernel_boot) = Running st" "kernel_inv (kern st)"
      "seq st = 1 + word_of_nat (length css)" "bus (kern st) = Some (emit_bytes (as_bytes ''BLOK'') (seq st - 1) body, 0)"
    by auto
  have "fst (sys_envelope_send e rt (kern st)) \<noteq> Ok ()" for e rt
  proof -
    obtain q k where s: "sys_envelope_send e rt (kern st) = (q, k)" by fastforce
    show ?thesis using sys_envelope_send_bus(1) [OF st(2) s] st(4) by (simp add: s)
  qed
  then show ?thesis using st by blast
qed

theorem init_livelock_witness:
  "\<exists>st. init_run (\<lambda>_. []) id [[Time], [EnvelopeSend (replicate 40 1) 0]] (init_start (\<lambda>_. []) kernel_boot) = Running st \<and> seq st = 3"
  using init_livelock [of "[[Time], [EnvelopeSend (replicate 40 1) 0]]" "\<lambda>_. []" id] by (auto simp: receives_def)

text \<open>an oversized message stops init. The bus accepts messages of up to 1024 bytes but init receives at most
  512: with a longer message on the bus, init's next 32 iterations all fail and it exits with status 2,
  whatever other processes do short of receiving; the message is still on the bus, so the final \<open>SOS!\<close>
  is not sent.\<close>

theorem init_oversize_exit:
  assumes "kernel_inv (kern st)" and "length (recv_buf st) = 512" and "consecutive_failures st = 0"
    and "bus (kern st) = Some (m, r)" and "512 < length m"
    and "length css = 32" and "list_all (\<lambda>cs. \<not> list_ex receives cs) css"
  shows "\<exists>k. init_run sha lc css st = Exited 2 k \<and> bus k = Some (m, r)"
  using init_run_oversize [OF assms(7,1,2,4,5)] assms(3,6) by (cases css) auto

theorem init_oversize_exit_witness:
  "\<exists>st k. bus (kern st) = Some (replicate 600 1, 0) \<and> init_run (\<lambda>_. []) id (replicate 32 [Time]) st = Exited 2 k"
proof -
  obtain r k where s: "sys_envelope_send (replicate 600 1) 0 kernel_boot = (r, k)" by fastforce
  have "bus kernel_boot = None" by (simp add: bus_def kernel_boot_def slot_abs_init)
  then have b: "bus k = Some (replicate 600 1, 0)" using sys_envelope_send_bus(1,3) [OF kernel_inv_boot s] by simp
  have inv: "kernel_inv k" using sys_call_inv [OF kernel_inv_boot, of id id "EnvelopeSend (replicate 600 1) 0"] s by simp
  let ?st = "\<lparr>kern = k, recv_buf = replicate 512 0, consecutive_failures = 0, seq = 1\<rparr>"
  have "\<exists>k. init_run (\<lambda>_. []) id (replicate 32 [Time]) ?st = Exited 2 k \<and> bus k = Some (replicate 600 1, 0)"
    by (rule init_oversize_exit) (use inv b in \<open>simp_all add: list_all_iff receives_def\<close>)
  then show ?thesis using b by (intro exI [of _ ?st]) auto
qed

end
