(* ===== verification/Link_Auth.thy ===== *)
theory Link_Auth
  imports Crypto
begin

text \<open>
  Link authentication between hosts (\<^verbatim>\<open>kernel/core/src/link_auth/mod.rs\<close>): HMAC over a list of message
  parts, the verdict on a link request (shape, freshness, consent, key) and the access level an
  owner's grants allow. SHA-256 of the \<open>sha2\<close> crate is the parameter \<open>sha\<close>; the lemmas that need its
  digests to have 32 bytes are in the locale \<open>digest\<close>.
\<close>

section \<open>HMAC\<close>

definition HMAC_BLOCK :: nat where "HMAC_BLOCK = 64"

definition hmac_sha256_parts :: "(bytes \<Rightarrow> bytes) \<Rightarrow> bytes \<Rightarrow> bytes list \<Rightarrow> bytes" where
  "hmac_sha256_parts sha key parts =
     (let k0 = replicate HMAC_BLOCK 0;
          k0 = (if length key > HMAC_BLOCK then copy_at 0 (sha key) k0 else copy_at 0 key k0);
          ipad = map (\<lambda>i. k0 ! i XOR 0x36) [0..<HMAC_BLOCK];
          opad = map (\<lambda>i. k0 ! i XOR 0x5c) [0..<HMAC_BLOCK];
          inner_digest = sha (ipad @ concat parts);
          out = sha (opad @ inner_digest)
      in out)"

text \<open>RFC 2104, on the whole message: \<open>H(K' xor opad, H(K' xor ipad, m))\<close>.\<close>

definition rfc_hmac :: "(bytes \<Rightarrow> bytes) \<Rightarrow> bytes \<Rightarrow> bytes \<Rightarrow> bytes" where
  "rfc_hmac H key m =
     (let k = (if length key > 64 then H key else key);
          k = k @ replicate (64 - length k) 0
      in H (map (\<lambda>b. b XOR 0x5c) k @ H (map (\<lambda>b. b XOR 0x36) k @ m)))"

section \<open>Link requests\<close>

record LinkRequest =
  owner_pid :: string
  host :: string
  verb :: string
  nonce :: string
  ts_unix_s :: u64
  hmac_hex :: string

datatype LinkVerdict = Allow | DenyBadHmac | DenyOwnerNotGranted | DenyStale | DenyMalformed

text \<open>The comparison loop runs over all 32 bytes and has no early exit.\<close>

definition hmac_hex_matches :: "bytes \<Rightarrow> string \<Rightarrow> bool" where
  "hmac_hex_matches mac expected_hex =
     (if length expected_hex \<noteq> 64 then False
      else foldl (\<lambda>equal i.
             let hi = HEX ! unat (drop_bit 4 (mac ! i));
                 lo = HEX ! unat (mac ! i AND 0x0f)
             in if expected_hex ! (2 * i) \<noteq> hi \<or> expected_hex ! (2 * i + 1) \<noteq> lo then False else equal)
           True [0..<32])"

definition link_parts :: "LinkRequest \<Rightarrow> bytes list" where
  "link_parts req =
     [as_bytes ''LINK|'', as_bytes (owner_pid req), as_bytes ''|'', as_bytes (host req), as_bytes ''|'',
      as_bytes (verb req), as_bytes ''|'', as_bytes (nonce req), as_bytes ''|'', be_bytes 8 (ts_unix_s req)]"

definition verify_link :: "(bytes \<Rightarrow> bytes) \<Rightarrow> LinkRequest \<Rightarrow> bytes \<Rightarrow> string list \<Rightarrow> u64 \<Rightarrow> u64 \<Rightarrow> LinkVerdict" where
  "verify_link sha req shared_key granted_owner_pids now_unix_s max_skew_s =
     (if owner_pid req = [] \<or> host req = [] \<or> verb req = [] \<or> nonce req = [] \<or> length (hmac_hex req) \<noteq> 64
      then DenyMalformed
      else let diff = (if now_unix_s \<ge> ts_unix_s req then now_unix_s - ts_unix_s req else ts_unix_s req - now_unix_s)
           in if diff > max_skew_s then DenyStale
              else if \<not> list_ex (\<lambda>g. g = owner_pid req) granted_owner_pids then DenyOwnerNotGranted
              else let mac = hmac_sha256_parts sha shared_key (link_parts req)
                   in if hmac_hex_matches mac (hmac_hex req) then LinkVerdict.Allow else DenyBadHmac)"

section \<open>Access levels\<close>

record LinkGrant =
  grant_owner_pid :: string
  max_level :: u8

definition LEVEL_PUBLIC :: u8 where "LEVEL_PUBLIC = 0"

definition granted_level :: "string \<Rightarrow> LinkGrant list \<Rightarrow> u8 option" where
  "granted_level owner grants =
     foldl (\<lambda>best g.
         if grant_owner_pid g = owner then
           Some (case best of
                   Some b \<Rightarrow> if b \<ge> max_level g then b else max_level g
                 | None \<Rightarrow> max_level g)
         else best)
       None grants"

definition effective_level :: "string \<Rightarrow> u8 \<Rightarrow> LinkGrant list \<Rightarrow> u8 option" where
  "effective_level owner requested_level grants =
     map_option (\<lambda>g. if requested_level < g then requested_level else g) (granted_level owner grants)"

section \<open>Lemmas\<close>

context digest
begin

lemma hmac_parts_rfc: "hmac_sha256_parts H key parts = rfc_hmac H key (concat parts)"
proof -
  have pad: "map (\<lambda>i. copy_at 0 k (replicate 64 0) ! i XOR (c :: u8)) [0..<64] =
      map (\<lambda>b. b XOR c) (k @ replicate (64 - length k) 0)" if "length k \<le> 64" for k c
    using that by (intro nth_equalityI) (simp_all add: copy_at_def nth_append)
  show ?thesis
    by (cases "64 < length key")
      (simp_all add: hmac_sha256_parts_def rfc_hmac_def HMAC_BLOCK_def Let_def pad del: map_append replicate.simps)
qed

lemma length_hmac: "length (hmac_sha256_parts H key parts) = 32"
  by (simp add: hmac_sha256_parts_def Let_def)

end

lemma foldl_all: "foldl (\<lambda>eq i. if P i then False else eq) b is = (b \<and> list_all (\<lambda>i. \<not> P i) is)"
  by (induction "is" arbitrary: b) auto

lemma hex_bytes_nth:
  "i < length bs \<Longrightarrow> hex_bytes bs ! (2 * i) = HEX ! unat (drop_bit 4 (bs ! i)) \<and>
     hex_bytes bs ! (2 * i + 1) = HEX ! unat (bs ! i AND 0x0f)"
proof (induction bs arbitrary: i)
  case (Cons b bs)
  then show ?case by (cases i) (simp_all add: hex_bytes_def hex_byte_def)
qed simp

lemma nth_pairs_eq:
  assumes "length xs = 2 * n" and "length ys = 2 * n"
    and "\<And>i. i < n \<Longrightarrow> xs ! (2 * i) = ys ! (2 * i) \<and> xs ! (2 * i + 1) = ys ! (2 * i + 1)"
  shows "xs = ys"
proof (rule nth_equalityI)
  fix j assume "j < length xs"
  then have "j div 2 < n" using assms(1) by linarith
  from assms(3) [OF this] show "xs ! j = ys ! j"
    by (cases "even j") (auto elim!: oddE evenE)
qed (simp add: assms)

lemma hmac_hex_matches_iff:
  assumes "length mac = 32"
  shows "hmac_hex_matches mac h \<longleftrightarrow> h = hex_bytes mac"
proof
  assume m: "hmac_hex_matches mac h"
  then have l: "length h = 2 * 32" by (simp add: hmac_hex_matches_def split: if_splits)
  have "h ! (2 * i) = hex_bytes mac ! (2 * i) \<and> h ! (2 * i + 1) = hex_bytes mac ! (2 * i + 1)" if "i < 32" for i
    using m l that hex_bytes_nth [of i mac] assms
    by (auto simp: hmac_hex_matches_def Let_def foldl_all list_all_iff)
  then show "h = hex_bytes mac" using l assms by (intro nth_pairs_eq [where n = 32]) simp_all
next
  assume "h = hex_bytes mac"
  then show "hmac_hex_matches mac h" using assms hex_bytes_nth [of _ mac]
    by (auto simp: hmac_hex_matches_def Let_def foldl_all list_all_iff)
qed

lemma stale_iff:
  "(if now \<ge> ts then now - ts else ts - now) > w \<longleftrightarrow>
     unat ts + unat w < unat now \<or> unat now + unat w < unat ts" for now ts w :: u64
  by (cases "now \<ge> ts") (auto simp: word_less_nat_alt word_le_nat_alt unat_sub not_le less_diff_conv ac_simps)

text \<open>The levels of the grants an owner has.\<close>

definition levels_of :: "string \<Rightarrow> LinkGrant list \<Rightarrow> u8 list" where
  "levels_of owner gs = map max_level (filter (\<lambda>g. grant_owner_pid g = owner) gs)"

lemma granted_level_snoc:
  "granted_level owner (gs @ [g]) =
     (if grant_owner_pid g = owner
      then Some (case granted_level owner gs of Some b \<Rightarrow> max b (max_level g) | None \<Rightarrow> max_level g)
      else granted_level owner gs)"
  by (auto simp: granted_level_def max_def split: option.splits)

lemma levels_of_snoc:
  "levels_of owner (gs @ [g]) = levels_of owner gs @ (if grant_owner_pid g = owner then [max_level g] else [])"
  by (simp add: levels_of_def)

lemma granted_level_max:
  "granted_level owner gs = (if levels_of owner gs = [] then None else Some (Max (set (levels_of owner gs))))"
proof (induction gs rule: rev_induct)
  case Nil
  then show ?case by (simp add: granted_level_def levels_of_def)
next
  case (snoc g gs)
  then show ?case
    by (cases "levels_of owner gs = []") (simp_all add: granted_level_snoc levels_of_snoc max.commute)
qed

lemma effective_level_le:
  assumes "effective_level owner req grants = Some e"
  shows "e \<le> req" and "\<exists>l \<in> set (levels_of owner grants). e \<le> l"
proof -
  obtain g where g: "granted_level owner grants = Some g" "e = (if req < g then req else g)"
    using assms by (auto simp: effective_level_def)
  then show "e \<le> req" by (auto simp: not_less)
  have "g \<in> set (levels_of owner grants)" using g(1) Max_in by (auto simp: granted_level_max split: if_splits)
  then show "\<exists>l \<in> set (levels_of owner grants). e \<le> l" using g(2) by (auto intro!: bexI [of _ g])
qed

section \<open>Properties\<close>

text \<open>C23: the link gate. For a hash with 32-byte digests, a request is allowed exactly when its fields are
  non-empty, its time is within the window of the host's clock, its owner is granted, and its code is
  the lower-case hexadecimal of the RFC 2104 HMAC of the canonical message under the shared key; the
  other verdicts are given in the order malformed, stale, not granted, bad code, so a request with a
  bad shape, time or owner never reaches the key.\<close>

theorem link_gate:
  assumes "\<forall>m. length (sha m) = 32"
  shows "verify_link sha req key granted now skew =
    (if [] \<in> {owner_pid req, host req, verb req, nonce req} \<or> length (hmac_hex req) \<noteq> 64 then DenyMalformed
     else if unat (ts_unix_s req) + unat skew < unat now \<or> unat now + unat skew < unat (ts_unix_s req) then DenyStale
     else if owner_pid req \<notin> set granted then DenyOwnerNotGranted
     else if hmac_hex req = hex_bytes (rfc_hmac sha key (concat (link_parts req))) then LinkVerdict.Allow
     else DenyBadHmac)"
proof -
  have d: "digest sha" by (rule digest.intro) (simp add: assms)
  have "hmac_hex_matches (hmac_sha256_parts sha key (link_parts req)) h \<longleftrightarrow>
      h = hex_bytes (rfc_hmac sha key (concat (link_parts req)))" for h
    using hmac_hex_matches_iff digest.length_hmac [OF d] digest.hmac_parts_rfc [OF d] by simp
  then show ?thesis
    by (simp only: verify_link_def Let_def stale_iff list_ex_iff)
      (auto simp: eq_commute [of _ "owner_pid req"])
qed

theorem link_gate_witness:
  "verify_link (\<lambda>_. replicate 32 0)
     \<lparr>owner_pid = ''OP-A'', host = ''acer'', verb = ''search'', nonce = ''n'', ts_unix_s = 100, hmac_hex = replicate 64 CHR ''0''\<rparr>
     [1] [''OP-A''] 90 15 = LinkVerdict.Allow"
proof -
  have "hex_bytes (replicate 32 0) = replicate 64 CHR ''0''" by code_simp
  then show ?thesis by (subst link_gate) (simp_all add: rfc_hmac_def Let_def)
qed

text \<open>the separator is not escaped, so the code does not bind the verb: a request whose nonce contains a bar is
  accepted with the same code after its fields are cut differently, with another verb. A captured
  \<open>search\<close> request with nonce \<open>fabric-write|n\<close> is thus a valid \<open>fabric-write\<close> request.\<close>

theorem link_verb_not_bound:
  assumes "h \<noteq> []" and "v \<noteq> []" and "w \<noteq> []" and "n \<noteq> []"
  shows "verify_link sha \<lparr>owner_pid = p, host = h, verb = v, nonce = w @ ''|'' @ n, ts_unix_s = t, hmac_hex = m\<rparr> key granted now skew =
         verify_link sha \<lparr>owner_pid = p, host = h @ ''|'' @ v, verb = w, nonce = n, ts_unix_s = t, hmac_hex = m\<rparr> key granted now skew"
proof -
  have "concat (link_parts \<lparr>owner_pid = p, host = h, verb = v, nonce = w @ ''|'' @ n, ts_unix_s = t, hmac_hex = m\<rparr>) =
      concat (link_parts \<lparr>owner_pid = p, host = h @ ''|'' @ v, verb = w, nonce = n, ts_unix_s = t, hmac_hex = m\<rparr>)"
    by (simp add: link_parts_def as_bytes_def)
  then have "hmac_sha256_parts sha key (link_parts \<lparr>owner_pid = p, host = h, verb = v, nonce = w @ ''|'' @ n, ts_unix_s = t, hmac_hex = m\<rparr>) =
      hmac_sha256_parts sha key (link_parts \<lparr>owner_pid = p, host = h @ ''|'' @ v, verb = w, nonce = n, ts_unix_s = t, hmac_hex = m\<rparr>)"
    unfolding hmac_sha256_parts_def by (simp only:)
  then show ?thesis using assms by (simp add: verify_link_def)
qed

theorem link_verb_not_bound_witness:
  "verify_link sha256 \<lparr>owner_pid = ''A'', host = ''acer'', verb = ''search'', nonce = ''fabric-write|n'', ts_unix_s = 5, hmac_hex = []\<rparr> [] [] 5 0 =
   verify_link sha256 \<lparr>owner_pid = ''A'', host = ''acer|search'', verb = ''fabric-write'', nonce = ''n'', ts_unix_s = 5, hmac_hex = []\<rparr> [] [] 5 0"
  using link_verb_not_bound [of "''acer''" "''search''" "''fabric-write''" "''n''" sha256 "''A''" 5 "[]" "[]" "[]" 5 0] by simp

text \<open>levels. An owner's granted level is the greatest of its grants and none when it has none; the level a
  request sees is the smaller of that and the level it asks for, whatever the order of the grants.\<close>

theorem link_levels:
  "granted_level owner grants = (if levels_of owner grants = [] then None else Some (Max (set (levels_of owner grants)))) \<and>
   effective_level owner req grants =
     (if levels_of owner grants = [] then None else Some (min req (Max (set (levels_of owner grants)))))"
  by (simp add: granted_level_max effective_level_def min_def)

end
