(* ===== verification/Level_Tag.thy ===== *)
theory Level_Tag
  imports Prelude
begin

text \<open>
  The corpus access-level tagger of \<^verbatim>\<open>kernel/core/src/level_tag/mod.rs\<close>: a row is owner-private when its path or
  content looks personal or secret, public when its path is explicitly cleared, and
  federation-internal otherwise. The two hand-written searches (\<open>contains_ci\<close>, \<open>has_digit_run\<close>) are
  modelled as their loops and shown to be substring search on the lower-cased text and the existence
  of a run of digits.
\<close>

section \<open>Data\<close>

definition LEVEL_PUBLIC :: u8 where "LEVEL_PUBLIC = 0"
definition LEVEL_FEDERATION :: u8 where "LEVEL_FEDERATION = 5"
definition LEVEL_OWNER_PRIVATE :: u8 where "LEVEL_OWNER_PRIVATE = 9"

definition PII_PATH_FRAGMENTS :: "string list" where
  "PII_PATH_FRAGMENTS =
     [''legal'', ''evidence-package'', ''evidence'', ''google-support-refund'',
      ''support-refund-complaints'', ''refund-complaint'', ''refund'', ''bank'', ''invoice'',
      ''financial'', ''paypal'', ''zelle'', ''passport'', ''cnpj'', ''cpf'', ''whatsapp-rayssa'',
      ''beast-keys'', ''backup-keys'', ''decrypted-vault'', ''vault'', ''charm_'', ''private-key'',
      ''privatekey'', ''recall.key'', ''.pem'', ''.key'', ''.pk8'', ''.kdbx'', ''.keystore'', ''.jks'',
      ''id_rsa'', ''id_ed25519'', ''wallet.dat'', ''seed-phrase'', ''seed_phrase'', ''mnemonic'',
      ''credential'', ''secret'', ''password'', ''passwd'', ''.asolaria'', ''dcim'', ''sdcard'',
      ''falcon-dump'', ''phone-dump'']"

definition PII_CONTENT_FRAGMENTS :: "string list" where
  "PII_CONTENT_FRAGMENTS =
     [''cnpj'', ''cpf '', ''paypal'', ''zelle'', ''refund complaint'', ''customer care'',
      ''passport no'', ''invoice #'']"

definition PUBLIC_CANON_FRAGMENTS :: "string list" where
  "PUBLIC_CANON_FRAGMENTS =
     [''asolaria-multi-cylinder'', ''scientific-voxel-atlas'', ''asolaria-real-model'',
      ''agentterms-os-dashboard'', ''asolaria-map-index'', ''archaeology-and-significance-canon'',
      ''brown-hilbert'', ''what-is-asolaria'', ''algorithms-of-asolaria'', ''session-update'',
      ''readme'']"

section \<open>Searches\<close>

text \<open>The inner loop: the first \<open>j\<close> at which the haystack from \<open>i\<close> on differs from the needle.\<close>

function match_len :: "string \<Rightarrow> string \<Rightarrow> nat \<Rightarrow> nat \<Rightarrow> nat" where
  "match_len h n i j =
     (if j < length n \<and> ascii_lower (h ! (i + j)) = n ! j then match_len h n i (j + 1) else j)"
  by pat_completeness auto
termination by (relation "measure (\<lambda>(_, n, _, j). length n - j)") auto

declare match_len.simps [simp del]

function ci_scan :: "string \<Rightarrow> string \<Rightarrow> nat \<Rightarrow> bool" where
  "ci_scan h n i =
     (if i + length n \<le> length h then
        (if match_len h n i 0 = length n then True else ci_scan h n (i + 1))
      else False)"
  by pat_completeness auto
termination by (relation "measure (\<lambda>(h, n, i). Suc (length h) - i)") auto

declare ci_scan.simps [simp del]

definition contains_ci :: "string \<Rightarrow> string \<Rightarrow> bool" where
  "contains_ci haystack needle_lower =
     (if needle_lower = [] \<or> length needle_lower > length haystack then False
      else ci_scan haystack needle_lower 0)"

fun digit_scan :: "nat \<Rightarrow> nat \<Rightarrow> string \<Rightarrow> bool" where
  "digit_scan run min_len [] = False"
| "digit_scan run min_len (b # bs) =
     (if is_ascii_digit b then
        let run = run + 1 in if run \<ge> min_len then True else digit_scan run min_len bs
      else digit_scan 0 min_len bs)"

definition has_digit_run :: "string \<Rightarrow> nat \<Rightarrow> bool" where
  "has_digit_run s min_len = digit_scan 0 min_len s"

section \<open>Classification\<close>

definition is_pii :: "string \<Rightarrow> string \<Rightarrow> bool" where
  "is_pii path content =
     (if list_ex (\<lambda>frag. contains_ci path frag) PII_PATH_FRAGMENTS then True
      else if has_digit_run content 14 then True
      else list_ex (\<lambda>frag. contains_ci content frag) PII_CONTENT_FRAGMENTS)"

definition is_public_canon :: "string \<Rightarrow> bool" where
  "is_public_canon path = list_ex (\<lambda>frag. contains_ci path frag) PUBLIC_CANON_FRAGMENTS"

definition assign_level :: "string \<Rightarrow> string \<Rightarrow> u8" where
  "assign_level path content =
     (if is_pii path content then LEVEL_OWNER_PRIVATE
      else if is_public_canon path then LEVEL_PUBLIC
      else LEVEL_FEDERATION)"

section \<open>The searches are what they are meant to be\<close>

lemma match_len_full:
  "j \<le> length n \<Longrightarrow> i + length n \<le> length h \<Longrightarrow>
   match_len h n i j = length n \<longleftrightarrow> (\<forall>l. j \<le> l \<and> l < length n \<longrightarrow> map ascii_lower h ! (i + l) = n ! l)"
proof (induction h n i j rule: match_len.induct)
  case (1 h n i j)
  show ?case
  proof (cases "j < length n \<and> ascii_lower (h ! (i + j)) = n ! j")
    case True
    have "(\<forall>l. j \<le> l \<and> l < length n \<longrightarrow> map ascii_lower h ! (i + l) = n ! l) \<longleftrightarrow>
        (\<forall>l. j + 1 \<le> l \<and> l < length n \<longrightarrow> map ascii_lower h ! (i + l) = n ! l)"
    proof -
      have "j \<le> l \<longleftrightarrow> l = j \<or> j + 1 \<le> l" for l by auto
      then show ?thesis using True 1(3) by auto
    qed
    then show ?thesis using 1 True by (simp add: match_len.simps [of h n i j])
  next
    case False
    then show ?thesis using 1(2,3) by (auto simp: match_len.simps [of h n i j])
  qed
qed

lemma match_here:
  assumes "i + length n \<le> length h"
  shows "match_len h n i 0 = length n \<longleftrightarrow> prefix n (drop i (map ascii_lower h))"
proof -
  have "match_len h n i 0 = length n \<longleftrightarrow> (\<forall>l < length n. map ascii_lower h ! (i + l) = n ! l)"
    using match_len_full [of 0 n i h] assms by simp
  also have "\<dots> \<longleftrightarrow> take (length n) (drop i (map ascii_lower h)) = n"
    using assms by (auto simp: list_eq_iff_nth_eq)
  also have "\<dots> \<longleftrightarrow> prefix n (drop i (map ascii_lower h))"
    by (metis append_eq_conv_conj prefix_def append_take_drop_id)
  finally show ?thesis .
qed

lemma ci_scan_iff:
  "n \<noteq> [] \<Longrightarrow> ci_scan h n i \<longleftrightarrow> str_contains (drop i (map ascii_lower h)) n"
proof (induction h n i rule: ci_scan.induct)
  case (1 h n i)
  show ?case
  proof (cases "i + length n \<le> length h")
    case True
    then have "i < length h" using 1(2) by (cases n) auto
    then have "drop i (map ascii_lower h) = ascii_lower (h ! i) # drop (Suc i) (map ascii_lower h)"
      by (simp add: Cons_nth_drop_Suc [symmetric])
    then show ?thesis using 1 True match_here [OF True] by (simp add: ci_scan.simps [of h n i])
  next
    case False
    then have "length (drop i (map ascii_lower h)) < length n" using 1(2) by (cases n) auto
    then show ?thesis using False sublist_length_le [of n "drop i (map ascii_lower h)"]
      by (auto simp: ci_scan.simps [of h n i] str_contains_iff)
  qed
qed

lemma contains_ci_iff: "contains_ci h n \<longleftrightarrow> n \<noteq> [] \<and> str_contains (map ascii_lower h) n"
  using ci_scan_iff [of n h 0] sublist_length_le [of n "map ascii_lower h"]
  by (auto simp: contains_ci_def str_contains_iff)

lemma sublist_around:
  "b \<notin> set d \<Longrightarrow> sublist d (xs @ b # ys) \<longleftrightarrow> sublist d xs \<or> sublist d ys"
  by (auto simp: sublist_append sublist_Cons_right prefix_Cons suffix_imp_sublist)

lemma digit_scan_iff:
  "length ds < m \<Longrightarrow> list_all is_ascii_digit ds \<Longrightarrow>
   digit_scan (length ds) m s \<longleftrightarrow> (\<exists>d. length d = m \<and> list_all is_ascii_digit d \<and> sublist d (ds @ s))"
proof (induction s arbitrary: ds)
  case Nil
  then show ?case by (auto dest: sublist_length_le)
next
  case (Cons b s)
  show ?case
  proof (cases "is_ascii_digit b")
    case True
    show ?thesis
    proof (cases "length ds + 1 = m")
      case full: True
      then show ?thesis using True Cons.prems(2) by (auto intro!: exI [of _ "ds @ [b]"])
    next
      case False
      then have "length (ds @ [b]) < m" using Cons.prems(1) by simp
      from Cons.IH [OF this] True Cons.prems show ?thesis using False by simp
    qed
  next
    case False
    have "sublist d (ds @ b # s) \<longleftrightarrow> sublist d s" if "length d = m" "list_all is_ascii_digit d" for d
    proof -
      have "b \<notin> set d" using that(2) False by (auto simp: list_all_iff)
      moreover have "\<not> sublist d ds" using that(1) Cons.prems(1) by (auto dest: sublist_length_le)
      ultimately show ?thesis by (simp add: sublist_around)
    qed
    then show ?thesis using Cons.IH [of "[]"] Cons.prems(1) False by auto
  qed
qed

lemma has_digit_run_iff:
  "0 < m \<Longrightarrow> has_digit_run s m \<longleftrightarrow> (\<exists>d. length d = m \<and> list_all is_ascii_digit d \<and> sublist d s)"
  using digit_scan_iff [of "[]" m s] by (simp add: has_digit_run_def)

section \<open>Properties\<close>

text \<open>the classification, with the searches replaced by what they compute. A row is owner-private when a
  fragment of the path list occurs in its lower-cased path, a fragment of the content list in its
  lower-cased content, or 14 digits in a row in its content; otherwise it is public when a cleared
  fragment occurs in its lower-cased path and federation-internal when none does. In particular the
  public level excludes all such rows.\<close>

theorem level_tag_spec:
  "assign_level path content =
     (if (\<exists>f \<in> set PII_PATH_FRAGMENTS. sublist f (map ascii_lower path)) \<or>
         (\<exists>f \<in> set PII_CONTENT_FRAGMENTS. sublist f (map ascii_lower content)) \<or>
         (\<exists>d. length d = 14 \<and> list_all is_ascii_digit d \<and> sublist d content) then 9
      else if \<exists>f \<in> set PUBLIC_CANON_FRAGMENTS. sublist f (map ascii_lower path) then 0
      else 5)"
proof -
  have ne: "[] \<notin> set PII_PATH_FRAGMENTS" "[] \<notin> set PII_CONTENT_FRAGMENTS" "[] \<notin> set PUBLIC_CANON_FRAGMENTS"
    by (simp_all add: PII_PATH_FRAGMENTS_def PII_CONTENT_FRAGMENTS_def PUBLIC_CANON_FRAGMENTS_def)
  have ci: "list_ex (\<lambda>f. contains_ci s f) fs \<longleftrightarrow> (\<exists>f \<in> set fs. sublist f (map ascii_lower s))" if "[] \<notin> set fs" for s fs
    using that by (simp add: list_ex_iff contains_ci_iff str_contains_iff) metis
  show ?thesis
    by (simp add: assign_level_def is_pii_def is_public_canon_def ci [OF ne(1)] ci [OF ne(2)] ci [OF ne(3)]
        has_digit_run_iff LEVEL_PUBLIC_def LEVEL_FEDERATION_def LEVEL_OWNER_PRIVATE_def) blast
qed

end
