(* ===== verification/Cycle_Orch.thy ===== *)
theory Cycle_Orch
  imports Prelude
begin

text \<open>
  The cycle orchestrator of \<^verbatim>\<open>kernel/core/src/cycle_orch/mod.rs\<close>: the seven-state lifecycle of a peer with
  its table of legal transitions and bounded history, the thresholds and halt predicates, and the
  recogniser of halt verbs.
\<close>

section \<open>Peer state machine\<close>

datatype PeerState = Dark | Probing | Alive | Kicked | Responding | Drift | Halt

fun legal_transitions :: "PeerState \<Rightarrow> PeerState list" where
  "legal_transitions Dark = [Probing]"
| "legal_transitions Probing = [Alive, Dark]"
| "legal_transitions Alive = [Kicked, Dark, Probing]"
| "legal_transitions Kicked = [Responding, Drift, Halt, Dark]"
| "legal_transitions Responding = [Alive, Kicked, Drift, Halt]"
| "legal_transitions Drift = [Alive, Halt, Dark]"
| "legal_transitions Halt = [Dark]"

record TransitionRecord =
  ts_ns :: u64
  from_state :: PeerState
  to_state :: PeerState
  reason :: string

record PeerStateMachine =
  peer_id :: string
  state :: PeerState
  history :: "TransitionRecord list"
  last_transition_ns :: u64
  kick_deadline_ns :: "u64 option"
  strikes :: u32

definition peer_new :: "string \<Rightarrow> PeerStateMachine" where
  "peer_new p = \<lparr>peer_id = p, state = Dark, history = [], last_transition_ns = 0, kick_deadline_ns = None, strikes = 0\<rparr>"

definition transition :: "PeerState \<Rightarrow> string \<Rightarrow> u64 \<Rightarrow> PeerStateMachine \<Rightarrow> (unit, string) result \<times> PeerStateMachine" where
  "transition nxt why now_ns m =
     (let legal = legal_transitions (state m)
      in if nxt \<notin> set legal then (Err ''illegal_transition'', m)
         else let prev = state m;
                  m = m\<lparr>state := nxt\<rparr>;
                  m = m\<lparr>last_transition_ns := now_ns\<rparr>;
                  m = m\<lparr>history := history m @ [\<lparr>ts_ns = now_ns, from_state = prev, to_state = nxt, reason = why\<rparr>]\<rparr>;
                  m = (if length (history m) > 256 then m\<lparr>history := tl (history m)\<rparr> else m)
              in (Ok (), m))"

definition on_kick :: "string \<Rightarrow> u64 \<Rightarrow> u64 \<Rightarrow> PeerStateMachine \<Rightarrow> (unit, string) result \<times> PeerStateMachine" where
  "on_kick kick_text deadline_ns_from_now now_ns m =
     transition Kicked ''kick-issued'' now_ns (m\<lparr>kick_deadline_ns := Some (now_ns + deadline_ns_from_now)\<rparr>)"

definition on_reply :: "string \<Rightarrow> u64 \<Rightarrow> PeerStateMachine \<Rightarrow> (unit, string) result \<times> PeerStateMachine" where
  "on_reply reply_verb now_ns m = transition Responding ''reply-observed'' now_ns (m\<lparr>strikes := 0\<rparr>)"

definition on_drift :: "string \<Rightarrow> u64 \<Rightarrow> PeerStateMachine \<Rightarrow> (unit, string) result \<times> PeerStateMachine" where
  "on_drift diff_summary now_ns m = transition Drift ''drift-detected'' now_ns (m\<lparr>strikes := strikes m + 1\<rparr>)"

definition on_halt :: "string \<Rightarrow> u64 \<Rightarrow> PeerStateMachine \<Rightarrow> (unit, string) result \<times> PeerStateMachine" where
  "on_halt predicate now_ns m = transition Halt ''halt-predicate-fired'' now_ns m"

definition is_overdue :: "u64 \<Rightarrow> PeerStateMachine \<Rightarrow> bool" where
  "is_overdue now_ns m =
     (case (state m, kick_deadline_ns m) of (Kicked, Some dl) \<Rightarrow> now_ns > dl | _ \<Rightarrow> False)"

section \<open>SLO gate\<close>

record SloThresholds =
  mem_free_mb_floor :: u32
  mem_duration_ms_floor :: u32
  err_rate_threshold_permille :: u16
  err_window_ms :: u32
  err_min_samples :: u32
  law_window_ms :: u32
  law_threshold :: u32
  flap_window_ms :: u32
  flap_threshold :: u32
  cadence_floor_ms :: u32
  state_file_stale_ms :: u32

definition slo_default :: SloThresholds where
  "slo_default = \<lparr>mem_free_mb_floor = 200, mem_duration_ms_floor = 30000, err_rate_threshold_permille = 100,
     err_window_ms = 60000, err_min_samples = 5, law_window_ms = 60000, law_threshold = 3,
     flap_window_ms = 30000, flap_threshold = 5, cadence_floor_ms = 5000, state_file_stale_ms = 120000\<rparr>"

datatype HaltPredicate =
  U006MemLowSustained | U007ErrorRateExceeded | U008OpHaltObserved | U009LawViolationsExceeded | U010SchemaDrift
  | U011PeerFlapExceeded | U012QuorumSplit | U013CadenceFloorBreached | U014StateFileStaleness

definition is_op_halt_verb :: "string \<Rightarrow> bool" where
  "is_op_halt_verb v =
     (if v = ''OP-HALT'' \<or> v = ''EVT-HALT'' then True
      else starts_with v ''EVT-'' \<and> ends_with v ''-HALT-EMIT'')"

section \<open>Runs of a peer\<close>

text \<open>The machine under any sequence of events and direct transitions.\<close>

inductive peer_step :: "PeerStateMachine \<Rightarrow> PeerStateMachine \<Rightarrow> bool" where
  move: "transition nxt why t m = (r, m') \<Longrightarrow> peer_step m m'"
| kick: "on_kick txt d t m = (r, m') \<Longrightarrow> peer_step m m'"
| reply: "on_reply txt t m = (r, m') \<Longrightarrow> peer_step m m'"
| drift: "on_drift txt t m = (r, m') \<Longrightarrow> peer_step m m'"
| halt: "on_halt txt t m = (r, m') \<Longrightarrow> peer_step m m'"

inductive_cases peer_stepE: "peer_step m m'"

inductive peer_reachable :: "string \<Rightarrow> PeerStateMachine \<Rightarrow> bool" for p where
  start: "peer_reachable p (peer_new p)"
| step: "peer_reachable p m \<Longrightarrow> peer_step m m' \<Longrightarrow> peer_reachable p m'"

text \<open>A history is a chain of legal transitions that ends in the given state.\<close>

fun legal_chain :: "TransitionRecord list \<Rightarrow> PeerState \<Rightarrow> bool" where
  "legal_chain [] s = True"
| "legal_chain [r] s = (to_state r = s \<and> to_state r \<in> set (legal_transitions (from_state r)))"
| "legal_chain (r # r' # rs) s =
     (to_state r = from_state r' \<and> to_state r \<in> set (legal_transitions (from_state r)) \<and> legal_chain (r' # rs) s)"

definition peer_inv :: "PeerStateMachine \<Rightarrow> bool" where
  "peer_inv m \<longleftrightarrow> legal_chain (history m) (state m) \<and> length (history m) \<le> 256 \<and>
     (history m = [] \<longrightarrow> state m = Dark) \<and>
     (history m \<noteq> [] \<longrightarrow> ts_ns (last (history m)) = last_transition_ns m)"

lemma legal_chain_snoc:
  "legal_chain rs s \<Longrightarrow> (rs = [] \<or> from_state r = s) \<Longrightarrow> to_state r \<in> set (legal_transitions (from_state r)) \<Longrightarrow>
   legal_chain (rs @ [r]) (to_state r)"
  by (induction rs s rule: legal_chain.induct) auto

lemma legal_chain_tl: "legal_chain rs s \<Longrightarrow> legal_chain (tl rs) s"
  by (cases rs; cases "tl rs") auto

lemma transition_legal:
  assumes "nxt \<in> set (legal_transitions (state m))"
  shows "transition nxt why t m =
    (Ok (), m\<lparr>state := nxt, last_transition_ns := t,
       history := (let h = history m @ [\<lparr>ts_ns = t, from_state = state m, to_state = nxt, reason = why\<rparr>]
                   in if length h > 256 then tl h else h)\<rparr>)"
  using assms by (simp add: transition_def Let_def)

lemma transition_illegal:
  "nxt \<notin> set (legal_transitions (state m)) \<Longrightarrow> transition nxt why t m = (Err ''illegal_transition'', m)"
  by (simp add: transition_def)

lemma transition_inv:
  assumes "peer_inv m" and "transition nxt why t m = (r, m')"
  shows "peer_inv m'"
proof (cases "nxt \<in> set (legal_transitions (state m))")
  case True
  let ?r = "\<lparr>ts_ns = t, from_state = state m, to_state = nxt, reason = why\<rparr>"
  have c: "legal_chain (history m @ [?r]) nxt"
    using assms(1) True legal_chain_snoc [of "history m" "state m" ?r] by (simp add: peer_inv_def)
  define h where "h = (if length (history m @ [?r]) > 256 then tl (history m @ [?r]) else history m @ [?r])"
  have "legal_chain h nxt" "length h \<le> 256" "h \<noteq> []" "last h = ?r"
    using c legal_chain_tl [OF c] assms(1) by (cases "history m"; auto simp: h_def peer_inv_def)+
  moreover have "m' = m\<lparr>state := nxt, last_transition_ns := t, history := h\<rparr>"
    using assms(2) by (simp add: transition_legal [OF True] h_def Let_def)
  ultimately show ?thesis by (simp add: peer_inv_def)
next
  case False
  then show ?thesis using assms by (simp add: transition_illegal)
qed

lemma peer_inv_fields [simp]:
  "peer_inv (m\<lparr>kick_deadline_ns := d\<rparr>) = peer_inv m" "peer_inv (m\<lparr>strikes := n\<rparr>) = peer_inv m"
  by (simp_all add: peer_inv_def)

lemma peer_step_inv: "peer_step m m' \<Longrightarrow> peer_inv m \<Longrightarrow> peer_inv m'"
  by (induction rule: peer_step.induct)
    (auto simp: on_kick_def on_reply_def on_drift_def on_halt_def intro: transition_inv [rotated])

section \<open>Properties\<close>

text \<open>C39: after any sequence of events and transitions the history holds at most 256 records, each a legal
  transition that starts where the previous one ended, the last of them ends in the current state and
  carries its time, and a peer without history is dark.\<close>

theorem cycle_history_legal:
  assumes "peer_reachable p m"
  shows "legal_chain (history m) (state m) \<and> length (history m) \<le> 256 \<and> (history m = [] \<longrightarrow> state m = Dark) \<and>
     (history m \<noteq> [] \<longrightarrow> ts_ns (last (history m)) = last_transition_ns m)"
proof -
  from assms have "peer_inv m"
  proof (induction rule: peer_reachable.induct)
    case start
    then show ?case by (simp add: peer_inv_def peer_new_def)
  next
    case (step m m')
    then show ?case using peer_step_inv by blast
  qed
  then show ?thesis by (simp add: peer_inv_def)
qed

theorem cycle_history_legal_witness:
  "\<exists>m. peer_reachable ''p'' m \<and> state m = Probing \<and> legal_chain (history m) Probing"
proof -
  obtain m where m: "transition Probing ''x'' 5 (peer_new ''p'') = (Ok (), m)" and st: "state m = Probing"
    by (simp add: transition_legal peer_new_def)
  have "peer_reachable ''p'' m" by (rule peer_reachable.step [OF peer_reachable.start peer_step.move [OF m]])
  then show ?thesis using st cycle_history_legal [of "''p''" m] by auto
qed

text \<open>events that are refused still leave a trace. A kick, reply or drift is accepted exactly when the table
  allows it and then changes the state; when it is refused the state and the history stay, but the
  deadline is already overwritten, the strikes cleared or counted. A reply from a dark peer thus
  clears its strikes and a kick of a dark peer sets a deadline.\<close>

theorem cycle_refused_events:
  "(is_ok (fst (on_kick txt d t m)) \<longleftrightarrow> Kicked \<in> set (legal_transitions (state m))) \<and>
   (is_ok (fst (on_reply txt t m)) \<longleftrightarrow> Responding \<in> set (legal_transitions (state m))) \<and>
   (is_ok (fst (on_drift txt t m)) \<longleftrightarrow> Drift \<in> set (legal_transitions (state m))) \<and>
   (is_ok (fst (on_halt txt t m)) \<longleftrightarrow> Halt \<in> set (legal_transitions (state m))) \<and>
   (\<not> is_ok (fst (on_kick txt d t m)) \<longrightarrow> snd (on_kick txt d t m) = m\<lparr>kick_deadline_ns := Some (t + d)\<rparr>) \<and>
   (\<not> is_ok (fst (on_reply txt t m)) \<longrightarrow> snd (on_reply txt t m) = m\<lparr>strikes := 0\<rparr>) \<and>
   (\<not> is_ok (fst (on_drift txt t m)) \<longrightarrow> snd (on_drift txt t m) = m\<lparr>strikes := strikes m + 1\<rparr>) \<and>
   (\<not> is_ok (fst (on_halt txt t m)) \<longrightarrow> snd (on_halt txt t m) = m)"
proof -
  have "is_ok (fst (transition n why t m)) \<longleftrightarrow> n \<in> set (legal_transitions (state m))" for n why t m
    by (cases "n \<in> set (legal_transitions (state m))") (simp_all add: transition_legal transition_illegal)
  moreover have "snd (transition n why t m) = m" if "n \<notin> set (legal_transitions (state m))" for n why t m
    using that by (simp add: transition_illegal)
  ultimately show ?thesis by (simp add: on_kick_def on_reply_def on_drift_def on_halt_def)
qed

theorem cycle_refused_events_witness:
  "snd (on_reply [] 7 (peer_new ''p''\<lparr>strikes := 3\<rparr>)) = (peer_new ''p''\<lparr>strikes := 3\<rparr>)\<lparr>strikes := 0\<rparr>"
  using cycle_refused_events [of "[]" 0 7 "peer_new ''p''\<lparr>strikes := 3\<rparr>"] by (simp add: peer_new_def)

end
