(* ===== verification/Host_Text.thy ===== *)
theory Host_Text
  imports Prelude
begin

text \<open>
  The text functions of Rust's standard library that the host-side code and the wire formats use
  beside those of the prelude: parsing of unsigned integers, \<open>strip_prefix\<close> and \<open>lines\<close>, with the
  lemmas that undo what the code printed.
\<close>

section \<open>Definitions\<close>

text \<open>\<open>str::parse\<close> for an unsigned type of bound \<open>B\<close>: an optional plus sign and at least one digit,
  refused on overflow.\<close>

definition digits_value :: "string \<Rightarrow> nat" where
  "digits_value s = foldl (\<lambda>n c. n * 10 + (byte_of c - 48)) 0 s"

definition parse_uint :: "nat \<Rightarrow> string \<Rightarrow> nat option" where
  "parse_uint B s =
     (let t = (case s of c # cs \<Rightarrow> if c = CHR ''+'' then cs else s | [] \<Rightarrow> [])
      in if t = [] \<or> \<not> list_all is_ascii_digit t \<or> digits_value t \<ge> B then None
         else Some (digits_value t))"

definition parse_u16 :: "string \<Rightarrow> u16 option" where
  "parse_u16 s = map_option word_of_nat (parse_uint (2 ^ 16) s)"

definition parse_u32 :: "string \<Rightarrow> u32 option" where
  "parse_u32 s = map_option word_of_nat (parse_uint (2 ^ 32) s)"

definition parse_u64 :: "string \<Rightarrow> u64 option" where
  "parse_u64 s = map_option word_of_nat (parse_uint (2 ^ 64) s)"

definition strip_prefix :: "string \<Rightarrow> string \<Rightarrow> string option" where
  "strip_prefix p s = (if prefix p s then Some (drop (length p) s) else None)"

text \<open>\<open>str::lines\<close>: at line feeds, without a carriage return before one; a last line with no line feed
  is kept as it is, unless it is empty.\<close>

definition strip_cr :: "string \<Rightarrow> string" where
  "strip_cr l = (if l \<noteq> [] \<and> last l = CHR 0x0D then butlast l else l)"

definition str_lines :: "string \<Rightarrow> string list" where
  "str_lines s =
     (let segs = str_split (CHR 0x0A) s
      in map strip_cr (butlast segs) @ (if last segs = [] then [] else [last segs]))"

section \<open>Lemmas\<close>

lemma digits_value_snoc: "digits_value (s @ [c]) = digits_value s * 10 + (byte_of c - 48)"
  by (simp add: digits_value_def)

lemma digits_value_decimal [simp]: "digits_value (decimal n) = n"
proof (induction n rule: decimal.induct)
  case (1 n)
  show ?case
  proof (cases "n < 10")
    case True
    then show ?thesis by (simp add: decimal.simps digits_value_def byte_of_digit_char)
  next
    case False
    then show ?thesis
      using 1 by (subst decimal.simps) (simp add: digits_value_snoc byte_of_digit_char)
  qed
qed

lemma not_digit_decimal: "\<not> is_ascii_digit c \<Longrightarrow> c \<notin> set (decimal n)"
  using decimal_digits by blast

lemma parse_uint_decimal: "n < B \<Longrightarrow> parse_uint B (decimal n) = Some n"
proof -
  assume n: "n < B"
  have "CHR ''+'' \<notin> set (decimal n)"
    by (rule not_digit_decimal) (simp add: is_ascii_digit_def byte_of_def)
  then have "(case decimal n of c # cs \<Rightarrow> if c = CHR ''+'' then cs else decimal n | [] \<Rightarrow> []) = decimal n"
    by (cases "decimal n") auto
  moreover have "list_all is_ascii_digit (decimal n)"
    using decimal_digits by (auto simp: list_all_iff)
  ultimately show ?thesis using n by (simp add: parse_uint_def Let_def)
qed

lemma parse_u16_decimal [simp]: "parse_u16 (decimal (unat cp)) = Some cp"
proof -
  have "unat cp < 2 ^ 16" using unsigned_less [of cp, where ?'a = nat] by simp
  then show ?thesis by (simp only: parse_u16_def parse_uint_decimal option.map of_nat_unat ucast_id)
qed

lemma strip_prefix_append [simp]: "strip_prefix p (p @ s) = Some s"
  by (simp add: strip_prefix_def)

text \<open>Lines printed each with its line feed are read back.\<close>

lemma str_split_lines:
  "list_all (\<lambda>l. CHR 0x0A \<notin> set l) ls \<Longrightarrow> str_split (CHR 0x0A) (concat (map (\<lambda>l. l @ [CHR 0x0A]) ls)) = ls @ [[]]"
  by (induction ls) (simp_all add: str_split_append)

lemma str_lines_printed:
  assumes "list_all (\<lambda>l. CHR 0x0A \<notin> set l \<and> CHR 0x0D \<notin> set l) ls"
  shows "str_lines (concat (map (\<lambda>l. l @ [CHR 0x0A]) ls)) = ls"
proof -
  have "str_split (CHR 0x0A) (concat (map (\<lambda>l. l @ [CHR 0x0A]) ls)) = ls @ [[]]"
    using assms by (intro str_split_lines) (simp add: list_all_iff)
  moreover have "map strip_cr ls = ls"
    using assms by (intro map_idI) (auto simp: list_all_iff strip_cr_def dest: last_in_set)
  ultimately show ?thesis by (simp add: str_lines_def)
qed

text \<open>A line never contains a line feed.\<close>

lemma set_strip_cr: "set (strip_cr l) \<subseteq> set l"
  by (auto simp: strip_cr_def dest: in_set_butlastD)

lemma str_lines_no_lf: "l \<in> set (str_lines s) \<Longrightarrow> CHR 0x0A \<notin> set l"
proof -
  let ?segs = "str_split (CHR 0x0A) s"
  assume "l \<in> set (str_lines s)"
  then consider seg where "seg \<in> set (butlast ?segs)" "l = strip_cr seg" | "l = last ?segs"
    by (auto simp: str_lines_def Let_def split: if_splits)
  then obtain seg where "seg \<in> set ?segs" and "set l \<subseteq> set seg"
    using set_strip_cr in_set_butlastD last_in_set [OF str_split_nonempty] by cases fast+
  then show ?thesis using str_split_seg_no_sep by blast
qed

end
