(* ===== verification/Fedenv.thy ===== *)
theory Fedenv
  imports Link_Auth Host_Text
begin

text \<open>
  The FEDENV-v1 route layer of \<^verbatim>\<open>kernel/core/src/envelope/fedenv.rs\<close>: validation of an application envelope in
  ten ordered rules, resolution of its target and its priority lane.
\<close>

section \<open>Data\<close>

definition COSIGN_WINDOW :: string where
  "COSIGN_WINDOW = ''QUINTUPLE-DELEGATED-2WEEK-2026-05-22-to-2026-06-05''"
definition COSIGN_WINDOW_V3 :: string where "COSIGN_WINDOW_V3 = ''FOUNDATION-V3-LAW-EXTENDED-4MO''"
definition ADMIN_OVERRIDE :: string where "ADMIN_OVERRIDE = ''ADMIN-OVERRIDE-OP-JESSE''"
definition MAX_PAYLOAD_BYTES :: nat where "MAX_PAYLOAD_BYTES = 64 * 1024"

definition TARGET_PREFIXES :: "string list" where
  "TARGET_PREFIXES = [''pid:H'', ''cli:'', ''citizen:'', ''antigravity:'', ''daemon:'', ''google:'', ''meta:'']"

datatype RejectReason =
  Malformed | UnresolvableTarget | PayloadTooLarge | ExpiredCosign | RowHashMismatch | ReservedSlot

fun as_event_str :: "RejectReason \<Rightarrow> string" where
  "as_event_str Malformed = ''EVT-FEDENV-REJECTED-MALFORMED''"
| "as_event_str UnresolvableTarget = ''EVT-FEDENV-REJECTED-UNRESOLVABLE-TARGET''"
| "as_event_str PayloadTooLarge = ''EVT-FEDENV-REJECTED-PAYLOAD-TOO-LARGE''"
| "as_event_str ExpiredCosign = ''EVT-FEDENV-REJECTED-EXPIRED-COSIGN''"
| "as_event_str RowHashMismatch = ''EVT-FEDENV-REJECTED-ROW-HASH-MISMATCH''"
| "as_event_str ReservedSlot = ''EVT-FEDENV-REJECTED-RESERVED-SLOT''"

datatype RouteKind = PidRouted | Cli | Citizen | Antigravity | Daemon | Google | Meta

datatype Priority = Apex | High | Normal | Low

record FedenvView =
  fe_caller_pid :: string
  fe_target :: string
  fe_verb :: string
  fe_payload :: string
  fe_back_address :: string
  fe_cube_47d :: string
  fe_glyph_5 :: string
  fe_cosign_token :: string
  fe_ttl_seconds :: string
  fe_antecedents :: string
  fe_row_hash :: string
  fe_ts :: "string option"

section \<open>Field checks\<close>

text \<open>\<open>s.chars().count()\<close>: the bytes of a UTF-8 string that are not continuation bytes.\<close>

definition chars_count :: "string \<Rightarrow> nat" where
  "chars_count s = length (filter (\<lambda>c. \<not> (0x80 \<le> byte_of c \<and> byte_of c < 0xC0)) s)"

definition is_hex16 :: "string \<Rightarrow> bool" where
  "is_hex16 s =
     (length s = 16 \<and> list_all (\<lambda>b. is_ascii_digit b \<or> 97 \<le> byte_of b \<and> byte_of b \<le> 102) s)"

fun cube_loop :: "string list \<Rightarrow> u32 \<Rightarrow> bool" where
  "cube_loop [] segments = (segments = 6)"
| "cube_loop (seg # segs) segments =
     (let segments = segments + 1
      in if length seg \<noteq> 1 \<or> \<not> (48 \<le> byte_of (seg ! 0) \<and> byte_of (seg ! 0) \<le> 55) then False
         else cube_loop segs segments)"

definition cube_47d_ok :: "string \<Rightarrow> bool" where
  "cube_47d_ok s = cube_loop (str_split CHR ''-'' s) 0"

fun row_hash_loop :: "bytes \<Rightarrow> string \<Rightarrow> nat list \<Rightarrow> bool" where
  "row_hash_loop d expected [] = True"
| "row_hash_loop d expected (i # is) =
     (let hi = HEX ! unat (drop_bit 4 (d ! i));
          lo = HEX ! unat (d ! i AND 0x0f)
      in if expected ! (2 * i) \<noteq> hi \<or> expected ! (2 * i + 1) \<noteq> lo then False
         else row_hash_loop d expected is)"

definition row_hash_matches :: "bytes \<Rightarrow> string \<Rightarrow> bool" where
  "row_hash_matches digest_first8 expected =
     (if length expected \<noteq> 16 \<or> length digest_first8 < 8 then False
      else row_hash_loop digest_first8 expected [0..<8])"

section \<open>Validation and resolution\<close>

definition fedenv_validate :: "(bytes \<Rightarrow> bytes) \<Rightarrow> FedenvView \<Rightarrow> (unit, RejectReason) result" where
  "fedenv_validate sha env =
     (if list_ex (\<lambda>f. f = [])
           [fe_caller_pid env, fe_target env, fe_verb env, fe_payload env, fe_back_address env, fe_cube_47d env,
            fe_glyph_5 env, fe_cosign_token env, fe_ttl_seconds env, fe_antecedents env, fe_row_hash env]
      then Err Malformed
      else if \<not> list_ex (\<lambda>p. starts_with (fe_target env) p) TARGET_PREFIXES then Err UnresolvableTarget
      else if length (fe_payload env) > MAX_PAYLOAD_BYTES then Err PayloadTooLarge
      else if \<not> cube_47d_ok (fe_cube_47d env) then Err Malformed
      else if chars_count (fe_glyph_5 env) < 5 then Err Malformed
      else if \<not> (case parse_u32 (fe_ttl_seconds env) of Some t \<Rightarrow> 1 \<le> t \<and> t \<le> 86400 | None \<Rightarrow> False) then Err Malformed
      else if \<not> is_hex16 (fe_row_hash env) \<or> \<not> is_hex16 (fe_antecedents env) then Err Malformed
      else if \<not> (str_contains (fe_cosign_token env) COSIGN_WINDOW \<or> str_contains (fe_cosign_token env) COSIGN_WINDOW_V3 \<or>
                 str_contains (fe_cosign_token env) ADMIN_OVERRIDE) then Err ExpiredCosign
      else case fe_ts env of
             None \<Rightarrow> Ok ()
           | Some ts \<Rightarrow>
               let out = sha (as_bytes ''FEDENV|'' @ as_bytes (fe_caller_pid env) @ as_bytes (fe_verb env) @
                              as_bytes (fe_payload env) @ as_bytes ts)
               in if \<not> row_hash_matches (take 8 out) (fe_row_hash env) then Err RowHashMismatch else Ok ())"

definition resolve_target :: "string \<Rightarrow> RouteKind option" where
  "resolve_target target =
     (if starts_with target ''pid:H'' then Some PidRouted
      else if starts_with target ''cli:'' then Some Cli
      else if starts_with target ''citizen:'' then Some Citizen
      else if starts_with target ''antigravity:'' then Some Antigravity
      else if starts_with target ''daemon:'' then Some Daemon
      else if starts_with target ''google:'' then Some Google
      else if starts_with target ''meta:'' then Some Meta
      else None)"

definition priority_of :: "string \<Rightarrow> Priority" where
  "priority_of p = (if p = ''apex'' then Apex else if p = ''high'' then High else if p = ''low'' then Low else Normal)"

section \<open>Lemmas\<close>

lemma resolve_target_iff:
  "resolve_target t \<noteq> None \<longleftrightarrow> list_ex (\<lambda>p. starts_with t p) TARGET_PREFIXES"
  by (simp add: resolve_target_def TARGET_PREFIXES_def)

lemma cube_loop_iff:
  "unat n + length segs < 2 ^ 32 \<Longrightarrow>
   cube_loop segs n \<longleftrightarrow> unat n + length segs = 6 \<and> (\<forall>s \<in> set segs. length s = 1 \<and> 48 \<le> byte_of (s ! 0) \<and> byte_of (s ! 0) \<le> 55)"
proof (induction segs arbitrary: n)
  case Nil
  then show ?case by (auto simp: unat_eq_nat_uint [symmetric] intro: word_unat_eq_iff [THEN iffD2])
next
  case (Cons s segs)
  have "unat (n + 1) = unat n + 1" using Cons.prems by (simp add: unat_word_ariths)
  then show ?case using Cons by (auto simp: Let_def)
qed

lemma row_hash_loop_iff:
  "row_hash_loop d e is \<longleftrightarrow> (\<forall>i \<in> set is. e ! (2 * i) = HEX ! unat (drop_bit 4 (d ! i)) \<and> e ! (2 * i + 1) = HEX ! unat (d ! i AND 0x0f))"
  by (induction "is") (auto simp: Let_def)

lemma row_hash_matches_iff:
  assumes "length d = 8"
  shows "row_hash_matches d e \<longleftrightarrow> e = hex_bytes d"
proof
  assume m: "row_hash_matches d e"
  then have l: "length e = 2 * 8" by (simp add: row_hash_matches_def split: if_splits)
  have "e ! (2 * i) = hex_bytes d ! (2 * i) \<and> e ! (2 * i + 1) = hex_bytes d ! (2 * i + 1)" if "i < 8" for i
    using m l that hex_bytes_nth [of i d] assms by (auto simp: row_hash_matches_def row_hash_loop_iff)
  then show "e = hex_bytes d" using l assms by (intro nth_pairs_eq [where n = 8]) simp_all
next
  assume "e = hex_bytes d"
  then show "row_hash_matches d e" using assms hex_bytes_nth [of _ d]
    by (auto simp: row_hash_matches_def row_hash_loop_iff)
qed

lemma length_str_split: "length (str_split d s) \<le> length s + 1"
  by (induction d s rule: str_split.induct) (auto split: list.splits)

lemma cube_47d_shape:
  assumes "cube_47d_ok s" and "length s < 2 ^ 31"
  obtains ds where "length ds = 6" and "list_all (\<lambda>d. 48 \<le> byte_of d \<and> byte_of d \<le> 55) ds"
    and "s = str_join CHR ''-'' (map (\<lambda>d. [d]) ds)"
proof -
  let ?segs = "str_split CHR ''-'' s"
  have "unat (0 :: u32) + length ?segs < 2 ^ 32" using length_str_split [of "CHR ''-''" s] assms(2) by simp
  from cube_loop_iff [OF this] assms(1)
  have c: "length ?segs = 6" "\<forall>x \<in> set ?segs. length x = 1 \<and> 48 \<le> byte_of (x ! 0) \<and> byte_of (x ! 0) \<le> 55"
    by (simp_all add: cube_47d_ok_def)
  have "map (\<lambda>x. [x ! 0]) ?segs = ?segs" by (rule map_idI) (use c(2) in \<open>auto simp: length_Suc_conv\<close>)
  then have "s = str_join CHR ''-'' (map (\<lambda>d. [d]) (map (\<lambda>x. x ! 0) ?segs))" by (simp add: o_def str_join_split)
  then show ?thesis using c that [of "map (\<lambda>x. x ! 0) ?segs"] by (simp add: list_all_iff)
qed

section \<open>Properties\<close>

text \<open>C40: what an accepted envelope satisfies. Its target resolves to a route, its payload has at most 65536
  bytes, its cube is six octal digits joined by hyphens, its time to live is a whole number of seconds
  from 1 to 86400, its token carries one of the three windows, and when it has a time stamp its row
  hash is the hexadecimal of the first eight bytes of the digest of its caller, verb, payload and time.\<close>

theorem fedenv_accepted:
  assumes "\<forall>m. length (sha m) = 32" and "fedenv_validate sha env = Ok ()" and "length (fe_cube_47d env) < 2 ^ 31"
  shows "resolve_target (fe_target env) \<noteq> None \<and> length (fe_payload env) \<le> 65536 \<and>
    (\<exists>ds. length ds = 6 \<and> list_all (\<lambda>d. 48 \<le> byte_of d \<and> byte_of d \<le> 55) ds \<and>
          fe_cube_47d env = str_join CHR ''-'' (map (\<lambda>d. [d]) ds)) \<and>
    (\<exists>t. parse_u32 (fe_ttl_seconds env) = Some t \<and> 1 \<le> unat t \<and> unat t \<le> 86400) \<and>
    (\<exists>w \<in> {COSIGN_WINDOW, COSIGN_WINDOW_V3, ADMIN_OVERRIDE}. sublist w (fe_cosign_token env)) \<and>
    (\<forall>ts. fe_ts env = Some ts \<longrightarrow>
       fe_row_hash env = hex_bytes (take 8 (sha (as_bytes (''FEDENV|'' @ fe_caller_pid env @ fe_verb env @ fe_payload env @ ts)))))"
proof -
  note v = assms(2) [unfolded fedenv_validate_def]
  have "list_ex (\<lambda>p. starts_with (fe_target env) p) TARGET_PREFIXES" using v by (simp split: if_splits)
  then have r: "resolve_target (fe_target env) \<noteq> None" "length (fe_payload env) \<le> 65536" "cube_47d_ok (fe_cube_47d env)"
    using v by (simp_all only: resolve_target_iff) (simp_all add: MAX_PAYLOAD_BYTES_def split: if_splits)
  obtain ds where "length ds = 6" "list_all (\<lambda>d. 48 \<le> byte_of d \<and> byte_of d \<le> 55) ds"
      "fe_cube_47d env = str_join CHR ''-'' (map (\<lambda>d. [d]) ds)"
    using cube_47d_shape [OF r(3) assms(3)] .
  moreover have "\<exists>t. parse_u32 (fe_ttl_seconds env) = Some t \<and> 1 \<le> unat t \<and> unat t \<le> 86400"
    using v by (auto simp: word_le_nat_alt split: if_splits option.splits)
  moreover have "\<exists>w \<in> {COSIGN_WINDOW, COSIGN_WINDOW_V3, ADMIN_OVERRIDE}. sublist w (fe_cosign_token env)"
    using v by (auto simp: str_contains_iff split: if_splits)
  moreover have "fe_row_hash env = hex_bytes (take 8 (sha (as_bytes (''FEDENV|'' @ fe_caller_pid env @ fe_verb env @ fe_payload env @ ts))))"
    if "fe_ts env = Some ts" for ts
    using v that assms(1) by (simp add: row_hash_matches_iff Let_def as_bytes_def split: if_splits)
  ultimately show ?thesis using r(1,2) by blast
qed

definition sample_env :: FedenvView where
  "sample_env = \<lparr>fe_caller_pid = ''p'', fe_target = ''cli:x'', fe_verb = ''go'', fe_payload = ''b'', fe_back_address = ''a'',
     fe_cube_47d = ''1-2-3-4-5-6'', fe_glyph_5 = ''abcde'', fe_cosign_token = ''ADMIN-OVERRIDE-OP-JESSE'',
     fe_ttl_seconds = ''60'', fe_antecedents = ''0123456789abcdef'', fe_row_hash = ''0000000000000000'', fe_ts = Some ''7''\<rparr>"

lemma sample_env_valid: "fedenv_validate (\<lambda>_. replicate 32 0) sample_env = Ok ()"
proof -
  have "parse_u32 ''60'' = Some 60" by (simp add: parse_u32_def parse_uint_def digits_value_def is_ascii_digit_def byte_of_def)
  moreover have "cube_47d_ok ''1-2-3-4-5-6''" "chars_count ''abcde'' = 5" by code_simp+
  moreover have "is_hex16 ''0000000000000000''" "is_hex16 ''0123456789abcdef''" by code_simp+
  moreover have "row_hash_matches (take 8 (replicate 32 0)) ''0000000000000000''" by code_simp
  moreover have "list_ex (\<lambda>p. starts_with ''cli:x'' p) TARGET_PREFIXES" by code_simp
  ultimately show ?thesis
    by (simp add: fedenv_validate_def sample_env_def MAX_PAYLOAD_BYTES_def ADMIN_OVERRIDE_def str_contains_iff Let_def)
qed

theorem fedenv_accepted_witness:
  "fedenv_validate (\<lambda>_. replicate 32 0) sample_env = Ok () \<and> resolve_target (fe_target sample_env) \<noteq> None"
proof -
  have "length (fe_cube_47d sample_env) < 2 ^ 31" by (simp add: sample_env_def)
  with fedenv_accepted [OF _ sample_env_valid this] show ?thesis using sample_env_valid by simp
qed

text \<open>the row hash covers its fields without separators, so it does not bind them: an accepted envelope is still
  accepted, with the same row hash, after a piece of its verb is moved to the front of its payload.\<close>

theorem fedenv_row_hash_unseparated:
  assumes "v \<noteq> []" and "p \<noteq> []" and "length x + length p \<le> 65536"
  shows "fedenv_validate sha (env\<lparr>fe_verb := v @ x, fe_payload := p\<rparr>) = fedenv_validate sha (env\<lparr>fe_verb := v, fe_payload := x @ p\<rparr>)"
  using assms by (cases "fe_ts env") (simp_all add: fedenv_validate_def MAX_PAYLOAD_BYTES_def)

theorem fedenv_row_hash_unseparated_witness:
  "fedenv_validate sha256 (sample_env\<lparr>fe_verb := ''de'' @ ''lete'', fe_payload := ''x''\<rparr>) =
   fedenv_validate sha256 (sample_env\<lparr>fe_verb := ''de'', fe_payload := ''lete'' @ ''x''\<rparr>)"
  by (rule fedenv_row_hash_unseparated) simp_all

end
