(* ===== verification/Atlas.thy ===== *)
theory Atlas
  imports Prelude
begin

text \<open>
  The codepoint atlas of \<^verbatim>\<open>kernel/core/src/atlas/mod.rs\<close>: domains, supervisors and lanes of the 1024 codepoints
  and their embedding of the 256 legacy ones.
\<close>

definition BEHCS_1024_CP_COUNT :: u16 where "BEHCS_1024_CP_COUNT = 1024"
definition BEHCS_1024_MAX_CP :: u16 where "BEHCS_1024_MAX_CP = BEHCS_1024_CP_COUNT - 1"
definition BEHCS_256_CP_COUNT :: u16 where "BEHCS_256_CP_COUNT = 256"

definition is_valid_cp :: "u16 \<Rightarrow> bool" where
  "is_valid_cp cp = (cp < BEHCS_1024_CP_COUNT)"

definition subset_embedding_cp :: "u16 \<Rightarrow> u8 option" where
  "subset_embedding_cp cp =
     (if cp \<ge> BEHCS_1024_CP_COUNT then None else Some (ucast (cp mod BEHCS_256_CP_COUNT)))"

datatype AtlasDomain =
  LegacySubset256 | Sovereignty | Sequencing | LanguageGlyph | HilbertCube | BuildProof | Federation | EmergentResidual

datatype AtlasSupervisor = CubeCubedSealer | Gaia | Helm | Vector | Rook | Forge | Falcon | LiveFree

datatype AtlasLane = Memory | Skeletal | Muscular | Nervous | Circulatory

text \<open>A \<open>match\<close> on ranges of codepoints, the arms in order.\<close>

definition domain_for_cp :: "u16 \<Rightarrow> AtlasDomain option" where
  "domain_for_cp cp =
     (if cp \<le> 255 then Some LegacySubset256
      else if 256 \<le> cp \<and> cp \<le> 383 then Some Sovereignty
      else if 384 \<le> cp \<and> cp \<le> 479 then Some Sequencing
      else if 480 \<le> cp \<and> cp \<le> 575 then Some LanguageGlyph
      else if 576 \<le> cp \<and> cp \<le> 703 then Some HilbertCube
      else if 704 \<le> cp \<and> cp \<le> 799 then Some BuildProof
      else if 800 \<le> cp \<and> cp \<le> 895 then Some Federation
      else if 896 \<le> cp \<and> cp \<le> 1023 then Some EmergentResidual
      else None)"

definition supervisor_for_cp :: "u16 \<Rightarrow> AtlasSupervisor option" where
  "supervisor_for_cp cp =
     (if cp \<le> 255 then Some CubeCubedSealer
      else if 256 \<le> cp \<and> cp \<le> 383 then Some Gaia
      else if 384 \<le> cp \<and> cp \<le> 479 then Some Helm
      else if 480 \<le> cp \<and> cp \<le> 575 then Some Vector
      else if 576 \<le> cp \<and> cp \<le> 703 then Some Rook
      else if 704 \<le> cp \<and> cp \<le> 799 then Some Forge
      else if 800 \<le> cp \<and> cp \<le> 895 then Some Falcon
      else if 896 \<le> cp \<and> cp \<le> 1023 then Some LiveFree
      else None)"

definition lane_for_cp :: "u16 \<Rightarrow> AtlasLane option" where
  "lane_for_cp cp =
     (if cp \<le> 255 then Some Memory
      else if 256 \<le> cp \<and> cp \<le> 383 then Some Skeletal
      else if 384 \<le> cp \<and> cp \<le> 479 then Some Muscular
      else if 480 \<le> cp \<and> cp \<le> 575 then Some Nervous
      else if 576 \<le> cp \<and> cp \<le> 703 then Some Circulatory
      else if 704 \<le> cp \<and> cp \<le> 799 then Some Muscular
      else if 800 \<le> cp \<and> cp \<le> 895 then Some Nervous
      else if 896 \<le> cp \<and> cp \<le> 1023 then Some Memory
      else None)"

text \<open>The table of the module's documentation: the supervisor and lane of a domain.\<close>

fun supervisor_of :: "AtlasDomain \<Rightarrow> AtlasSupervisor" where
  "supervisor_of LegacySubset256 = CubeCubedSealer"
| "supervisor_of Sovereignty = Gaia"
| "supervisor_of Sequencing = Helm"
| "supervisor_of LanguageGlyph = Vector"
| "supervisor_of HilbertCube = Rook"
| "supervisor_of BuildProof = Forge"
| "supervisor_of Federation = Falcon"
| "supervisor_of EmergentResidual = LiveFree"

fun lane_of :: "AtlasDomain \<Rightarrow> AtlasLane" where
  "lane_of LegacySubset256 = Memory"
| "lane_of Sovereignty = Skeletal"
| "lane_of Sequencing = Muscular"
| "lane_of LanguageGlyph = Nervous"
| "lane_of HilbertCube = Circulatory"
| "lane_of BuildProof = Muscular"
| "lane_of Federation = Nervous"
| "lane_of EmergentResidual = Memory"

lemma atlas_tables_total:
  "domain_for_cp cp \<noteq> None \<longleftrightarrow> is_valid_cp cp"
  "supervisor_for_cp cp \<noteq> None \<longleftrightarrow> is_valid_cp cp"
  "lane_for_cp cp \<noteq> None \<longleftrightarrow> is_valid_cp cp"
  by (auto simp: domain_for_cp_def supervisor_for_cp_def lane_for_cp_def is_valid_cp_def BEHCS_1024_CP_COUNT_def
      word_le_nat_alt word_less_nat_alt)

text \<open>the three lookups are total on the 1024 codepoints and refuse every other; they agree with the documented
  table (the supervisor and lane of a codepoint are those of its domain); and the legacy embedding is
  defined on the same codepoints, is the identity on the legacy domain and keeps the low byte.\<close>

theorem atlas_lookup:
  "(domain_for_cp cp \<noteq> None \<longleftrightarrow> is_valid_cp cp) \<and>
   supervisor_for_cp cp = map_option supervisor_of (domain_for_cp cp) \<and>
   lane_for_cp cp = map_option lane_of (domain_for_cp cp) \<and>
   subset_embedding_cp cp = (if is_valid_cp cp then Some (word_of_nat (unat cp mod 256)) else None) \<and>
   (domain_for_cp cp = Some LegacySubset256 \<longleftrightarrow> is_valid_cp cp \<and> map_option unat (subset_embedding_cp cp) = Some (unat cp))"
proof -
  have m: "(ucast (cp mod 256) :: u8) = word_of_nat (unat cp mod 256)"
  proof -
    have "unat (cp mod 256) = unat cp mod 256" by (simp add: unat_mod)
    moreover have "(ucast (cp mod 256) :: u8) = word_of_nat (unat (cp mod 256))" by (rule of_nat_unat [symmetric])
    ultimately show ?thesis by simp
  qed
  have "unat (word_of_nat (unat cp mod 256) :: u8) = unat cp mod 256" by (simp add: unat_of_nat)
  then show ?thesis using m
    by (auto simp: domain_for_cp_def supervisor_for_cp_def lane_for_cp_def subset_embedding_cp_def is_valid_cp_def
        BEHCS_1024_CP_COUNT_def BEHCS_256_CP_COUNT_def word_le_nat_alt word_less_nat_alt)
qed

end
