(* ===== verification/Bus_Fabric.thy ===== *)
theory Bus_Fabric
  imports Prelude
begin

text \<open>
  The bus fabric of \<^verbatim>\<open>kernel/core/src/bus_fabric/mod.rs\<close>: port labels over the 1024-glyph alphabet, their byte
  encoding and the FNV-1a handle a label resolves to.
\<close>

section \<open>Constants and labels\<close>

definition BEHCS1024_ALPHABET_SIZE :: u32 where "BEHCS1024_ALPHABET_SIZE = 1024"
definition BEHCS1024_ALPHABET_TABLE :: "u32 list" where "BEHCS1024_ALPHABET_TABLE = map word_of_nat [0..<1024]"
definition PREFIX_TREE_BRANCH :: u32 where "PREFIX_TREE_BRANCH = BEHCS1024_ALPHABET_SIZE"
definition PREFIX_TREE_MAX_DEPTH :: u32 where "PREFIX_TREE_MAX_DEPTH = 20"
definition ADDRESSABLE_CEILING_LOG10 :: u32 where "ADDRESSABLE_CEILING_LOG10 = 60"
definition GC_TRIGGER_EVERY_N_ENVELOPES :: u32 where "GC_TRIGGER_EVERY_N_ENVELOPES = 2000"

datatype BusFabricErr = LabelTooDeep | GlyphOutOfRange | BranchEmpty | Unimplemented

datatype PortLabel = PortLabel (levels: "u16 list")

text \<open>\<open>levels.len() as u32\<close> truncates to 32 bits.\<close>

definition from_levels :: "u16 list \<Rightarrow> (PortLabel, BusFabricErr) result" where
  "from_levels ls =
     (if (word_of_nat (length ls) :: u32) > PREFIX_TREE_MAX_DEPTH then Err LabelTooDeep
      else if list_ex (\<lambda>g. (ucast g :: u32) \<ge> BEHCS1024_ALPHABET_SIZE) ls then Err GlyphOutOfRange
      else Ok (PortLabel ls))"

definition label_depth :: "PortLabel \<Rightarrow> nat" where
  "label_depth l = length (levels l)"

definition canonical_glyph_bytes :: "PortLabel \<Rightarrow> bytes" where
  "canonical_glyph_bytes l = foldl (\<lambda>out g. (out @ [ucast (drop_bit 8 g)]) @ [ucast (g AND 0xFF)]) [] (levels l)"

section \<open>Handles\<close>

definition fnv1a_64 :: "bytes \<Rightarrow> u64" where
  "fnv1a_64 bs = foldl (\<lambda>h b. (h XOR ucast b) * 0x100000001B3) 0xcbf29ce484222325 bs"

definition RESERVED_HANDLE_ZERO :: u64 where "RESERVED_HANDLE_ZERO = 0"

definition resolve_label :: "PortLabel \<Rightarrow> (u64, BusFabricErr) result" where
  "resolve_label l =
     (if (word_of_nat (label_depth l) :: u32) > PREFIX_TREE_MAX_DEPTH then Err LabelTooDeep
      else if list_ex (\<lambda>g. (ucast g :: u32) \<ge> BEHCS1024_ALPHABET_SIZE) (levels l) then Err GlyphOutOfRange
      else let bs = canonical_glyph_bytes l;
               h = fnv1a_64 bs;
               h = (if h = RESERVED_HANDLE_ZERO \<and> bs \<noteq> [] then 0x8000000000000000 else h)
           in Ok h)"

definition prefix_tree_walk :: "PortLabel \<Rightarrow> (u64, BusFabricErr) result" where
  "prefix_tree_walk l = resolve_label l"

definition label_for_handle :: "u64 \<Rightarrow> (PortLabel, BusFabricErr) result" where
  "label_for_handle handle = Err BranchEmpty"

section \<open>Lemmas\<close>

lemma low_byte: "(ucast (g AND 0xFF :: u16) :: u8) = ucast g"
proof -
  have "(0xFF :: u16) = mask 8" by (simp add: mask_eq_exp_minus_1)
  then have "g AND 0xFF = take_bit 8 g" by (simp only: take_bit_eq_mask)
  then show ?thesis by (intro bit_word_eqI) (simp add: bit_simps)
qed

lemma canonical_glyph_bytes_eq: "canonical_glyph_bytes l = concat (map (be_bytes 2) (levels l))"
proof -
  have "be_bytes 2 = (\<lambda>g :: u16. [ucast (drop_bit 8 g), ucast (g AND 0xFF)])"
    by (rule ext) (simp add: be_bytes_def upt_rec low_byte)
  moreover have "foldl (\<lambda>out g. (out @ [ucast (drop_bit 8 g)]) @ [ucast (g AND 0xFF)]) acc gs =
      acc @ concat (map (\<lambda>g. [ucast (drop_bit 8 g), ucast (g AND 0xFF :: u16)]) gs)" for acc :: bytes and gs
    by (induction gs arbitrary: acc) simp_all
  ultimately show ?thesis by (simp add: canonical_glyph_bytes_def)
qed

lemma concat_be_inj:
  "concat (map (be_bytes 2) (xs :: u16 list)) = concat (map (be_bytes 2) ys) \<Longrightarrow> xs = ys"
proof (induction xs arbitrary: ys)
  case Nil
  then show ?case by (cases ys) (auto simp: be_bytes_def)
next
  case (Cons x xs)
  then show ?case
  proof (cases ys)
    case Nil
    then show ?thesis using Cons.prems by (simp add: be_bytes_def)
  next
    case (Cons y ys')
    then have "be_bytes 2 x = be_bytes 2 y" "concat (map (be_bytes 2) xs) = concat (map (be_bytes 2) ys')"
      using Cons.prems by simp_all
    then show ?thesis using Cons Cons.IH [of ys'] by (simp add: be_bytes_inj)
  qed
qed

lemma length_canonical_glyph_bytes: "length (canonical_glyph_bytes l) = 2 * label_depth l"
proof -
  have "length (concat (map (be_bytes 2) (xs :: u16 list))) = 2 * length xs" for xs by (induction xs) simp_all
  then show ?thesis by (simp add: canonical_glyph_bytes_eq label_depth_def)
qed

lemma glyph_range: "(ucast (g :: u16) :: u32) \<ge> BEHCS1024_ALPHABET_SIZE \<longleftrightarrow> 1024 \<le> unat g"
proof -
  have "unat g < 2 ^ 16" using unsigned_less [of g] by simp
  then have "take_bit 32 (unat g) = unat g" by (simp add: take_bit_nat_eq_self)
  then show ?thesis by (simp add: BEHCS1024_ALPHABET_SIZE_def word_le_nat_alt unsigned_ucast_eq)
qed

lemma fnv_two: "fnv1a_64 [a, b] = ((0xcbf29ce484222325 XOR ucast a) * 0x100000001B3 XOR ucast b) * 0x100000001B3"
  by (simp add: fnv1a_64_def)

lemma fnv_prime_inj: "x * 0x100000001B3 = y * 0x100000001B3 \<longleftrightarrow> x = y" for x y :: u64
proof
  assume "x * 0x100000001B3 = y * 0x100000001B3"
  then have "x * 0x100000001B3 * 0xce965057aff6957b = y * 0x100000001B3 * 0xce965057aff6957b" by simp
  moreover have "(0x100000001B3 :: u64) * 0xce965057aff6957b = 1" by simp
  ultimately show "x = y" by (simp only: mult.assoc mult_1_right)
qed simp

text \<open>The first hashing step takes the four possible high bytes of a glyph to values that differ above
  the low byte, and the second step changes only the low byte before it multiplies.\<close>

definition fnv_hi :: "u8 \<Rightarrow> u64" where
  "fnv_hi a = drop_bit 8 ((0xcbf29ce484222325 XOR ucast a) * 0x100000001B3)"

lemma fnv_hi_distinct:
  assumes "a \<in> {0, 1, 2, 3}" and "b \<in> {0, 1, 2, 3}"
  shows "fnv_hi a = fnv_hi b \<longleftrightarrow> a = b" and "fnv_hi a \<noteq> 0"
  using assms by (auto simp: fnv_hi_def)

lemma drop_low_byte: "drop_bit 8 (ucast (c :: u8) :: u64) = 0"
  by (rule bit_word_eqI) (auto simp: bit_simps dest: bit_imp_le_length)

lemma fnv_two_nonzero:
  assumes "a \<in> {0, 1, 2, 3}"
  shows "fnv1a_64 [a, b] \<noteq> 0"
proof
  assume "fnv1a_64 [a, b] = 0"
  then have "((0xcbf29ce484222325 XOR ucast a) * 0x100000001B3 XOR ucast b) * 0x100000001B3 = 0 * (0x100000001B3 :: u64)"
    by (simp only: fnv_two mult_zero_left)
  then have "(0xcbf29ce484222325 XOR ucast a) * 0x100000001B3 XOR ucast b = (0 :: u64)" by (simp only: fnv_prime_inj)
  from arg_cong [OF this, of "drop_bit 8"] have "fnv_hi a = 0" by (simp add: fnv_hi_def drop_bit_xor drop_low_byte)
  then show False using fnv_hi_distinct(2) [OF assms assms] by simp
qed

lemma fnv_two_parts:
  assumes "fnv1a_64 [a, b] = fnv1a_64 [a', b']"
  shows "fnv_hi a = fnv_hi a'" and "a = a' \<Longrightarrow> b = b'"
proof -
  let ?x = "\<lambda>a :: u8. (0xcbf29ce484222325 XOR ucast a) * 0x100000001B3 :: u64"
  have e: "?x a XOR ucast b = ?x a' XOR ucast b'" using assms by (simp only: fnv_two fnv_prime_inj)
  from arg_cong [OF e, of "drop_bit 8"] show "fnv_hi a = fnv_hi a'" by (simp add: fnv_hi_def drop_bit_xor drop_low_byte)
  assume "a = a'"
  then have "?x a XOR (?x a XOR ucast b) = ?x a XOR (?x a XOR ucast b')" using e by simp
  then have "(ucast b :: u64) = ucast b'" by (simp only: xor.assoc [symmetric] xor_self_eq xor.left_neutral)
  then have "(ucast (ucast b :: u64) :: u8) = ucast (ucast b' :: u64)" by (rule arg_cong)
  moreover have "(ucast (ucast c :: u64) :: u8) = c" for c
    by (rule bit_word_eqI) (auto simp: bit_simps dest: bit_imp_le_length)
  ultimately show "b = b'" by simp
qed

lemma glyph_hi_byte:
  assumes "unat (g :: u16) < 1024"
  shows "(ucast (drop_bit 8 g) :: u8) \<in> {0, 1, 2, 3}"
proof -
  have "unat (drop_bit 8 g) < 4" using assms by (simp add: drop_bit_eq_div unat_div)
  then have "unat (drop_bit 8 g) = 0 \<or> unat (drop_bit 8 g) = 1 \<or> unat (drop_bit 8 g) = 2 \<or> unat (drop_bit 8 g) = 3"
    by linarith
  moreover have "(ucast (drop_bit 8 g) :: u8) = word_of_nat (unat (drop_bit 8 g))" by (rule of_nat_unat [symmetric])
  ultimately show ?thesis by (elim disjE) simp_all
qed

lemma resolve_single:
  assumes "unat (g :: u16) < 1024"
  shows "resolve_label (PortLabel [g]) = Ok (fnv1a_64 (be_bytes 2 g))"
proof -
  have "be_bytes 2 g = [ucast (drop_bit 8 g), ucast g]" by (simp add: be_bytes_def upt_rec)
  then show ?thesis using assms fnv_two_nonzero [OF glyph_hi_byte [OF assms]]
    by (simp add: resolve_label_def label_depth_def canonical_glyph_bytes_eq PREFIX_TREE_MAX_DEPTH_def glyph_range RESERVED_HANDLE_ZERO_def)
qed

lemma resolve_single_inj:
  assumes "unat (g :: u16) < 1024" and "unat (g' :: u16) < 1024"
  shows "resolve_label (PortLabel [g]) = resolve_label (PortLabel [g']) \<longleftrightarrow> g = g'"
proof
  have be: "be_bytes 2 x = [ucast (drop_bit 8 x), ucast x]" for x :: u16 by (simp add: be_bytes_def upt_rec)
  assume "resolve_label (PortLabel [g]) = resolve_label (PortLabel [g'])"
  then have e: "fnv1a_64 [ucast (drop_bit 8 g), ucast g] = fnv1a_64 [ucast (drop_bit 8 g'), ucast g']"
    using assms by (simp add: resolve_single be)
  have "be_bytes 2 g = be_bytes 2 g'"
    using fnv_two_parts [OF e] fnv_hi_distinct(1) [OF glyph_hi_byte [OF assms(1)] glyph_hi_byte [OF assms(2)]] by (simp add: be)
  then show "g = g'" by (simp add: be_bytes_inj)
qed simp

section \<open>Properties\<close>

text \<open>labels and handles. A label of at most 2^32 - 1 levels is accepted exactly when it has at most 20 levels of
  glyphs below 1024; every accepted label resolves to a non-zero handle, its byte encoding has two
  bytes per level and determines it, and the 1024 labels of one level have 1024 different handles.\<close>

theorem bus_label_handles:
  assumes "length ls < 2 ^ 32"
  shows "(is_ok (from_levels ls) \<longleftrightarrow> length ls \<le> 20 \<and> (\<forall>g \<in> set ls. unat g < 1024)) \<and>
    (\<forall>l. from_levels ls = Ok l \<longrightarrow> (\<exists>h. resolve_label l = Ok h \<and> h \<noteq> 0) \<and>
       length (canonical_glyph_bytes l) = 2 * length ls \<and>
       (\<forall>l'. canonical_glyph_bytes l' = canonical_glyph_bytes l \<longleftrightarrow> l' = l)) \<and>
    (\<forall>g g'. unat g < 1024 \<and> unat g' < 1024 \<longrightarrow>
       (resolve_label (PortLabel [g]) = resolve_label (PortLabel [g']) \<longleftrightarrow> g = g'))"
proof (intro conjI allI impI)
  have d: "(word_of_nat (length ls) :: u32) > PREFIX_TREE_MAX_DEPTH \<longleftrightarrow> 20 < length ls"
    using assms by (simp add: word_less_nat_alt PREFIX_TREE_MAX_DEPTH_def unat_of_nat)
  show ok: "is_ok (from_levels ls) \<longleftrightarrow> length ls \<le> 20 \<and> (\<forall>g \<in> set ls. unat g < 1024)"
    by (auto simp: from_levels_def d glyph_range list_ex_iff not_le not_less)
  fix l assume l: "from_levels ls = Ok l"
  then have lv: "l = PortLabel ls" by (auto simp: from_levels_def split: if_splits)
  have ne: "fnv1a_64 [] \<noteq> 0" by (simp add: fnv1a_64_def)
  show "\<exists>h. resolve_label l = Ok h \<and> h \<noteq> 0"
    using l ne by (auto simp: resolve_label_def from_levels_def lv label_depth_def Let_def RESERVED_HANDLE_ZERO_def split: if_splits)
  show "length (canonical_glyph_bytes l) = 2 * length ls" by (simp add: length_canonical_glyph_bytes lv label_depth_def)
  fix l'
  show "canonical_glyph_bytes l' = canonical_glyph_bytes l \<longleftrightarrow> l' = l"
    by (auto simp: canonical_glyph_bytes_eq intro: PortLabel.expand concat_be_inj)
next
  fix g g' :: u16
  assume "unat g < 1024 \<and> unat g' < 1024"
  then show "resolve_label (PortLabel [g]) = resolve_label (PortLabel [g']) \<longleftrightarrow> g = g'" by (simp add: resolve_single_inj)
qed

theorem bus_label_handles_witness:
  "is_ok (from_levels [3, 1023]) \<and> resolve_label (PortLabel [3]) \<noteq> resolve_label (PortLabel [259])"
  using bus_label_handles [of "[3, 1023]"] by auto

end
