(* ===== verification/Glyph_Genesis.thy ===== *)
theory Glyph_Genesis
  imports Sha256
begin

text \<open>
  Glyph words (\<^verbatim>\<open>kernel/core/src/glyph_genesis/mod.rs\<close>): eight glyphs of a 256-entry alphabet chosen by the digest of
  a key. SHA-256 of the \<open>sha2\<close> crate is the parameter \<open>sha\<close>.
\<close>

definition BEHCS256_ALPHABET_SIZE :: nat where "BEHCS256_ALPHABET_SIZE = 256"

datatype GlyphErr = AlphabetSizeMismatch

text \<open>The loop \<open>for _ in 0..n { out.push_str(alphabet[v % base]); v /= base; }\<close>.\<close>

fun glyph_loop :: "nat \<Rightarrow> u64 \<Rightarrow> string list \<Rightarrow> string \<Rightarrow> string" where
  "glyph_loop 0 v alphabet out = out"
| "glyph_loop (Suc n) v alphabet out =
     (let base = word_of_nat BEHCS256_ALPHABET_SIZE
      in glyph_loop n (v div base) alphabet (out @ alphabet ! unat (v mod base)))"

definition glyph :: "(bytes \<Rightarrow> bytes) \<Rightarrow> string \<Rightarrow> string list \<Rightarrow> string" where
  "glyph sha key alphabet =
     (let digest = sha (as_bytes key);
          v = foldl (\<lambda>v i. push_bit 8 v OR ucast (digest ! i)) 0 [0..<8]
      in glyph_loop 8 v alphabet [])"

record SentenceWord =
  dim :: string
  tuple :: string
  word_glyph :: string

definition sentence :: "(bytes \<Rightarrow> bytes) \<Rightarrow> (string \<times> string) list \<Rightarrow> string list \<Rightarrow> SentenceWord list" where
  "sentence sha fs alphabet =
     map (\<lambda>(d, v). let t = (d @ '':'') @ v; g = glyph sha t alphabet
                   in \<lparr>dim = d, tuple = t, word_glyph = g\<rparr>) fs"

text \<open>The test alphabet: the 95 printable ASCII characters, then a placeholder.\<close>

definition ASCII_TABLE :: "string list" where
  "ASCII_TABLE = map (\<lambda>i. [char_of (32 + i)]) [0..<95]"

definition test_alphabet_v0_1 :: "string list" where
  "test_alphabet_v0_1 = foldl (\<lambda>arr i. arr[i := ASCII_TABLE ! i]) (replicate 256 ''?'') [0..<95]"

section \<open>Lemmas\<close>

lemma shift_byte_mod: "(push_bit 8 v OR ucast (b :: u8)) mod 256 = (ucast b :: u64)" for v :: u64
proof -
  have "take_bit 8 (push_bit 8 v OR ucast b) = (ucast b :: u64)"
    by (rule bit_word_eqI) (auto simp: bit_simps dest: bit_imp_le_length)
  then show ?thesis by (simp add: take_bit_eq_mod)
qed

lemma shift_byte_div: "unat v < 2 ^ 56 \<Longrightarrow> (push_bit 8 v OR ucast (b :: u8)) div 256 = v" for v :: u64
proof -
  assume "unat v < 2 ^ 56"
  then have t: "take_bit 56 v = v" by (simp add: word_unat_eq_iff unsigned_take_bit_eq take_bit_nat_eq_self)
  have "drop_bit 8 (push_bit 8 v OR ucast b) = take_bit 56 v"
    by (rule bit_word_eqI) (auto simp: bit_simps dest: bit_imp_le_length)
  then show ?thesis using t by (simp add: drop_bit_eq_div)
qed

lemma glyph_loop_fold:
  "length (bs :: bytes) = n \<Longrightarrow> n \<le> 8 \<Longrightarrow>
   unat (foldl (\<lambda>v b. push_bit 8 v OR ucast b) 0 bs :: u64) < 2 ^ (8 * n) \<and>
   glyph_loop n (foldl (\<lambda>v b. push_bit 8 v OR ucast b) 0 bs) alphabet out = out @ concat (map (\<lambda>b. alphabet ! unat b) (rev bs))"
proof (induction n arbitrary: bs out)
  case 0
  then show ?case by simp
next
  case (Suc n)
  then obtain cs c where bs: "bs = cs @ [c]" "length cs = n" by (metis length_Suc_conv_rev)
  let ?v = "foldl (\<lambda>v b. push_bit 8 v OR ucast b) 0 cs :: u64"
  note ih = Suc.IH [OF bs(2)]
  have lt: "unat ?v < 2 ^ (8 * n)" using ih Suc.prems(2) by simp
  then have v56: "unat ?v < 2 ^ 56" using Suc.prems(2) power_increasing [of "8 * n" 56 "2 :: nat"] by linarith
  have "unat (push_bit 8 ?v OR ucast c) = unat ((push_bit 8 ?v OR ucast c) div 256) * 256 + unat ((push_bit 8 ?v OR ucast c) mod 256)"
    by (simp add: unat_div unat_mod)
  then have "unat (push_bit 8 ?v OR ucast c) = unat ?v * 256 + unat (ucast c :: u64)"
    by (simp only: shift_byte_div [OF v56] shift_byte_mod)
  moreover have c: "unat (ucast c :: u64) = unat c"
  proof -
    have "unat c < 2 ^ 64" using unsigned_less [of c, where ?'a = nat] by simp
    then show ?thesis by (simp add: unsigned_ucast_eq take_bit_nat_eq_self)
  qed
  moreover have "unat c < 256" using unsigned_less [of c, where ?'a = nat] by simp
  ultimately have "unat (push_bit 8 ?v OR ucast c) < 2 ^ (8 * Suc n)"
    using lt by (simp add: power_add)
  moreover have "glyph_loop (Suc n) (push_bit 8 ?v OR ucast c) alphabet out = glyph_loop n ?v alphabet (out @ alphabet ! unat c)"
    by (simp add: BEHCS256_ALPHABET_SIZE_def shift_byte_div [OF v56] shift_byte_mod c)
  ultimately show ?case using ih [of "out @ alphabet ! unat c"] Suc.prems(2) by (simp add: bs)
qed

lemma foldl_nth: "k \<le> length xs \<Longrightarrow> foldl (\<lambda>v i. f v (xs ! i)) a [0..<k] = foldl f a (take k xs)"
  by (induction k) (simp_all add: take_Suc_conv_app_nth)

section \<open>Properties\<close>

text \<open>for a hash with 32-byte digests, the glyph word of a key is the concatenation of the alphabet's entries for
  the first eight bytes of the digest in reverse order; the base-256 expansion of the 64-bit number
  loses nothing. Each word of a sentence is the glyph word of its \<open>dim:value\<close> text.\<close>

theorem glyph_of_digest:
  assumes "\<forall>m. length (sha m) = 32"
  shows "glyph sha key alphabet = concat (map (\<lambda>b. alphabet ! unat b) (rev (take 8 (sha (as_bytes key))))) \<and>
     map word_glyph (sentence sha fs alphabet) =
       map (\<lambda>(d, v). concat (map (\<lambda>b. alphabet ! unat b) (rev (take 8 (sha (as_bytes (d @ '':'' @ v))))))) fs"
proof -
  have g: "glyph sha k alphabet = concat (map (\<lambda>b. alphabet ! unat b) (rev (take 8 (sha (as_bytes k)))))" for k
  proof -
    have "foldl (\<lambda>v i. push_bit 8 v OR ucast (sha (as_bytes k) ! i)) 0 [0..<8] =
        (foldl (\<lambda>v b. push_bit 8 v OR ucast b) 0 (take 8 (sha (as_bytes k))) :: u64)"
      using assms by (intro foldl_nth) simp
    then show ?thesis using glyph_loop_fold [of "take 8 (sha (as_bytes k))" 8 alphabet "[]"] assms
      by (simp only: glyph_def Let_def) simp
  qed
  then show ?thesis by (auto simp: sentence_def Let_def)
qed

theorem glyph_of_digest_witness:
  "glyph (\<lambda>_. replicate 32 33) ''k'' test_alphabet_v0_1 = ''AAAAAAAA''"
proof -
  have "\<forall>m :: bytes. length ((\<lambda>_. replicate 32 (33 :: u8)) m) = 32" by simp
  from glyph_of_digest [OF this, of "''k''" test_alphabet_v0_1]
  have "glyph (\<lambda>_. replicate 32 33) ''k'' test_alphabet_v0_1 = concat (map (\<lambda>b. test_alphabet_v0_1 ! unat b) (replicate 8 (33 :: u8)))"
    by simp
  moreover have "test_alphabet_v0_1 ! 33 = ''A''" by code_simp
  moreover have "replicate 8 (33 :: u8) = [33, 33, 33, 33, 33, 33, 33, 33]" by code_simp
  ultimately show ?thesis by simp
qed

end
