(* ===== verification/Bus_And_Kick.thy ===== *)
theory Bus_And_Kick
  imports Prelude
begin

text \<open>
  The bus-and-kick primitive of \<^verbatim>\<open>kernel/core/src/bus_and_kick/mod.rs\<close>: classification of verbs into action
  classes and composition of bus envelopes. \<open>str::to_uppercase\<close> is the parameter \<open>to_uppercase\<close>.
\<close>

definition BUS_AND_KICK_HILBERT_ROOM :: u32 where "BUS_AND_KICK_HILBERT_ROOM = 29"
definition BUS_AND_KICK_PROF :: string where "BUS_AND_KICK_PROF = ''PROF-BUS-AND-KICK-SUPERVISOR''"

datatype ActionClass = BusOnly | KickOnly | PostAndKick | Heartbeat

definition classify_verb :: "(string \<Rightarrow> string) \<Rightarrow> string \<Rightarrow> ActionClass" where
  "classify_verb to_uppercase verb =
     (let v = to_uppercase verb
      in if str_contains v ''HEARTBEAT'' \<or> str_contains v ''PULSE_LOOP'' \<or> str_contains v ''STEADY'' then Heartbeat
         else if str_contains v ''ACTIONABLE'' \<or> str_contains v ''DIRECTIVE'' \<or> str_contains v ''WAKE'' \<or>
                 str_contains v ''ALERT'' \<or> str_contains v ''KICK_REQUIRED'' then PostAndKick
         else BusOnly)"

datatype BatkErr = UnknownPeer | BearerMissing | NonceMintFailed | Unimplemented

record ComposedEnvelope =
  env_id :: string
  env_from :: string
  env_to :: string
  env_mode :: string
  env_actor :: string
  env_target :: string
  env_ts_iso :: string
  env_verb :: string
  env_payload :: string

definition compose ::
    "string option \<Rightarrow> string \<Rightarrow> string \<Rightarrow> string \<Rightarrow> string \<Rightarrow> string \<Rightarrow> string \<Rightarrow> string \<Rightarrow> ComposedEnvelope" where
  "compose envelope_id_hint fr to actor target ts_iso verb payload =
     (let i = (case envelope_id_hint of Some s \<Rightarrow> s | None \<Rightarrow> fr @ ''-batk-'' @ ts_iso)
      in \<lparr>env_id = i, env_from = fr, env_to = to, env_mode = ''real'', env_actor = actor, env_target = target,
          env_ts_iso = ts_iso, env_verb = verb, env_payload = payload\<rparr>)"

definition heartbeat_verb_for :: "(string \<Rightarrow> string) \<Rightarrow> string \<Rightarrow> string" where
  "heartbeat_verb_for to_uppercase host = ''EVT-'' @ to_uppercase host @ ''-HEARTBEAT''"

text \<open>The documented behaviour of \<open>str::to_uppercase\<close>: character by character, and the identity on text
  that has no lower-case letter and is ASCII.\<close>

definition uppers :: "(string \<Rightarrow> string) \<Rightarrow> bool" where
  "uppers f \<longleftrightarrow> (\<forall>s t. f (s @ t) = f s @ f t) \<and>
     (\<forall>s. list_all (\<lambda>c. byte_of c < 128 \<and> \<not> is_ascii_lowercase c) s \<longrightarrow> f s = s)"

text \<open>attention. A verb never kicks a peer when it contains a heartbeat word, whatever else it contains; the
  heartbeat verb of any host is classified as a heartbeat; and a kick happens only for the five action
  words. The class \<open>KickOnly\<close> is never produced.\<close>

theorem heartbeat_never_kicks:
  assumes "uppers f"
  shows "classify_verb f (heartbeat_verb_for f h) = Heartbeat \<and> classify_verb f v \<noteq> KickOnly \<and>
    (classify_verb f v = PostAndKick \<longleftrightarrow>
       (\<exists>w \<in> {''ACTIONABLE'', ''DIRECTIVE'', ''WAKE'', ''ALERT'', ''KICK_REQUIRED''}. sublist w (f v)) \<and>
       \<not> (\<exists>w \<in> {''HEARTBEAT'', ''PULSE_LOOP'', ''STEADY''}. sublist w (f v)))"
proof -
  have "f ''-HEARTBEAT'' = ''-HEARTBEAT''"
    using assms by (simp add: uppers_def is_ascii_lowercase_def byte_of_def)
  then have "f (heartbeat_verb_for f h) = (f ''EVT-'' @ f (f h) @ ''-'') @ ''HEARTBEAT'' @ []"
    using assms by (simp add: heartbeat_verb_for_def uppers_def del: append_Cons append_Nil)
  then have "sublist ''HEARTBEAT'' (f (heartbeat_verb_for f h))" by (metis sublist_def)
  then have "classify_verb f (heartbeat_verb_for f h) = Heartbeat" by (simp add: classify_verb_def str_contains_iff Let_def)
  moreover have "classify_verb f v \<noteq> KickOnly" by (simp add: classify_verb_def Let_def)
  moreover have "classify_verb f v = PostAndKick \<longleftrightarrow>
       (\<exists>w \<in> {''ACTIONABLE'', ''DIRECTIVE'', ''WAKE'', ''ALERT'', ''KICK_REQUIRED''}. sublist w (f v)) \<and>
       \<not> (\<exists>w \<in> {''HEARTBEAT'', ''PULSE_LOOP'', ''STEADY''}. sublist w (f v))"
    by (simp add: classify_verb_def Let_def str_contains_iff)
  ultimately show ?thesis by blast
qed

text \<open>An ASCII upper-casing satisfies the hypothesis.\<close>

definition ascii_upper :: "char \<Rightarrow> char" where
  "ascii_upper c = (if is_ascii_lowercase c then char_of (byte_of c - 32) else c)"

lemma uppers_ascii: "uppers (map ascii_upper)"
  by (auto simp: uppers_def ascii_upper_def list_all_iff intro: map_idI)

theorem heartbeat_never_kicks_witness:
  "classify_verb (map ascii_upper) (heartbeat_verb_for (map ascii_upper) ''wake'') = Heartbeat"
  using heartbeat_never_kicks [OF uppers_ascii, of "''wake''"] by blast

end
