(* ===== verification/Line_Writer.thy ===== *)
theory Line_Writer
  imports Sha256
begin

text \<open>
  Writing a line into a caller's fixed buffer, as \<^verbatim>\<open>boot_diag.rs\<close> and \<^verbatim>\<open>boot_identity.rs\<close> do before there is an
  allocator: a writer counts what it is given and copies what fits. The locale \<open>bounded_writer\<close> is the
  contract of one push; from it follows once for both writers what a sequence of pushes leaves in the
  buffer. The decimal conversion both use is here too.
\<close>

section \<open>Decimal digits\<close>

text \<open>The trait \<open>Decimal\<close> as the record of its methods, and its two implementations.\<close>

record 'a Decimal =
  is_zero :: "'a \<Rightarrow> bool"
  rem_10 :: "'a \<Rightarrow> u8"
  div_10 :: "'a \<Rightarrow> 'a"

definition Decimal_u32 :: "u32 Decimal" where
  "Decimal_u32 = \<lparr>is_zero = (\<lambda>v. v = 0), rem_10 = (\<lambda>v. ucast (v mod 10)), div_10 = (\<lambda>v. v div 10)\<rparr>"

definition Decimal_usize :: "usize Decimal" where
  "Decimal_usize = \<lparr>is_zero = (\<lambda>v. v = 0), rem_10 = (\<lambda>v. ucast (v mod 10)), div_10 = (\<lambda>v. v div 10)\<rparr>"

text \<open>The loop \<open>while !n.is_zero() { cursor -= 1; digits[cursor] = b'0' + n.rem_10(); n = n.div_10() }\<close>.
  With no room left the subtraction panics: the result is \<open>None\<close>.\<close>

fun decimal_loop :: "'a Decimal \<Rightarrow> 'a \<Rightarrow> nat \<Rightarrow> bytes \<Rightarrow> (nat \<times> bytes) option" where
  "decimal_loop D n 0 digits = (if is_zero D n then Some (0, digits) else None)"
| "decimal_loop D n (Suc cursor) digits =
     (if is_zero D n then Some (Suc cursor, digits)
      else decimal_loop D (div_10 D n) cursor (digits[cursor := 48 + rem_10 D n]))"

definition decimal_bytes :: "'a Decimal \<Rightarrow> nat \<Rightarrow> 'a \<Rightarrow> bytes option" where
  "decimal_bytes D cap n =
     (if is_zero D n then Some (as_bytes ''0'')
      else map_option (\<lambda>(cursor, digits). drop cursor digits) (decimal_loop D n cap (replicate cap 0)))"

lemma digit_byte:
  assumes "d < 10"
  shows "as_bytes [digit_char d] = [48 + word_of_nat d]"
proof -
  have "(of_char (char_of (48 + d)) :: u8) = of_nat (of_char (char_of (48 + d)))" by (rule of_nat_of_char [symmetric])
  also have "\<dots> = of_nat (48 + d)" using assms by (simp only: of_char_of) simp
  finally show ?thesis by (simp add: as_bytes_def digit_char_def)
qed

text \<open>The contract of the trait: the methods compute zero test, last digit and quotient of a value. Any
  implementation prints its value's decimal digits when the buffer has room for them.\<close>

locale decimal_type =
  fixes D :: "'a Decimal" and val :: "'a \<Rightarrow> nat"
  assumes zero: "is_zero D n \<longleftrightarrow> val n = 0"
    and rem: "rem_10 D n = word_of_nat (val n mod 10)"
    and div: "val (div_10 D n) = val n div 10"
begin

lemma loop_eq:
  "val n \<noteq> 0 \<Longrightarrow> length (decimal (val n)) \<le> length pre \<Longrightarrow>
   \<exists>c ds. decimal_loop D n (length pre) (pre @ suf) = Some (c, ds) \<and> drop c ds = as_bytes (decimal (val n)) @ suf"
proof (induction "val n" arbitrary: n pre suf rule: less_induct)
  case less
  obtain xs x where pre: "pre = xs @ [x]"
    using less.prems(2) decimal_nonempty(1) [of "val n"] by (cases pre rule: rev_exhaust) auto
  let ?d = "48 + word_of_nat (val n mod 10) :: u8"
  have step: "decimal_loop D n (length pre) (pre @ suf) = decimal_loop D (div_10 D n) (length xs) (xs @ ?d # suf)"
    using less.prems(1) by (simp add: pre zero rem list_update_append)
  show ?case
  proof (cases "val n < 10")
    case True
    then have "is_zero D (div_10 D n)" by (simp add: zero div)
    then have "decimal_loop D (div_10 D n) (length xs) (xs @ ?d # suf) = Some (length xs, xs @ ?d # suf)"
      by (cases "length xs") simp_all
    then show ?thesis using True by (simp add: step decimal.simps [of "val n"] digit_byte)
  next
    case False
    then have d: "decimal (val n) = decimal (val n div 10) @ [digit_char (val n mod 10)]"
      by (simp add: decimal.simps [of "val n"])
    have "length (decimal (val (div_10 D n))) \<le> length xs" using less.prems(2) by (simp add: d pre div)
    from less.hyps [OF _ _ this, of "?d # suf"] False show ?thesis
      by (simp add: step d digit_byte div)
  qed
qed

lemma bytes_eq:
  assumes "length (decimal (val n)) \<le> cap"
  shows "decimal_bytes D cap n = Some (as_bytes (decimal (val n)))"
proof (cases "val n = 0")
  case True
  have "char_of (48 :: nat) = CHR ''0''" by code_simp
  with True show ?thesis by (simp add: decimal_bytes_def zero decimal.simps [of 0] digit_char_def)
next
  case False
  then show ?thesis using loop_eq [of n "replicate cap 0" "[]"] assms
    by (auto simp: decimal_bytes_def zero)
qed

end

lemma ucast_last_digit:
  assumes "unat (10 :: 'a::len word) = 10"
  shows "(ucast (v mod 10) :: u8) = word_of_nat (unat (v :: 'a word) mod 10)"
proof -
  have "unat (v mod 10) = unat v mod 10" by (simp only: unat_mod assms)
  moreover have "(ucast (v mod 10) :: u8) = word_of_nat (unat (v mod 10))" by (rule of_nat_unat [symmetric])
  ultimately show ?thesis by simp
qed

interpretation dec_u32: decimal_type Decimal_u32 unat
  by unfold_locales (simp_all add: Decimal_u32_def unat_eq_0 unat_div ucast_last_digit)

interpretation dec_usize: decimal_type Decimal_usize unat
  by unfold_locales (simp_all add: Decimal_usize_def unat_eq_0 unat_div ucast_last_digit)

lemma length_decimal: "n < 10 ^ k \<Longrightarrow> 0 < k \<Longrightarrow> length (decimal n) \<le> k"
proof (induction k arbitrary: n)
  case (Suc k)
  then show ?case
    by (cases "n < 10"; cases k) (auto simp: decimal.simps [of n] less_mult_imp_div_less mult.commute)
qed simp

lemma length_decimal_u64: "n < 2 ^ 64 \<Longrightarrow> length (decimal n) \<le> 20"
  by (rule length_decimal) simp_all

lemma concat_as_bytes: "concat (map as_bytes xs) = as_bytes (concat xs)"
  by (induction xs) (simp_all add: as_bytes_def)

section \<open>The contract of a bounded writer\<close>

locale bounded_writer =
  fixes push :: "bytes \<Rightarrow> 'w \<Rightarrow> 'w"
    and buf :: "'w \<Rightarrow> bytes option"
    and req :: "'w \<Rightarrow> usize"
    and wr :: "'w \<Rightarrow> nat"
  assumes push_req: "req (push v w) = saturating_add (req w) (word_of_nat (length v))"
    and push_some: "buf w = Some b \<Longrightarrow> wr w \<le> length b \<Longrightarrow>
      buf (push v w) = Some (copy_at (wr w) (take (length b - wr w) v) b) \<and>
      wr (push v w) = wr w + min (length b - wr w) (length v)"
    and push_none: "buf w = None \<Longrightarrow> buf (push v w) = None \<and> wr (push v w) = wr w"
begin

text \<open>A writer on the buffer \<open>out\<close> that was given \<open>msg\<close>: it counted all of it and holds what fits.\<close>

definition wrote :: "bytes \<Rightarrow> bytes \<Rightarrow> 'w \<Rightarrow> bool" where
  "wrote out msg w \<longleftrightarrow> req w = word_of_nat (length msg) \<and>
     buf w = Some (take (length out) msg @ drop (length msg) out) \<and> wr w = min (length out) (length msg)"

definition counted :: "bytes \<Rightarrow> 'w \<Rightarrow> bool" where
  "counted msg w \<longleftrightarrow> req w = word_of_nat (length msg) \<and> buf w = None \<and> wr w = 0"

lemma req_push:
  assumes "req w = word_of_nat n" and "n + length v < 2 ^ 64"
  shows "req (push v w) = word_of_nat (n + length v)"
proof -
  have "unat (word_of_nat n :: usize) + unat (word_of_nat (length v) :: usize) < 2 ^ 64"
    using assms(2) by (simp add: unat_of_nat)
  then show ?thesis by (simp add: push_req assms(1) saturating_add_def)
qed

lemma wrote_push:
  assumes "wrote out msg w" and "length msg + length v < 2 ^ 64"
  shows "wrote out (msg @ v) (push v w)"
proof -
  have b: "buf w = Some (take (length out) msg @ drop (length msg) out)" and n: "wr w = min (length out) (length msg)"
    and r: "req w = word_of_nat (length msg)" using assms(1) by (simp_all add: wrote_def)
  have len: "length (take (length out) msg @ drop (length msg) out) = length out" by simp
  have "wr w \<le> length (take (length out) msg @ drop (length msg) out)" by (simp only: n len)
  note p = push_some [OF b this, of v, unfolded n len]
  have c: "copy_at (min (length out) (length msg)) (take (length out - min (length out) (length msg)) v)
      (take (length out) msg @ drop (length msg) out) = take (length out) (msg @ v) @ drop (length (msg @ v)) out"
    by (cases "length msg \<le> length out"; cases "length v \<le> length out - length msg")
      (simp_all add: copy_at_def ac_simps)
  have "wr (push v w) = min (length out) (length (msg @ v))" using p by simp
  then show ?thesis using p req_push [OF r assms(2)] by (simp only: wrote_def c length_append simp_thms)
qed

lemma wrote_pushes:
  "wrote out msg w \<Longrightarrow> length msg + length (concat vs) < 2 ^ 64 \<Longrightarrow> wrote out (msg @ concat vs) (fold push vs w)"
proof (induction vs arbitrary: msg w)
  case (Cons v vs)
  then show ?case using Cons.IH [OF wrote_push [OF Cons.prems(1), of v]] by simp
qed simp

lemma wrote_short:
  assumes "wrote out msg w" and "length msg < 2 ^ 64" and "length out < 2 ^ 64"
  shows "req w > word_of_nat (wr w) \<longleftrightarrow> length out < length msg"
  using assms by (auto simp: wrote_def word_less_nat_alt unat_of_nat min_def)

lemma counted_pushes:
  "counted msg w \<Longrightarrow> length msg + length (concat vs) < 2 ^ 64 \<Longrightarrow> counted (msg @ concat vs) (fold push vs w)"
proof (induction vs arbitrary: msg w)
  case (Cons v vs)
  have "counted (msg @ v) (push v w)"
    using Cons.prems push_none [of w v] req_push [of w "length msg" v] by (simp add: counted_def)
  from Cons.IH [OF this] Cons.prems(2) show ?case by simp
qed simp

end

end
