(* ===== verification/Boot_Diag.thy ===== *)
theory Boot_Diag
  imports Line_Writer
begin

text \<open>
  Early boot diagnostics (\<^verbatim>\<open>kernel/core/src/boot_diag.rs\<close>): the observations a loader makes, the stage they
  support, and the status line rendered into a caller's buffer.
\<close>

section \<open>Observations\<close>

datatype SecureBootState = Unknown | Enabled | Disabled

fun secure_wire :: "SecureBootState \<Rightarrow> string" where
  "secure_wire SecureBootState.Unknown = ''unknown''"
| "secure_wire Enabled = ''enabled''"
| "secure_wire Disabled = ''disabled''"

datatype LoaderPathClass = FirmwareEfi | WindowsBootManager | Unknown

fun loader_wire :: "LoaderPathClass \<Rightarrow> string" where
  "loader_wire FirmwareEfi = ''firmware-efi''"
| "loader_wire WindowsBootManager = ''windows-bootmgr''"
| "loader_wire LoaderPathClass.Unknown = ''unknown''"

datatype PixelFormat = Rgb | Bgr | Bitmask | BltOnly | Unknown

fun pixel_wire :: "PixelFormat \<Rightarrow> string" where
  "pixel_wire Rgb = ''rgb''"
| "pixel_wire Bgr = ''bgr''"
| "pixel_wire Bitmask = ''bitmask''"
| "pixel_wire BltOnly = ''blt-only''"
| "pixel_wire PixelFormat.Unknown = ''unknown''"

definition is_direct_framebuffer :: "PixelFormat \<Rightarrow> bool" where
  "is_direct_framebuffer p = (case p of Rgb \<Rightarrow> True | Bgr \<Rightarrow> True | Bitmask \<Rightarrow> True | _ \<Rightarrow> False)"

record FramebufferObservation =
  width :: u32
  height :: u32
  pixel_format :: PixelFormat
  byte_len :: usize
  base_present :: bool
  layout_verified :: bool

definition ABSENT :: FramebufferObservation where
  "ABSENT = \<lparr>width = 0, height = 0, pixel_format = PixelFormat.Unknown, byte_len = 0, base_present = False,
             layout_verified = False\<rparr>"

definition framebuffer_new :: "u32 \<Rightarrow> u32 \<Rightarrow> PixelFormat \<Rightarrow> usize \<Rightarrow> bool \<Rightarrow> bool \<Rightarrow> FramebufferObservation" where
  "framebuffer_new w h fmt len base layout =
     \<lparr>width = w, height = h, pixel_format = fmt, byte_len = len, base_present = base, layout_verified = layout\<rparr>"

definition is_direct_complete :: "FramebufferObservation \<Rightarrow> bool" where
  "is_direct_complete fb =
     (width fb \<noteq> 0 \<and> height fb \<noteq> 0 \<and> byte_len fb \<noteq> 0 \<and> base_present fb \<and> layout_verified fb \<and>
      is_direct_framebuffer (pixel_format fb))"

record BootObservations =
  uefi_system_table_present :: bool
  con_out_present :: bool
  boot_services_present :: bool
  gop_located :: bool
  framebuffer :: FramebufferObservation
  secure_boot :: SecureBootState
  loader_path :: LoaderPathClass

definition EMPTY :: BootObservations where
  "EMPTY = \<lparr>uefi_system_table_present = False, con_out_present = False, boot_services_present = False,
            gop_located = False, framebuffer = ABSENT, secure_boot = SecureBootState.Unknown,
            loader_path = LoaderPathClass.Unknown\<rparr>"

definition has_direct_framebuffer :: "BootObservations \<Rightarrow> bool" where
  "has_direct_framebuffer obs = (gop_located obs \<and> is_direct_complete (framebuffer obs))"

section \<open>Stages\<close>

datatype BootStage =
  NoUefi | UefiTable | UefiConsole | BootServices | GraphicsOutput | Framebuffer | MetalCandidate | MetalReady | PolicyGuarded

fun stage_wire :: "BootStage \<Rightarrow> string" where
  "stage_wire NoUefi = ''no-uefi''"
| "stage_wire UefiTable = ''uefi-table''"
| "stage_wire UefiConsole = ''uefi-console''"
| "stage_wire BootServices = ''boot-services''"
| "stage_wire GraphicsOutput = ''graphics-output''"
| "stage_wire Framebuffer = ''framebuffer''"
| "stage_wire MetalCandidate = ''metal-candidate''"
| "stage_wire MetalReady = ''pre-driver-ready''"
| "stage_wire PolicyGuarded = ''policy-guarded''"

definition classify_boot_stage :: "BootObservations \<Rightarrow> BootStage" where
  "classify_boot_stage obs =
     (if \<not> uefi_system_table_present obs then NoUefi
      else if has_direct_framebuffer obs then
        (case (loader_path obs, secure_boot obs) of
           (FirmwareEfi, Disabled) \<Rightarrow> MetalReady
         | (FirmwareEfi, SecureBootState.Unknown) \<Rightarrow> MetalCandidate
         | (WindowsBootManager, _) \<Rightarrow> PolicyGuarded
         | (_, Enabled) \<Rightarrow> PolicyGuarded
         | (LoaderPathClass.Unknown, _) \<Rightarrow> Framebuffer)
      else if gop_located obs then GraphicsOutput
      else if boot_services_present obs then BootServices
      else if con_out_present obs then UefiConsole
      else UefiTable)"

section \<open>The status-line writer\<close>

record StatusLineWriter =
  buffer :: "bytes option"
  required :: usize
  written :: nat

definition count_only :: StatusLineWriter where
  "count_only = \<lparr>buffer = None, required = 0, written = 0\<rparr>"

definition with_buffer :: "bytes \<Rightarrow> StatusLineWriter" where
  "with_buffer b = \<lparr>buffer = Some b, required = 0, written = 0\<rparr>"

datatype RenderError = BufferTooSmall (required_len: usize)

definition writer_finish :: "StatusLineWriter \<Rightarrow> (usize, RenderError) result" where
  "writer_finish w =
     (if required w > word_of_nat (written w) then Err (BufferTooSmall (required w)) else Ok (required w))"

definition min_usize :: "nat \<Rightarrow> nat \<Rightarrow> nat" where
  "min_usize left right = (if left < right then left else right)"

definition push_bytes :: "bytes \<Rightarrow> StatusLineWriter \<Rightarrow> StatusLineWriter" where
  "push_bytes v w =
     (let w = w\<lparr>required := saturating_add (required w) (word_of_nat (length v))\<rparr>
      in case buffer w of
           None \<Rightarrow> w
         | Some b \<Rightarrow>
             let available = length b - written w;
                 to_copy = min_usize available (length v)
             in if to_copy \<noteq> 0 then
                  let e = written w + to_copy;
                      b = copy_at (written w) (take to_copy v) b
                  in w\<lparr>buffer := Some b, written := e\<rparr>
                else w)"

definition push_str :: "string \<Rightarrow> StatusLineWriter \<Rightarrow> StatusLineWriter" where
  "push_str s w = push_bytes (as_bytes s) w"

definition push_byte :: "char \<Rightarrow> StatusLineWriter \<Rightarrow> StatusLineWriter" where
  "push_byte c w = push_bytes (as_bytes [c]) w"

definition push_bool :: "bool \<Rightarrow> StatusLineWriter \<Rightarrow> StatusLineWriter" where
  "push_bool v w = push_byte (if v then CHR ''1'' else CHR ''0'') w"

text \<open>The conversion never panics: \<open>push_u32_eq\<close> and \<open>push_usize_eq\<close> below show that its result is \<open>Some\<close>.\<close>

definition push_decimal :: "'a Decimal \<Rightarrow> 'a \<Rightarrow> StatusLineWriter \<Rightarrow> StatusLineWriter" where
  "push_decimal D n w = push_bytes (the (decimal_bytes D 39 n)) w"

definition push_u32 :: "u32 \<Rightarrow> StatusLineWriter \<Rightarrow> StatusLineWriter" where
  "push_u32 v w = push_decimal Decimal_u32 v w"

definition push_usize :: "usize \<Rightarrow> StatusLineWriter \<Rightarrow> StatusLineWriter" where
  "push_usize v w = push_decimal Decimal_usize v w"

definition render_status_line_inner :: "BootObservations \<Rightarrow> StatusLineWriter \<Rightarrow> StatusLineWriter" where
  "render_status_line_inner obs w =
     (let w = push_str ''ASOBTDIAG|format=hbpish|evidence=MEASURED_BOOT|source=uefi|seat=unknown|receipt=unsealed|tuple=boot:diag:early|stage='' w;
          w = push_str (stage_wire (classify_boot_stage obs)) w;
          w = push_str ''|uefi='' w;
          w = push_bool (uefi_system_table_present obs) w;
          w = push_str ''|conout='' w;
          w = push_bool (con_out_present obs) w;
          w = push_str ''|bs='' w;
          w = push_bool (boot_services_present obs) w;
          w = push_str ''|gop='' w;
          w = push_bool (gop_located obs) w;
          w = push_str ''|fb='' w;
          w = push_u32 (width (framebuffer obs)) w;
          w = push_byte CHR ''x'' w;
          w = push_u32 (height (framebuffer obs)) w;
          w = push_byte CHR ''/'' w;
          w = push_str (pixel_wire (pixel_format (framebuffer obs))) w;
          w = push_byte CHR ''/'' w;
          w = push_usize (byte_len (framebuffer obs)) w;
          w = push_str ''|fbbase='' w;
          w = push_bool (base_present (framebuffer obs)) w;
          w = push_str ''|fblayout='' w;
          w = push_bool (layout_verified (framebuffer obs)) w;
          w = push_str ''|sb='' w;
          w = push_str (secure_wire (secure_boot obs)) w;
          w = push_str ''|loader='' w;
          w = push_str (loader_wire (loader_path obs)) w
      in w)"

definition status_line_len :: "BootObservations \<Rightarrow> usize" where
  "status_line_len obs = required (render_status_line_inner obs count_only)"

definition render_status_line :: "BootObservations \<Rightarrow> bytes \<Rightarrow> (usize, RenderError) result \<times> bytes" where
  "render_status_line obs out =
     (let w = render_status_line_inner obs (with_buffer out)
      in (writer_finish w, case buffer w of Some b \<Rightarrow> b | None \<Rightarrow> out))"

section \<open>The writer keeps the contract\<close>

interpretation status: bounded_writer push_bytes buffer required written
proof
  fix v w
  show "required (push_bytes v w) = saturating_add (required w) (word_of_nat (length v))"
    by (simp add: push_bytes_def Let_def split: option.split)
next
  fix w :: StatusLineWriter and b v :: bytes
  assume "buffer w = Some b" "written w \<le> length b"
  moreover have "take (min (length b - written w) (length v)) v = take (length b - written w) v" by (simp add: min_def)
  moreover have "copy_at (written w) [] b = b" by (simp add: copy_at_def)
  ultimately show "buffer (push_bytes v w) = Some (copy_at (written w) (take (length b - written w) v) b) \<and>
      written (push_bytes v w) = written w + min (length b - written w) (length v)"
    by (auto simp: push_bytes_def Let_def min_usize_def min_def)
next
  fix w :: StatusLineWriter and v :: bytes
  assume "buffer w = None"
  then show "buffer (push_bytes v w) = None \<and> written (push_bytes v w) = written w"
    by (simp add: push_bytes_def)
qed

text \<open>The text of the line, as a specification.\<close>

definition status_text :: "BootObservations \<Rightarrow> string" where
  "status_text obs =
     ''ASOBTDIAG|format=hbpish|evidence=MEASURED_BOOT|source=uefi|seat=unknown|receipt=unsealed|tuple=boot:diag:early|stage='' @
     stage_wire (classify_boot_stage obs) @
     concat (map (\<lambda>(k, v). ''|'' @ k @ ''='' @ (if v then ''1'' else ''0''))
       [(''uefi'', uefi_system_table_present obs), (''conout'', con_out_present obs),
        (''bs'', boot_services_present obs), (''gop'', gop_located obs)]) @
     ''|fb='' @ decimal (unat (width (framebuffer obs))) @ ''x'' @ decimal (unat (height (framebuffer obs))) @ ''/'' @
     pixel_wire (pixel_format (framebuffer obs)) @ ''/'' @ decimal (unat (byte_len (framebuffer obs))) @
     concat (map (\<lambda>(k, v). ''|'' @ k @ ''='' @ (if v then ''1'' else ''0''))
       [(''fbbase'', base_present (framebuffer obs)), (''fblayout'', layout_verified (framebuffer obs))]) @
     ''|sb='' @ secure_wire (secure_boot obs) @ ''|loader='' @ loader_wire (loader_path obs)"

definition status_chunks :: "BootObservations \<Rightarrow> string list" where
  "status_chunks obs =
     [''ASOBTDIAG|format=hbpish|evidence=MEASURED_BOOT|source=uefi|seat=unknown|receipt=unsealed|tuple=boot:diag:early|stage='',
      stage_wire (classify_boot_stage obs), ''|uefi='', [if uefi_system_table_present obs then CHR ''1'' else CHR ''0''],
      ''|conout='', [if con_out_present obs then CHR ''1'' else CHR ''0''],
      ''|bs='', [if boot_services_present obs then CHR ''1'' else CHR ''0''],
      ''|gop='', [if gop_located obs then CHR ''1'' else CHR ''0''],
      ''|fb='', decimal (unat (width (framebuffer obs))), ''x'', decimal (unat (height (framebuffer obs))), ''/'',
      pixel_wire (pixel_format (framebuffer obs)), ''/'', decimal (unat (byte_len (framebuffer obs))),
      ''|fbbase='', [if base_present (framebuffer obs) then CHR ''1'' else CHR ''0''],
      ''|fblayout='', [if layout_verified (framebuffer obs) then CHR ''1'' else CHR ''0''],
      ''|sb='', secure_wire (secure_boot obs), ''|loader='', loader_wire (loader_path obs)]"

lemma decimal_bytes_u32: "decimal_bytes Decimal_u32 39 v = Some (as_bytes (decimal (unat v)))"
  using length_decimal_u64 [of "unat v"] unsigned_less [of v, where ?'a = nat] by (intro dec_u32.bytes_eq) simp

lemma decimal_bytes_usize: "decimal_bytes Decimal_usize 39 v = Some (as_bytes (decimal (unat v)))"
  using length_decimal_u64 [of "unat v"] unsigned_less [of v, where ?'a = nat] by (intro dec_usize.bytes_eq) simp

lemma push_u32_eq: "push_u32 v w = push_bytes (as_bytes (decimal (unat v))) w"
  by (simp add: push_u32_def push_decimal_def decimal_bytes_u32)

lemma push_usize_eq: "push_usize v w = push_bytes (as_bytes (decimal (unat v))) w"
  by (simp add: push_usize_def push_decimal_def decimal_bytes_usize)

lemma render_chunks: "render_status_line_inner obs w = fold push_bytes (map as_bytes (status_chunks obs)) w"
  by (simp only: render_status_line_inner_def status_chunks_def push_str_def push_bool_def push_byte_def push_u32_eq
      push_usize_eq Let_def list.map fold_simps)

lemma chunks_text: "concat (map as_bytes (status_chunks obs)) = as_bytes (status_text obs)"
proof -
  have "concat (status_chunks obs) = status_text obs"
    by (simp add: status_chunks_def status_text_def)
  then show ?thesis by (simp only: concat_as_bytes)
qed

lemma stage_wire_length: "length (stage_wire st) \<le> 16"
  by (cases st) simp_all

lemma pixel_wire_length: "length (pixel_wire p) \<le> 8"
  by (cases p) simp_all

lemma secure_wire_length: "length (secure_wire sb) \<le> 8"
  by (cases sb) simp_all

lemma loader_wire_length: "length (loader_wire l) \<le> 15"
  by (cases l) simp_all

lemma status_text_fits: "length (status_text obs) \<le> 384"
proof -
  have d: "length (decimal (unat (v :: u32))) \<le> 20" "length (decimal (unat (u :: usize))) \<le> 20" for v u
    using length_decimal_u64 [of "unat v"] length_decimal_u64 [of "unat u"]
      unsigned_less [of v, where ?'a = nat] unsigned_less [of u, where ?'a = nat] by simp_all
  show ?thesis
    using stage_wire_length [of "classify_boot_stage obs"] pixel_wire_length [of "pixel_format (framebuffer obs)"]
      secure_wire_length [of "secure_boot obs"] loader_wire_length [of "loader_path obs"]
      d(1) [of "width (framebuffer obs)"] d(1) [of "height (framebuffer obs)"] d(2) [of "byte_len (framebuffer obs)"]
    by (simp add: status_text_def)
qed

lemma status_text_short: "length (status_text obs) < 2 ^ 64"
  using status_text_fits [of obs] by simp

lemma render_wrote: "status.wrote out (as_bytes (status_text obs)) (render_status_line_inner obs (with_buffer out))"
proof -
  have "status.wrote out [] (with_buffer out)" by (simp add: status.wrote_def with_buffer_def)
  from status.wrote_pushes [OF this, of "map as_bytes (status_chunks obs)"] status_text_short [of obs] show ?thesis
    by (simp only: render_chunks chunks_text append_Nil) simp
qed

lemma status_line_len_eq: "status_line_len obs = word_of_nat (length (status_text obs))"
proof -
  have "status.counted [] count_only" by (simp add: status.counted_def count_only_def)
  from status.counted_pushes [OF this, of "map as_bytes (status_chunks obs)"] status_text_short [of obs] show ?thesis
    by (simp only: render_chunks chunks_text append_Nil status_line_len_def) (simp add: status.counted_def)
qed

lemma render_status_line_eq:
  assumes "length out < 2 ^ 64"
  shows "render_status_line obs out =
      (if length (status_text obs) \<le> length out then Ok (status_line_len obs)
       else Err (BufferTooSmall (status_line_len obs)),
       take (length out) (as_bytes (status_text obs)) @ drop (length (status_text obs)) out)"
  using status.wrote_short [OF render_wrote [of out obs]] assms status_text_short [of obs] render_wrote [of out obs]
  by (auto simp: render_status_line_def writer_finish_def status_line_len_eq status.wrote_def)

section \<open>Properties\<close>

text \<open>the status line. \<open>status_line_len\<close> is exactly the length of the documented line; rendering into a buffer
  that is long enough returns that length, writes the line and leaves the rest of the buffer, and
  rendering into a shorter one reports the length needed and writes the prefix that fits, never past
  the end.\<close>

theorem status_line_rendered:
  assumes "length out < 2 ^ 64"
  shows "status_line_len obs = word_of_nat (length (status_text obs)) \<and>
    render_status_line obs out =
      (if length (status_text obs) \<le> length out then Ok (status_line_len obs)
       else Err (BufferTooSmall (status_line_len obs)),
       take (length out) (as_bytes (status_text obs)) @ drop (length (status_text obs)) out)"
  using render_status_line_eq [OF assms] by (simp add: status_line_len_eq)

theorem status_line_rendered_witness:
  "fst (render_status_line EMPTY [0, 0]) = Err (BufferTooSmall (status_line_len EMPTY))"
  using status_line_rendered [of "[0, 0]" EMPTY] by (simp add: status_text_def)

text \<open>the stages. A machine is classified ready exactly when UEFI, the graphics protocol and a complete direct
  framebuffer were observed, the loader came straight from the firmware and Secure Boot is disabled; it
  is a candidate when only the Secure Boot policy is unknown; and with a direct framebuffer a Windows
  chainload or an enabled policy is always reported as guarded.\<close>

theorem boot_stage_ready:
  "(classify_boot_stage obs = MetalReady \<longleftrightarrow>
      uefi_system_table_present obs \<and> has_direct_framebuffer obs \<and> loader_path obs = FirmwareEfi \<and> secure_boot obs = Disabled) \<and>
   (classify_boot_stage obs = MetalCandidate \<longleftrightarrow>
      uefi_system_table_present obs \<and> has_direct_framebuffer obs \<and> loader_path obs = FirmwareEfi \<and>
      secure_boot obs = SecureBootState.Unknown) \<and>
   (classify_boot_stage obs = PolicyGuarded \<longleftrightarrow>
      uefi_system_table_present obs \<and> has_direct_framebuffer obs \<and>
      (loader_path obs = WindowsBootManager \<or> secure_boot obs = Enabled))"
  by (cases "loader_path obs"; cases "secure_boot obs") (simp_all add: classify_boot_stage_def)

end
