(* ===== verification/Boot_Identity.thy ===== *)
theory Boot_Identity
  imports Line_Writer
begin

text \<open>
  The build-time boot identity (\<^verbatim>\<open>kernel/core/src/boot_identity.rs\<close>): the identity row of a seat, the ten-bit
  selector axes derived from it, and the line rendered into a caller's buffer. Its writer is a second
  copy of the one in \<^verbatim>\<open>boot_diag.rs\<close> and keeps the same contract. An index modulo an empty seed panics
  in the code; here the axis is then \<open>None\<close>.
\<close>

section \<open>The identity\<close>

definition AXIS_COUNT :: usize where "AXIS_COUNT = 60"

definition ACER_DEVICE_PID :: string where "ACER_DEVICE_PID = ''ACER-PID-H740C-A07-W104-P00-N00000''"

definition OP_JESSE_PID :: string where "OP_JESSE_PID = ''OP-JESSE-PID-G0000-A00-W000-P00-N00000''"

definition OP_RAYSSA_PID :: string where "OP_RAYSSA_PID = ''OP-RAYSSA-PID-G0000-A00-W000-P00-N00000''"

record BootIdentity =
  bi_seat :: string
  bi_device_pid :: string
  bi_operator_pid :: string
  bi_co_operator_pid :: string
  bi_room_pid :: string
  bi_glyph :: string
  bi_cohort :: string
  bi_hilbert :: u32
  bi_tuple_dim :: usize
  bi_date :: string
  bi_location :: string

definition ACER_FABLE5_BOOT_IDENTITY :: BootIdentity where
  "ACER_FABLE5_BOOT_IDENTITY =
     \<lparr>bi_seat = ''ACER-CLAUDE-FABLE5'', bi_device_pid = ACER_DEVICE_PID, bi_operator_pid = OP_JESSE_PID,
      bi_co_operator_pid = OP_RAYSSA_PID, bi_room_pid = ''8467a937cba309f7'', bi_glyph = ''BH1024:SEAT-FABLE5'',
      bi_cohort = ''H740C'', bi_hilbert = 1720, bi_tuple_dim = AXIS_COUNT, bi_date = ''2026-07-09'',
      bi_location = ''SEC-FABLE5-1720''\<rparr>"

definition identity_seed :: "BootIdentity \<Rightarrow> bytes" where
  "identity_seed bi = (if bi_device_pid bi = [] then as_bytes (bi_seat bi) else as_bytes (bi_device_pid bi))"

definition selector_axis_u10 :: "BootIdentity \<Rightarrow> usize \<Rightarrow> u16 option" where
  "selector_axis_u10 bi index =
     (let seed = identity_seed bi
      in if seed = [] then None
         else
           let a = ucast (seed ! (unat index mod length seed)) :: u16;
               b = ucast (seed ! (unat (index * 7 + 3) mod length seed)) :: u16;
               c = ucast (seed ! (unat (index * 13 + 11) mod length seed)) :: u16
           in Some (and (a * 31 + b * 17 + c * 7 + ucast index * 19) 0x03ff))"

section \<open>The identity-line writer\<close>

record IdentityLineWriter =
  iw_buffer :: "bytes option"
  iw_required :: usize
  iw_written :: nat

definition identity_count_only :: IdentityLineWriter where
  "identity_count_only = \<lparr>iw_buffer = None, iw_required = 0, iw_written = 0\<rparr>"

definition identity_with_buffer :: "bytes \<Rightarrow> IdentityLineWriter" where
  "identity_with_buffer b = \<lparr>iw_buffer = Some b, iw_required = 0, iw_written = 0\<rparr>"

datatype IdentityRenderError = IdentityBufferTooSmall usize

definition identity_finish :: "IdentityLineWriter \<Rightarrow> (usize, IdentityRenderError) result" where
  "identity_finish w =
     (if iw_required w > word_of_nat (iw_written w) then Err (IdentityBufferTooSmall (iw_required w))
      else Ok (iw_required w))"

definition identity_min_usize :: "nat \<Rightarrow> nat \<Rightarrow> nat" where
  "identity_min_usize left right = (if left < right then left else right)"

definition identity_push_bytes :: "bytes \<Rightarrow> IdentityLineWriter \<Rightarrow> IdentityLineWriter" where
  "identity_push_bytes v w =
     (let w = w\<lparr>iw_required := saturating_add (iw_required w) (word_of_nat (length v))\<rparr>
      in case iw_buffer w of
           None \<Rightarrow> w
         | Some b \<Rightarrow>
             let available = length b - iw_written w;
                 to_copy = identity_min_usize available (length v)
             in if to_copy \<noteq> 0 then
                  let e = iw_written w + to_copy;
                      b = copy_at (iw_written w) (take to_copy v) b
                  in w\<lparr>iw_buffer := Some b, iw_written := e\<rparr>
                else w)"

definition identity_push_str :: "string \<Rightarrow> IdentityLineWriter \<Rightarrow> IdentityLineWriter" where
  "identity_push_str s w = identity_push_bytes (as_bytes s) w"

definition identity_push_byte :: "char \<Rightarrow> IdentityLineWriter \<Rightarrow> IdentityLineWriter" where
  "identity_push_byte c w = identity_push_bytes (as_bytes [c]) w"

definition identity_push_decimal :: "usize \<Rightarrow> IdentityLineWriter \<Rightarrow> IdentityLineWriter" where
  "identity_push_decimal n w = identity_push_bytes (the (decimal_bytes Decimal_usize 20 n)) w"

definition identity_push_u16 :: "u16 \<Rightarrow> IdentityLineWriter \<Rightarrow> IdentityLineWriter" where
  "identity_push_u16 v w = identity_push_decimal (ucast v) w"

definition identity_push_u32 :: "u32 \<Rightarrow> IdentityLineWriter \<Rightarrow> IdentityLineWriter" where
  "identity_push_u32 v w = identity_push_decimal (ucast v) w"

definition identity_push_usize :: "usize \<Rightarrow> IdentityLineWriter \<Rightarrow> IdentityLineWriter" where
  "identity_push_usize v w = identity_push_decimal v w"

lemma unat_succ:
  assumes "i < (d :: usize)"
  shows "unat (i + 1) = Suc (unat i)"
proof -
  have "unat i + 1 < 2 ^ LENGTH(64)" using assms unsigned_less [of d, where ?'a = nat] by (simp add: word_less_nat_alt)
  then show ?thesis by (simp add: unat_word_ariths)
qed

function axes_loop :: "BootIdentity \<Rightarrow> usize \<Rightarrow> IdentityLineWriter \<Rightarrow> IdentityLineWriter option" where
  "axes_loop bi i w =
     (if i < bi_tuple_dim bi then
        let w = (if i \<noteq> 0 then identity_push_byte CHR '','' w else w)
        in case selector_axis_u10 bi i of
             None \<Rightarrow> None
           | Some axis \<Rightarrow> axes_loop bi (i + 1) (identity_push_u16 axis w)
      else Some w)"
  by pat_completeness auto
termination
  by (relation "measure (\<lambda>(bi, i, w). unat (bi_tuple_dim bi) - unat i)")
    (auto simp: word_less_nat_alt unat_succ)

declare axes_loop.simps [simp del]

definition render_boot_identity_line_inner :: "BootIdentity \<Rightarrow> IdentityLineWriter \<Rightarrow> IdentityLineWriter option" where
  "render_boot_identity_line_inner bi w =
     (let w = identity_push_str ''ASOBTID|format=hbpish|evidence=BUILD_TIME_DEVICE_CONTEXT|source=uefi|json=0'' w;
          w = identity_push_str ''|seat='' w;
          w = identity_push_str (bi_seat bi) w;
          w = identity_push_str ''|device_pid='' w;
          w = identity_push_str (bi_device_pid bi) w;
          w = identity_push_str ''|operator_pid='' w;
          w = identity_push_str (bi_operator_pid bi) w;
          w = identity_push_str ''|co_operator_pid='' w;
          w = identity_push_str (bi_co_operator_pid bi) w;
          w = identity_push_str ''|room_pid='' w;
          w = identity_push_str (bi_room_pid bi) w;
          w = identity_push_str ''|glyph='' w;
          w = identity_push_str (bi_glyph bi) w;
          w = identity_push_str ''|cohort='' w;
          w = identity_push_str (bi_cohort bi) w;
          w = identity_push_str ''|hilbert='' w;
          w = identity_push_u32 (bi_hilbert bi) w;
          w = identity_push_str ''|tuple_dim='' w;
          w = identity_push_usize (bi_tuple_dim bi) w;
          w = identity_push_str ''|date='' w;
          w = identity_push_str (bi_date bi) w;
          w = identity_push_str ''|location='' w;
          w = identity_push_str (bi_location bi) w;
          w = identity_push_str ''|axes='' w
      in axes_loop bi 0 w)"

definition boot_identity_line_len :: "BootIdentity \<Rightarrow> usize option" where
  "boot_identity_line_len bi =
     (case render_boot_identity_line_inner bi identity_count_only of
        None \<Rightarrow> None
      | Some w \<Rightarrow> Some (iw_required w))"

definition render_boot_identity_line ::
    "BootIdentity \<Rightarrow> bytes \<Rightarrow> ((usize, IdentityRenderError) result \<times> bytes) option" where
  "render_boot_identity_line bi out =
     (case render_boot_identity_line_inner bi (identity_with_buffer out) of
        None \<Rightarrow> None
      | Some w \<Rightarrow> Some (identity_finish w, case iw_buffer w of Some b \<Rightarrow> b | None \<Rightarrow> out))"

section \<open>The writer keeps the contract\<close>

interpretation identity: bounded_writer identity_push_bytes iw_buffer iw_required iw_written
proof
  fix v w
  show "iw_required (identity_push_bytes v w) = saturating_add (iw_required w) (word_of_nat (length v))"
    by (simp add: identity_push_bytes_def Let_def split: option.split)
next
  fix w :: IdentityLineWriter and b v :: bytes
  assume "iw_buffer w = Some b" "iw_written w \<le> length b"
  moreover have "take (min (length b - iw_written w) (length v)) v = take (length b - iw_written w) v"
    by (simp add: min_def)
  moreover have "copy_at (iw_written w) [] b = b" by (simp add: copy_at_def)
  ultimately show "iw_buffer (identity_push_bytes v w) = Some (copy_at (iw_written w) (take (length b - iw_written w) v) b) \<and>
      iw_written (identity_push_bytes v w) = iw_written w + min (length b - iw_written w) (length v)"
    by (auto simp: identity_push_bytes_def Let_def identity_min_usize_def min_def)
next
  fix w :: IdentityLineWriter and v :: bytes
  assume "iw_buffer w = None"
  then show "iw_buffer (identity_push_bytes v w) = None \<and> iw_written (identity_push_bytes v w) = iw_written w"
    by (simp add: identity_push_bytes_def)
qed

section \<open>The text of the line\<close>

text \<open>The documented text, as a specification: labelled fields, then the axes separated by commas.\<close>

definition axis_of :: "BootIdentity \<Rightarrow> nat \<Rightarrow> nat" where
  "axis_of bi j = (case selector_axis_u10 bi (word_of_nat j) of Some a \<Rightarrow> unat a | None \<Rightarrow> 0)"

definition axis_chunks :: "BootIdentity \<Rightarrow> nat \<Rightarrow> nat \<Rightarrow> string list" where
  "axis_chunks bi i n = concat (map (\<lambda>j. (if j = 0 then [] else ['','']) @ [decimal (axis_of bi j)]) [i..<n])"

definition identity_text :: "BootIdentity \<Rightarrow> string" where
  "identity_text bi =
     ''ASOBTID|format=hbpish|evidence=BUILD_TIME_DEVICE_CONTEXT|source=uefi|json=0'' @
     concat (map (\<lambda>(k, v). ''|'' @ k @ ''='' @ v)
       [(''seat'', bi_seat bi), (''device_pid'', bi_device_pid bi), (''operator_pid'', bi_operator_pid bi),
        (''co_operator_pid'', bi_co_operator_pid bi), (''room_pid'', bi_room_pid bi), (''glyph'', bi_glyph bi),
        (''cohort'', bi_cohort bi), (''hilbert'', decimal (unat (bi_hilbert bi))),
        (''tuple_dim'', decimal (unat (bi_tuple_dim bi))), (''date'', bi_date bi), (''location'', bi_location bi),
        (''axes'', concat (axis_chunks bi 0 (unat (bi_tuple_dim bi))))])"

definition identity_chunks :: "BootIdentity \<Rightarrow> string list" where
  "identity_chunks bi =
     [''ASOBTID|format=hbpish|evidence=BUILD_TIME_DEVICE_CONTEXT|source=uefi|json=0'',
      ''|seat='', bi_seat bi, ''|device_pid='', bi_device_pid bi, ''|operator_pid='', bi_operator_pid bi,
      ''|co_operator_pid='', bi_co_operator_pid bi, ''|room_pid='', bi_room_pid bi, ''|glyph='', bi_glyph bi,
      ''|cohort='', bi_cohort bi, ''|hilbert='', decimal (unat (bi_hilbert bi)), ''|tuple_dim='',
      decimal (unat (bi_tuple_dim bi)), ''|date='', bi_date bi, ''|location='', bi_location bi, ''|axes='']"

section \<open>Lemmas\<close>

lemma identity_push_decimal_eq: "identity_push_decimal n w = identity_push_bytes (as_bytes (decimal (unat n))) w"
proof -
  have "decimal_bytes Decimal_usize 20 n = Some (as_bytes (decimal (unat n)))"
    using length_decimal_u64 [of "unat n"] unsigned_less [of n, where ?'a = nat] by (intro dec_usize.bytes_eq) simp
  then show ?thesis by (simp add: identity_push_decimal_def)
qed

lemma identity_push_narrow:
  "identity_push_u16 a w = identity_push_bytes (as_bytes (decimal (unat a))) w"
  "identity_push_u32 b w = identity_push_bytes (as_bytes (decimal (unat b))) w"
  "identity_push_usize n w = identity_push_bytes (as_bytes (decimal (unat n))) w"
  by (simp_all add: identity_push_u16_def identity_push_u32_def identity_push_usize_def identity_push_decimal_eq
      unsigned_ucast_eq take_bit_nat_eq_self unsigned_less [THEN less_le_trans])

lemma selector_axis_bounded:
  assumes "selector_axis_u10 bi i = Some a"
  shows "a < 1024"
proof -
  obtain x :: u16 where "a = and x 0x3ff" using assms by (auto simp: selector_axis_u10_def Let_def split: if_splits)
  also have "\<dots> \<le> 0x3ff" by (rule word_and_le1)
  finally show ?thesis by (simp add: word_le_nat_alt word_less_nat_alt)
qed

lemma selector_axis_defined: "identity_seed bi \<noteq> [] \<Longrightarrow> \<exists>a. selector_axis_u10 bi i = Some a"
  by (simp add: selector_axis_u10_def Let_def)

lemma axis_of_Some: "selector_axis_u10 bi i = Some a \<Longrightarrow> axis_of bi (unat i) = unat a"
  by (simp add: axis_of_def)

lemma axes_loop_chunks:
  "identity_seed bi \<noteq> [] \<Longrightarrow> axes_loop bi i w =
    Some (fold identity_push_bytes (map as_bytes (axis_chunks bi (unat i) (unat (bi_tuple_dim bi)))) w)"
proof (induction bi i w rule: axes_loop.induct)
  case (1 bi i w)
  show ?case
  proof (cases "i < bi_tuple_dim bi")
    case True
    obtain a where a: "selector_axis_u10 bi i = Some a" using selector_axis_defined [OF "1.prems"] by blast
    have "[unat i..<unat (bi_tuple_dim bi)] = unat i # [Suc (unat i)..<unat (bi_tuple_dim bi)]"
      using True by (simp add: word_less_nat_alt upt_conv_Cons)
    then have "axis_chunks bi (unat i) (unat (bi_tuple_dim bi)) =
        (if i = 0 then [] else ['','']) @ decimal (unat a) # axis_chunks bi (unat (i + 1)) (unat (bi_tuple_dim bi))"
      by (simp add: axis_chunks_def unat_succ [OF True] axis_of_Some [OF a] unat_eq_0)
    then show ?thesis using 1 True a
      by (simp add: axes_loop.simps [of bi i] identity_push_byte_def identity_push_narrow Let_def)
  next
    case False
    then show ?thesis by (simp add: axes_loop.simps [of bi i] axis_chunks_def word_less_nat_alt)
  qed
qed

lemma identity_render_chunks:
  assumes "identity_seed bi \<noteq> []"
  shows "render_boot_identity_line_inner bi w =
    Some (fold identity_push_bytes (map as_bytes (identity_chunks bi @ axis_chunks bi 0 (unat (bi_tuple_dim bi)))) w)"
  by (simp add: render_boot_identity_line_inner_def identity_chunks_def axes_loop_chunks [OF assms] identity_push_str_def
      identity_push_narrow Let_def)

lemma identity_chunks_text:
  "concat (map as_bytes (identity_chunks bi @ axis_chunks bi 0 (unat (bi_tuple_dim bi)))) = as_bytes (identity_text bi)"
proof -
  have "concat (identity_chunks bi @ axis_chunks bi 0 (unat (bi_tuple_dim bi))) = identity_text bi"
    by (simp add: identity_chunks_def identity_text_def)
  then show ?thesis by (simp only: concat_as_bytes)
qed

section \<open>Properties\<close>

text \<open>the identity line. For a seat whose device PID or name is not empty and whose line fits a \<open>usize\<close>, nothing
  panics, the announced length is the length of the documented line, and rendering writes the line or
  the prefix that fits; every selector axis on it is below 1024. With both names empty and at least
  one axis to print, the code divides by zero and panics.\<close>

theorem identity_line_rendered:
  assumes "length (identity_text bi) < 2 ^ 64" and "length out < 2 ^ 64"
  shows "(identity_seed bi \<noteq> [] \<longrightarrow>
      boot_identity_line_len bi = Some (word_of_nat (length (identity_text bi))) \<and>
      render_boot_identity_line bi out =
        Some (if length (identity_text bi) \<le> length out then Ok (word_of_nat (length (identity_text bi)))
              else Err (IdentityBufferTooSmall (word_of_nat (length (identity_text bi)))),
              take (length out) (as_bytes (identity_text bi)) @ drop (length (identity_text bi)) out) \<and>
      (\<forall>i. \<exists>a < 1024. selector_axis_u10 bi i = Some a)) \<and>
    (identity_seed bi = [] \<and> bi_tuple_dim bi \<noteq> 0 \<longrightarrow> render_boot_identity_line bi out = None)"
proof (cases "identity_seed bi = []")
  case True
  have "axes_loop bi 0 w = None" if "bi_tuple_dim bi \<noteq> 0" for w
    using that True by (simp add: axes_loop.simps [of bi 0] selector_axis_u10_def word_neq_0_conv)
  then show ?thesis using True
    by (simp add: render_boot_identity_line_def render_boot_identity_line_inner_def Let_def)
next
  case False
  let ?vs = "map as_bytes (identity_chunks bi @ axis_chunks bi 0 (unat (bi_tuple_dim bi)))"
  let ?t = "as_bytes (identity_text bi)"
  have short: "length ([] :: bytes) + length (concat ?vs) < 2 ^ 64" using assms(1) by (simp only: identity_chunks_text) simp
  have "identity.wrote out [] (identity_with_buffer out)" by (simp add: identity.wrote_def identity_with_buffer_def)
  from identity.wrote_pushes [OF this short]
  have w: "identity.wrote out ?t (fold identity_push_bytes ?vs (identity_with_buffer out))" (is "identity.wrote _ _ ?w")
    by (simp only: identity_chunks_text append_Nil)
  have "identity.counted [] identity_count_only" by (simp add: identity.counted_def identity_count_only_def)
  from identity.counted_pushes [OF this short]
  have len: "boot_identity_line_len bi = Some (word_of_nat (length (identity_text bi)))"
    by (simp only: boot_identity_line_len_def identity_render_chunks [OF False] identity_chunks_text append_Nil
        identity.counted_def length_as_bytes option.case)
  have "iw_required ?w > word_of_nat (iw_written ?w) \<longleftrightarrow> length out < length (identity_text bi)"
    using identity.wrote_short [OF w] assms by simp
  then have "identity_finish ?w = (if length (identity_text bi) \<le> length out then Ok (word_of_nat (length (identity_text bi)))
      else Err (IdentityBufferTooSmall (word_of_nat (length (identity_text bi)))))"
    using w by (auto simp: identity_finish_def identity.wrote_def)
  moreover have "iw_buffer ?w = Some (take (length out) ?t @ drop (length (identity_text bi)) out)"
    using w by (simp add: identity.wrote_def)
  ultimately have "render_boot_identity_line bi out =
      Some (if length (identity_text bi) \<le> length out then Ok (word_of_nat (length (identity_text bi)))
            else Err (IdentityBufferTooSmall (word_of_nat (length (identity_text bi)))),
            take (length out) ?t @ drop (length (identity_text bi)) out)"
    by (simp only: render_boot_identity_line_def identity_render_chunks [OF False] option.case)
  then show ?thesis using len False selector_axis_defined [OF False] selector_axis_bounded by metis
qed

text \<open>The line of the shipped seat fits: each of its sixty axes prints as at most twenty digits and a comma.\<close>

lemma axis_of_bounded: "axis_of bi j < 1024"
proof (cases "selector_axis_u10 bi (word_of_nat j)")
  case (Some a)
  then show ?thesis using selector_axis_bounded [OF Some] by (simp add: axis_of_def word_less_nat_alt)
qed (simp add: axis_of_def)

lemma axis_chunks_length: "length (concat (axis_chunks bi i n)) \<le> 21 * (n - i)"
proof (induction n)
  case (Suc n)
  have "length (decimal (axis_of bi n)) \<le> 20"
    using axis_of_bounded [of bi n] by (intro length_decimal_u64) simp
  then show ?case using Suc by (cases "i \<le> n") (auto simp: axis_chunks_def Suc_diff_le)
qed (simp add: axis_chunks_def)

lemma acer_short: "length (identity_text ACER_FABLE5_BOOT_IDENTITY) < 2 ^ 64"
  using axis_chunks_length [of ACER_FABLE5_BOOT_IDENTITY 0 60] length_decimal_u64 [of 1720] length_decimal_u64 [of 60]
  by (simp add: identity_text_def ACER_FABLE5_BOOT_IDENTITY_def ACER_DEVICE_PID_def OP_JESSE_PID_def OP_RAYSSA_PID_def
      AXIS_COUNT_def)

lemma acer_seed: "identity_seed ACER_FABLE5_BOOT_IDENTITY \<noteq> []"
  by (simp add: identity_seed_def ACER_FABLE5_BOOT_IDENTITY_def ACER_DEVICE_PID_def)

theorem identity_line_rendered_witness:
  "\<exists>text r. identity_text ACER_FABLE5_BOOT_IDENTITY = text \<and>
     render_boot_identity_line ACER_FABLE5_BOOT_IDENTITY (replicate 4 0) = Some (r, take 4 (as_bytes text))"
  using identity_line_rendered [of ACER_FABLE5_BOOT_IDENTITY "replicate 4 0"] acer_short acer_seed
  by (simp add: identity_text_def)

end
