(* ===== verification/Boot_Rows.thy ===== *)
theory Boot_Rows
  imports Line_Writer "HOL-Library.Monad_Syntax"
begin

text \<open>
  Rows the boot crate writes byte by byte into a fixed array before it prints them (\<^verbatim>\<open>hwinv.rs\<close>, \<^verbatim>\<open>rtc.rs\<close>): the
  \<open>put_*\<close> functions take the array and the next index and return the index after the text. Indexing
  past the end panics in the code and is \<open>None\<close> here. The relation \<open>prints\<close> is their common contract,
  closed under sequencing, so that a row's text is read off its definition.
\<close>

section \<open>The put functions\<close>

type_synonym row = "bytes \<times> nat"

text \<open>\<open>buf[i] = c; i += 1\<close>.\<close>

fun put_byte :: "u8 \<Rightarrow> row \<Rightarrow> row option" where
  "put_byte c (buf, i) = (if i < length buf then Some (buf[i := c], i + 1) else None)"

definition put_hex8 :: "u8 \<Rightarrow> row \<Rightarrow> row option" where
  "put_hex8 v r = do {
     r \<leftarrow> put_byte (as_bytes HEX ! unat (drop_bit 4 v)) r;
     put_byte (as_bytes HEX ! unat (and v 0x0F)) r
   }"

definition put_hex16 :: "u16 \<Rightarrow> row \<Rightarrow> row option" where
  "put_hex16 v r = do {
     r \<leftarrow> put_hex8 (ucast (drop_bit 8 v)) r;
     put_hex8 (ucast (and v 0xFF)) r
   }"

fun put_bytes :: "bytes \<Rightarrow> row \<Rightarrow> row option" where
  "put_bytes [] r = Some r"
| "put_bytes (c # s) r = do { r \<leftarrow> put_byte c r; put_bytes s r }"

text \<open>The loop \<open>for &byte in bytes { i = put_hex8(&mut row, i, byte); }\<close>.\<close>

fun put_hex_all :: "bytes \<Rightarrow> row \<Rightarrow> row option" where
  "put_hex_all [] r = Some r"
| "put_hex_all (b # bs) r = do { r \<leftarrow> put_hex8 b r; put_hex_all bs r }"

text \<open>Decimal: the digits go into a temporary array, least significant first, and are copied back in
  reverse. The temporary has 10 bytes in \<open>put_u32\<close> and 20 in \<open>put_u64\<close>.\<close>

function digit_fill :: "nat \<Rightarrow> nat \<Rightarrow> bytes \<Rightarrow> (nat \<times> bytes) option" where
  "digit_fill x n tmp =
     (if 0 < x then
        if n < length tmp then digit_fill (x div 10) (n + 1) (tmp[n := 48 + word_of_nat (x mod 10)]) else None
      else Some (n, tmp))"
  by pat_completeness auto
termination by (relation "measure fst") auto

declare digit_fill.simps [simp del]

fun digit_copy :: "bytes \<Rightarrow> nat \<Rightarrow> row \<Rightarrow> row option" where
  "digit_copy tmp 0 r = Some r"
| "digit_copy tmp (Suc n) r = do { r \<leftarrow> put_byte (tmp ! n) r; digit_copy tmp n r }"

definition put_u32 :: "u32 \<Rightarrow> row \<Rightarrow> row option" where
  "put_u32 v r =
     (if v = 0 then put_byte 48 r
      else do { (n, tmp) \<leftarrow> digit_fill (unat v) 0 (replicate 10 0); digit_copy tmp n r })"

definition put_u64 :: "u64 \<Rightarrow> row \<Rightarrow> row option" where
  "put_u64 v r =
     (if v = 0 then put_byte 48 r
      else do { (n, tmp) \<leftarrow> digit_fill (unat v) 0 (replicate 20 0); digit_copy tmp n r })"

text \<open>A writer that is handed the rest of the array, \<open>i += f(&mut row[i..])\<close>, and a whole row printed from a zeroed
  array: \<open>let mut row = [0u8; cap]; ...; serial_print(&row[..i])\<close>.\<close>

definition at_slice :: "(bytes \<Rightarrow> row option) \<Rightarrow> row \<Rightarrow> row option" where
  "at_slice f = (\<lambda>(buf, i).
     if i \<le> length buf then do { (s, n) \<leftarrow> f (drop i buf); Some (take i buf @ s, i + n) } else None)"

definition whole_row :: "nat \<Rightarrow> (row \<Rightarrow> row option) \<Rightarrow> bytes option" where
  "whole_row cap f = do { (buf, i) \<leftarrow> f (replicate cap 0, 0); Some (take i buf) }"

section \<open>The contract\<close>

definition prints :: "(row \<Rightarrow> row option) \<Rightarrow> bytes \<Rightarrow> bool" where
  "prints f t \<longleftrightarrow> (\<forall>buf i. i \<le> length buf \<longrightarrow>
     f (buf, i) = (if i + length t \<le> length buf then Some (copy_at i t buf, i + length t) else None))"

named_theorems prints_intros

lemma copy_at_append:
  "i + length s + length t \<le> length buf \<Longrightarrow> copy_at (i + length s) t (copy_at i s buf) = copy_at i (s @ t) buf"
  by (simp add: copy_at_def ac_simps)

lemma copy_at_nil: "i \<le> length buf \<Longrightarrow> copy_at i [] buf = buf"
  by (simp add: copy_at_def)

lemma prints_Some [prints_intros]: "prints Some []"
  by (simp add: prints_def copy_at_nil)

lemma prints_put_byte [prints_intros]: "prints (put_byte c) [c]"
  by (auto simp: prints_def copy_at_def upd_conv_take_nth_drop)

lemma prints_bind [prints_intros]:
  assumes "prints f s" and "prints g t"
  shows "prints (\<lambda>r. Option.bind (f r) g) (s @ t)"
  unfolding prints_def
proof (intro allI impI)
  fix buf i assume i: "i \<le> length (buf :: bytes)"
  show "Option.bind (f (buf, i)) g =
      (if i + length (s @ t) \<le> length buf then Some (copy_at i (s @ t) buf, i + length (s @ t)) else None)"
  proof (cases "i + length s \<le> length buf")
    case True
    then have "f (buf, i) = Some (copy_at i s buf, i + length s)" using assms(1) i by (simp add: prints_def)
    moreover have "length (copy_at i s buf) = length buf" using True by simp
    ultimately show ?thesis using assms(2) True
      by (simp add: prints_def copy_at_append add.assoc [symmetric])
  qed (use assms(1) i in \<open>simp add: prints_def\<close>)
qed

lemma prints_text: "prints f s \<Longrightarrow> s = t \<Longrightarrow> prints f t"
  by simp

lemma prints_if [prints_intros]: "prints f s \<Longrightarrow> prints g t \<Longrightarrow> prints (if b then f else g) (if b then s else t)"
  by simp

lemma prints_put_bytes [prints_intros]: "prints (put_bytes s) s"
proof (induction s)
  case (Cons c s)
  from prints_bind [OF prints_put_byte [of c] Cons] show ?case by (simp add: prints_def)
qed (simp add: prints_def copy_at_nil)

lemma as_bytes_HEX: "n < 16 \<Longrightarrow> as_bytes HEX ! n = of_char (HEX ! n)"
proof -
  have "length HEX = 16" by (simp add: HEX_def)
  then show "n < 16 \<Longrightarrow> as_bytes HEX ! n = of_char (HEX ! n)" by (simp add: as_bytes_def)
qed

lemma prints_put_hex8 [prints_intros]: "prints (put_hex8 v) (as_bytes (hex_byte v))"
proof -
  have "as_bytes (hex_byte v) = [as_bytes HEX ! unat (drop_bit 4 v)] @ [as_bytes HEX ! unat (and v 0x0F)]"
    by (simp add: as_bytes_HEX nibbles_bound hex_byte_def) (simp add: as_bytes_def)
  then show ?thesis unfolding put_hex8_def using prints_bind [OF prints_put_byte prints_put_byte] by simp
qed

lemma prints_put_hex16 [prints_intros]:
  "prints (put_hex16 v) (as_bytes (hex_byte (ucast (drop_bit 8 v)) @ hex_byte (ucast (and v 0xFF))))"
  unfolding put_hex16_def as_bytes_append by (intro prints_intros)

lemma prints_put_hex_all [prints_intros]: "prints (put_hex_all bs) (as_bytes (hex_bytes bs))"
proof (induction bs)
  case (Cons b bs)
  from prints_bind [OF prints_put_hex8 [of b] Cons] show ?case by (simp add: prints_def hex_bytes_def)
qed (simp add: prints_def copy_at_nil hex_bytes_def as_bytes_def)

lemma digit_fill_decimal:
  "0 < x \<Longrightarrow> n + length (decimal x) \<le> length tmp \<Longrightarrow>
   digit_fill x n tmp = Some (n + length (decimal x), copy_at n (rev (as_bytes (decimal x))) tmp)"
proof (induction x arbitrary: n tmp rule: less_induct)
  case (less x)
  let ?d = "48 + word_of_nat (x mod 10) :: u8"
  have n: "n < length tmp" using less.prems(2) decimal_nonempty(1) [of x] by (cases "decimal x") auto
  have upd: "tmp[n := ?d] = copy_at n [?d] tmp" using n by (simp add: copy_at_def upd_conv_take_nth_drop)
  show ?case
  proof (cases "x < 10")
    case True
    then show ?thesis using less.prems n digit_byte [of x] upd
      by (simp add: digit_fill.simps [of x] digit_fill.simps [of 0] decimal.simps [of x])
  next
    case False
    then have d: "decimal x = decimal (x div 10) @ [digit_char (x mod 10)]" by (simp add: decimal.simps [of x])
    have "digit_fill (x div 10) (n + 1) (tmp[n := ?d]) =
        Some (n + 1 + length (decimal (x div 10)), copy_at (n + 1) (rev (as_bytes (decimal (x div 10)))) (tmp[n := ?d]))"
      using False less.prems(2) by (intro less.IH) (simp_all add: d)
    then show ?thesis using False n less.prems copy_at_append [of n "[?d]" "rev (as_bytes (decimal (x div 10)))" tmp]
      by (simp add: digit_fill.simps [of x] d digit_byte upd)
  qed
qed

lemma prints_digit_copy: "n \<le> length tmp \<Longrightarrow> prints (digit_copy tmp n) (rev (take n tmp))"
proof (induction n)
  case (Suc n)
  from prints_bind [OF prints_put_byte [of "tmp ! n"] Suc.IH] Suc.prems show ?case
    by (simp add: prints_def take_Suc_conv_app_nth)
qed (simp add: prints_def copy_at_nil)

lemma prints_digits:
  assumes "0 < x" and "length (decimal x) \<le> cap"
  shows "prints (\<lambda>r. do { (n, tmp) \<leftarrow> digit_fill x 0 (replicate cap 0); digit_copy tmp n r }) (as_bytes (decimal x))"
proof -
  let ?tmp = "copy_at 0 (rev (as_bytes (decimal x))) (replicate cap 0)"
  have "digit_fill x 0 (replicate cap 0) = Some (length (decimal x), ?tmp)"
    using digit_fill_decimal [OF assms(1), of 0 "replicate cap 0"] assms(2) by simp
  moreover have "rev (take (length (decimal x)) ?tmp) = as_bytes (decimal x)" by (simp add: copy_at_def)
  ultimately show ?thesis using prints_digit_copy [of "length (decimal x)" ?tmp] assms(2) by simp
qed

lemma decimal_zero: "as_bytes (decimal 0) = [48]"
  using digit_byte [of 0] by (simp add: decimal.simps [of 0])

lemma prints_put_u32 [prints_intros]: "prints (put_u32 v) (as_bytes (decimal (unat v)))"
proof (cases "v = 0")
  case False
  moreover have "length (decimal (unat v)) \<le> 10"
    using unsigned_less [of v, where ?'a = nat] by (intro length_decimal) simp_all
  ultimately show ?thesis using prints_digits [of "unat v" 10] by (simp add: put_u32_def [abs_def] unat_gt_0)
qed (simp add: put_u32_def [abs_def] decimal_zero prints_put_byte)

lemma prints_put_u64 [prints_intros]: "prints (put_u64 v) (as_bytes (decimal (unat v)))"
proof (cases "v = 0")
  case False
  moreover have "length (decimal (unat v)) \<le> 20"
    using unsigned_less [of v, where ?'a = nat] by (intro length_decimal_u64) simp_all
  ultimately show ?thesis using prints_digits [of "unat v" 20] by (simp add: put_u64_def [abs_def] unat_gt_0)
qed (simp add: put_u64_def [abs_def] decimal_zero prints_put_byte)

lemma prints_at_slice:
  assumes "prints f t"
  shows "prints (at_slice (\<lambda>buf. f (buf, 0))) t"
  using assms by (auto simp: prints_def at_slice_def copy_at_def le_diff_conv2 add.commute)

lemma whole_row_prints:
  assumes "prints f t"
  shows "whole_row cap f = (if length t \<le> cap then Some t else None)"
  using assms by (simp add: whole_row_def prints_def copy_at_def)

lemma whole_row_text: "prints f s \<Longrightarrow> s = t \<Longrightarrow> length t \<le> cap \<Longrightarrow> whole_row cap f = Some t"
  by (simp add: whole_row_prints)

end
