(* ===== verification/Hwinv.thy ===== *)
theory Hwinv
  imports Boot_Rows
begin

text \<open>
  The hardware inventory at boot (\<^verbatim>\<open>kernel/boot/src/hwinv.rs\<close>): enumeration of the PCI configuration space, the
  canonical hardware tuple, its 60-dimensional coordinate and the device PID. The machine is the
  parameter \<open>pci\<close>, the value the data port gives for an address written to the address port. What is
  printed on the serial line is collected as the bytes of the log, and a panic is the outcome \<open>Panicked\<close>.
\<close>

section \<open>Configuration space\<close>

definition cfg_read32 :: "(u32 \<Rightarrow> u32) \<Rightarrow> u8 \<Rightarrow> u8 \<Rightarrow> u8 \<Rightarrow> u8 \<Rightarrow> u32" where
  "cfg_read32 pci bus dev func off =
     (let addr = or (or (or (or 0x80000000 (push_bit 16 (ucast bus))) (push_bit 11 (ucast dev))) (push_bit 8 (ucast func)))
                    (and (ucast off) 0xFC)
      in pci addr)"

section \<open>The hardware tuple\<close>

record HwTuple =
  ht_buf :: bytes
  ht_len :: nat
  ht_count :: u32
  ht_rst_vmd :: bool
  ht_ahci :: bool
  ht_storage :: bool

definition hw_new :: HwTuple where
  "hw_new = \<lparr>ht_buf = replicate TUPLE_CAP 0, ht_len = 0, ht_count = 0, ht_rst_vmd = False, ht_ahci = False, ht_storage = False\<rparr>"

definition hw_push :: "u16 \<Rightarrow> u16 \<Rightarrow> u8 \<Rightarrow> u8 \<Rightarrow> u8 \<Rightarrow> HwTuple \<Rightarrow> HwTuple" where
  "hw_push vendor device cls subcls prog_if t =
     (let b = [ucast (drop_bit 8 vendor), ucast (and vendor 0xFF), ucast (drop_bit 8 device), ucast (and device 0xFF), cls, subcls];
          t = (if ht_len t + length b \<le> TUPLE_CAP
               then t\<lparr>ht_buf := copy_at (ht_len t) b (ht_buf t), ht_len := ht_len t + length b\<rparr> else t);
          t = t\<lparr>ht_count := ht_count t + 1\<rparr>;
          t = (if vendor = 0x8086 \<and> device = 0x282A then t\<lparr>ht_rst_vmd := True\<rparr> else t);
          t = (if cls = 0x01 \<and> subcls = 0x06 \<and> prog_if = 0x01 then t\<lparr>ht_ahci := True\<rparr> else t);
          t = (if cls = 0x01 then t\<lparr>ht_storage := True\<rparr> else t)
      in t)"

section \<open>The coordinate\<close>

function glyph_fill :: "bytes \<Rightarrow> nat \<Rightarrow> nat \<Rightarrow> u16 list \<Rightarrow> nat \<times> u16 list" where
  "glyph_fill h j i sel =
     (if j + 1 < 32 \<and> i < 60
      then glyph_fill h (j + 2) (i + 1) (sel[i := and (or (push_bit 8 (ucast (h ! j))) (ucast (h ! (j + 1)))) 0x03FF])
      else (i, sel))"
  by pat_completeness auto
termination by (relation "measure (\<lambda>(h, j, i, sel). 32 - j)") auto

declare glyph_fill.simps [simp del]

lemma glyph_fill_mono: "i \<le> fst (glyph_fill h j i sel)"
proof (induction h j i sel rule: glyph_fill.induct)
  case (1 h j i sel)
  show ?case
  proof (cases "j + 1 < 32 \<and> i < 60")
    case True
    then show ?thesis using 1 by (simp add: glyph_fill.simps [of h j i])
  next
    case False
    then show ?thesis by (simp only: glyph_fill.simps [of h j i] if_False fst_conv order_refl)
  qed
qed

lemma glyph_fill_progress: "i < 60 \<Longrightarrow> i < fst (glyph_fill h 0 i sel)"
  using glyph_fill_mono [of "Suc i" h "Suc (Suc 0)"] by (simp add: glyph_fill.simps [of h 0 i] less_eq_Suc_le)

function project_loop :: "nat \<Rightarrow> bytes \<Rightarrow> nat \<Rightarrow> u32 \<Rightarrow> u16 list \<Rightarrow> u16 list" where
  "project_loop n buf i counter sel =
     (if i < 60 then
        let buf = copy_at n (be_bytes 4 counter) buf;
            h = sha256 (take (n + 4) buf);
            (i, sel) = glyph_fill h 0 i sel
        in project_loop n buf i (counter + 1) sel
      else sel)"
  by pat_completeness auto
termination
proof (relation "measure (\<lambda>(n, buf, i, counter, sel). 60 - i)")
  fix n buf i counter and sel and x xa xb xc xd
  assume "i < (60 :: nat)" "xb = glyph_fill xa 0 i sel" "(xc, xd) = xb"
  then have "i < xc" using glyph_fill_progress [of i xa sel] by (metis fst_conv)
  then show "((n, x, xc, counter + 1, xd), n, buf, i, counter, sel) \<in> measure (\<lambda>(n, buf, i, counter, sel). 60 - i)"
    using \<open>i < 60\<close> by simp
qed simp

declare project_loop.simps [simp del]

definition project_60d :: "bytes \<Rightarrow> u16 list" where
  "project_60d tuple =
     (let n = (if length tuple > TUPLE_CAP then TUPLE_CAP else length tuple);
          buf = copy_at 0 (take n tuple) (replicate (TUPLE_CAP + 4) 0)
      in project_loop n buf 0 0 (replicate 60 0))"

definition coord_bytes :: "u16 list \<Rightarrow> bytes" where
  "coord_bytes coord = concat (map (\<lambda>g. [ucast (drop_bit 8 g), ucast (and g 0xFF)]) coord)"

section \<open>The device PID\<close>

definition CRLF :: bytes where "CRLF = [13, 10]"

definition put_flag :: "bool \<Rightarrow> row \<Rightarrow> row option" where
  "put_flag v = put_byte (if v then 49 else 48)"

fun put_coords :: "bool \<Rightarrow> u16 list \<Rightarrow> row \<Rightarrow> row option" where
  "put_coords first [] r = Some r"
| "put_coords first (g # gs) r = do {
     r \<leftarrow> (if first then Some else put_byte 46) r;
     r \<leftarrow> put_u32 (ucast g) r;
     put_coords False gs r
   }"

definition emit_device_pid :: "HwTuple \<Rightarrow> bytes \<Rightarrow> (bytes \<times> bytes) option" where
  "emit_device_pid t seat =
     (let hw_digest = sha256 (take (ht_len t) (ht_buf t));
          coord = project_60d (take (ht_len t) (ht_buf t));
          device_digest = sha256 (coord_bytes coord)
      in do {
        row \<leftarrow> whole_row 448 (\<lambda>r. do {
          r \<leftarrow> put_bytes (as_bytes ''  BOOTPID|device_pid='') r;
          r \<leftarrow> put_hex_all (take 8 device_digest) r;
          r \<leftarrow> put_bytes (as_bytes ''|device_pid_full='') r;
          r \<leftarrow> put_hex_all device_digest r;
          r \<leftarrow> put_bytes (as_bytes ''|hw_tuple_pid_full='') r;
          r \<leftarrow> put_hex_all hw_digest r;
          r \<leftarrow> put_bytes (as_bytes ''|hw_devices='') r;
          r \<leftarrow> put_u32 (ht_count t) r;
          r \<leftarrow> put_bytes (as_bytes ''|rst_vmd='') r;
          r \<leftarrow> put_flag (ht_rst_vmd t) r;
          r \<leftarrow> put_bytes (as_bytes ''|ahci='') r;
          r \<leftarrow> put_flag (ht_ahci t) r;
          r \<leftarrow> put_bytes (as_bytes ''|storage='') r;
          r \<leftarrow> put_flag (ht_storage t) r;
          r \<leftarrow> put_bytes (as_bytes ''|seat='') r;
          r \<leftarrow> put_bytes seat r;
          r \<leftarrow> put_bytes (as_bytes ''|colony='') r;
          r \<leftarrow> put_bytes seat r;
          r \<leftarrow> put_bytes (as_bytes ''|behcs=1024|dims=60|derived_from=60d_coordinate|coord_prefix='') r;
          r \<leftarrow> put_coords True (take 6 coord) r;
          put_bytes (as_bytes ''|e=0|fire=0|json=0'' @ CRLF) r
        });
        Some (device_digest, row)
      })"

section \<open>The scan\<close>

record HwSummary =
  hs_device_digest :: bytes
  hs_rst_vmd :: bool
  hs_ahci :: bool

datatype scan_flow =
    Panicked
  | Returned HwSummary bytes
  | Running HwTuple bytes

definition pci_line :: "u8 \<Rightarrow> u8 \<Rightarrow> u8 \<Rightarrow> u16 \<Rightarrow> u16 \<Rightarrow> u8 \<Rightarrow> u8 \<Rightarrow> u8 \<Rightarrow> bytes option" where
  "pci_line bus dev func vendor device cls subcls prog_if = whole_row 48 (\<lambda>r. do {
     r \<leftarrow> put_bytes (as_bytes ''  PCI '') r;
     r \<leftarrow> put_hex8 bus r;
     r \<leftarrow> put_byte 58 r;
     r \<leftarrow> put_hex8 dev r;
     r \<leftarrow> put_byte 46 r;
     r \<leftarrow> put_byte (48 + func) r;
     r \<leftarrow> put_bytes (as_bytes ''  '') r;
     r \<leftarrow> put_hex16 vendor r;
     r \<leftarrow> put_byte 58 r;
     r \<leftarrow> put_hex16 device r;
     r \<leftarrow> put_bytes (as_bytes '' class='') r;
     r \<leftarrow> put_hex8 cls r;
     r \<leftarrow> put_byte 58 r;
     r \<leftarrow> put_hex8 subcls r;
     r \<leftarrow> put_byte 58 r;
     r \<leftarrow> put_hex8 prog_if r;
     put_bytes CRLF r
   })"

definition finish_scan :: "bytes \<Rightarrow> HwTuple \<Rightarrow> bytes \<Rightarrow> scan_flow" where
  "finish_scan seat t log =
     (case emit_device_pid t seat of
        None \<Rightarrow> Panicked
      | Some (device_digest, row) \<Rightarrow>
          Returned \<lparr>hs_device_digest = device_digest, hs_rst_vmd = ht_rst_vmd t, hs_ahci = ht_ahci t\<rparr> (log @ row))"

definition scan_func :: "(u32 \<Rightarrow> u32) \<Rightarrow> bytes \<Rightarrow> u8 \<Rightarrow> u8 \<Rightarrow> u8 \<Rightarrow> HwTuple \<Rightarrow> bytes \<Rightarrow> scan_flow" where
  "scan_func pci seat bus dev func t log =
     (let id = cfg_read32 pci bus dev func 0x00;
          vendor = ucast (and id 0xFFFF) :: u16
      in if vendor = 0xFFFF then Running t log
         else
           let device = ucast (drop_bit 16 id) :: u16;
               class_reg = cfg_read32 pci bus dev func 0x08;
               cls = ucast (and (drop_bit 24 class_reg) 0xFF) :: u8;
               subcls = ucast (and (drop_bit 16 class_reg) 0xFF) :: u8;
               prog_if = ucast (and (drop_bit 8 class_reg) 0xFF) :: u8
           in case pci_line bus dev func vendor device cls subcls prog_if of
                None \<Rightarrow> Panicked
              | Some line \<Rightarrow>
                  let log = log @ line;
                      t = hw_push vendor device cls subcls prog_if t
                  in if ht_count t \<ge> 64
                     then finish_scan seat t (log @ as_bytes ''  hwinv . (capped at 64 device-functions)'' @ CRLF)
                     else Running t log)"

fun scan_funcs :: "(u32 \<Rightarrow> u32) \<Rightarrow> bytes \<Rightarrow> u8 \<Rightarrow> u8 \<Rightarrow> u8 list \<Rightarrow> HwTuple \<Rightarrow> bytes \<Rightarrow> scan_flow" where
  "scan_funcs pci seat bus dev [] t log = Running t log"
| "scan_funcs pci seat bus dev (func # funcs) t log =
     (case scan_func pci seat bus dev func t log of
        Running t log \<Rightarrow> scan_funcs pci seat bus dev funcs t log
      | flow \<Rightarrow> flow)"

definition scan_slot :: "(u32 \<Rightarrow> u32) \<Rightarrow> bytes \<Rightarrow> u8 \<Rightarrow> u8 \<Rightarrow> HwTuple \<Rightarrow> bytes \<Rightarrow> scan_flow" where
  "scan_slot pci seat bus dev t log =
     (let id0 = cfg_read32 pci bus dev 0 0x00
      in if and id0 0xFFFF = 0xFFFF then Running t log
         else
           let header_type = ucast (and (drop_bit 16 (cfg_read32 pci bus dev 0 0x0C)) 0xFF) :: u8;
               max_func = (if and header_type 0x80 \<noteq> 0 then 8 else 1)
           in scan_funcs pci seat bus dev (map word_of_nat [0..<max_func]) t log)"

fun scan_slots :: "(u32 \<Rightarrow> u32) \<Rightarrow> bytes \<Rightarrow> u8 \<Rightarrow> u8 list \<Rightarrow> HwTuple \<Rightarrow> bytes \<Rightarrow> scan_flow" where
  "scan_slots pci seat bus [] t log = Running t log"
| "scan_slots pci seat bus (dev # devs) t log =
     (case scan_slot pci seat bus dev t log of
        Running t log \<Rightarrow> scan_slots pci seat bus devs t log
      | flow \<Rightarrow> flow)"

fun scan_buses :: "(u32 \<Rightarrow> u32) \<Rightarrow> bytes \<Rightarrow> u8 list \<Rightarrow> HwTuple \<Rightarrow> bytes \<Rightarrow> scan_flow" where
  "scan_buses pci seat [] t log = Running t log"
| "scan_buses pci seat (bus # buses) t log =
     (case scan_slots pci seat bus (map word_of_nat [0..<32]) t log of
        Running t log \<Rightarrow> scan_buses pci seat buses t log
      | flow \<Rightarrow> flow)"

definition pci_scan :: "(u32 \<Rightarrow> u32) \<Rightarrow> bytes \<Rightarrow> scan_flow" where
  "pci_scan pci seat =
     (let log = as_bytes ''  hwinv . PCI enumeration (0xCF8/0xCFC, read-only)'' @ CRLF
      in case scan_buses pci seat (map word_of_nat [0..<256]) hw_new log of
           Running t log \<Rightarrow> finish_scan seat t (log @ as_bytes ''  hwinv . PCI scan complete'' @ CRLF)
         | flow \<Rightarrow> flow)"

section \<open>The coordinate, in closed form\<close>

definition glyph10 :: "bytes \<Rightarrow> nat \<Rightarrow> u16" where
  "glyph10 h j = and (or (push_bit 8 (ucast (h ! j))) (ucast (h ! (j + 1)))) 0x03FF"

lemma glyph10_bound: "glyph10 h j < 1024"
proof -
  have "glyph10 h j \<le> 0x3FF" unfolding glyph10_def by (rule word_and_le1)
  then show ?thesis by (simp add: word_le_nat_alt word_less_nat_alt)
qed

lemma glyph_fill_eq:
  "length sel = 60 \<Longrightarrow> i \<le> 60 \<Longrightarrow> glyph_fill h j i sel =
     (let m = min ((32 - j) div 2) (60 - i)
      in (i + m, copy_at i (map (\<lambda>k. glyph10 h (j + 2 * k)) [0..<m]) sel))"
proof (induction h j i sel rule: glyph_fill.induct)
  case (1 h j i sel)
  show ?case
  proof (cases "j + 1 < 32 \<and> i < 60")
    case True
    let ?m = "min ((32 - (j + 2)) div 2) (60 - (i + 1))"
    have m: "min ((32 - j) div 2) (60 - i) = Suc ?m"
    proof -
      have "32 - j = 2 + (32 - (j + 2))" using True by linarith
      then have "(32 - j) div 2 = Suc ((32 - (j + 2)) div 2)" by simp
      moreover have "60 - i = Suc (60 - (i + 1))" using True by linarith
      ultimately show ?thesis by (simp only: min_Suc_Suc)
    qed
    have "glyph_fill h j i sel = glyph_fill h (j + 2) (i + 1) (sel[i := glyph10 h j])"
      using True by (simp add: glyph_fill.simps [of h j i] glyph10_def)
    also have "\<dots> = (i + 1 + ?m, copy_at (i + 1) (map (\<lambda>k. glyph10 h (j + 2 + 2 * k)) [0..<?m]) (sel[i := glyph10 h j]))"
      using 1 True by (simp add: Let_def glyph10_def)
    also have "\<dots> = (i + Suc ?m, copy_at i (map (\<lambda>k. glyph10 h (j + 2 * k)) [0..<Suc ?m]) sel)"
    proof -
      have "sel[i := glyph10 h j] = copy_at i [glyph10 h j] sel"
        using True "1.prems" by (simp add: copy_at_def upd_conv_take_nth_drop)
      moreover have "map (\<lambda>k. glyph10 h (j + 2 * k)) [0..<Suc ?m] =
          [glyph10 h j] @ map (\<lambda>k. glyph10 h (j + 2 + 2 * k)) [0..<?m]"
        by (simp add: map_upt_Suc del: upt_Suc)
      ultimately show ?thesis using True "1.prems"
        by (simp add: copy_at_def ac_simps del: upt_Suc)
    qed
    finally show ?thesis by (simp only: Let_def m)
  next
    case False
    then have "min ((32 - j) div 2) (60 - i) = 0" by auto
    then show ?thesis using False by (auto simp: glyph_fill.simps [of h j i] copy_at_def)
  qed
qed

lemma project_loop_step:
  fixes buf :: bytes and c :: u32
  assumes "n + 4 \<le> length buf" and "take n buf = t" and "length sel = 60" and "i < 60"
  defines "b \<equiv> copy_at n (be_bytes 4 c) buf"
  shows "project_loop n buf i c sel = project_loop n b (i + min 16 (60 - i)) (c + 1)
      (copy_at i (map (\<lambda>k. glyph10 (sha256 (t @ be_bytes 4 c)) (2 * k)) [0..<min 16 (60 - i)]) sel)"
    and "n + 4 \<le> length b" and "take n b = t"
proof -
  have n: "length t = n" using assms(1,2) by auto
  have "take (n + 4) b = t @ be_bytes 4 c"
    using assms(1,2) n by (simp add: b_def copy_at_def)
  then show "project_loop n buf i c sel = project_loop n b (i + min 16 (60 - i)) (c + 1)
      (copy_at i (map (\<lambda>k. glyph10 (sha256 (t @ be_bytes 4 c)) (2 * k)) [0..<min 16 (60 - i)]) sel)"
    using assms(3,4) by (simp add: project_loop.simps [of n buf i] glyph_fill_eq b_def [symmetric] Let_def)
  show "n + 4 \<le> length b" using assms(1) by (simp add: b_def)
  show "take n b = t" using assms(1,2) n by (simp add: b_def copy_at_def)
qed

lemma project_60d_eq:
  assumes "length t \<le> TUPLE_CAP"
  shows "project_60d t =
    map (\<lambda>k. glyph10 (sha256 (t @ be_bytes 4 (word_of_nat (k div 16) :: u32))) (2 * (k mod 16))) [0..<60]"
proof -
  let ?n = "length t"
  let ?g = "\<lambda>c m. map (\<lambda>k. glyph10 (sha256 (t @ be_bytes 4 (c :: u32))) (2 * k)) [0..<m]"
  define buf where "buf = copy_at 0 t (replicate (TUPLE_CAP + 4) 0)"
  have b: "?n + 4 \<le> length buf" "take ?n buf = t" using assms by (simp_all add: buf_def copy_at_def)
  let ?s1 = "copy_at 0 (?g 0 16) (replicate 60 0)"
  let ?s2 = "copy_at 16 (?g 1 16) ?s1"
  let ?s3 = "copy_at 32 (?g 2 16) ?s2"
  let ?s4 = "copy_at 48 (?g 3 12) ?s3"
  have l: "length (replicate 60 0 :: u16 list) = 60" "length ?s1 = 60" "length ?s2 = 60" "length ?s3 = 60" by simp_all
  have i: "0 < (60 :: nat)" "16 < (60 :: nat)" "32 < (60 :: nat)" "48 < (60 :: nat)" by simp_all
  note p1 = project_loop_step [OF b l(1) i(1), of 0]
  note p2 = project_loop_step [OF p1(2,3) l(2) i(2), of 1]
  note p3 = project_loop_step [OF p2(2,3) l(3) i(3), of 2]
  note p4 = project_loop_step [OF p3(2,3) l(4) i(4), of 3]
  have "project_60d t = project_loop ?n buf 0 0 (replicate 60 0)"
    using assms by (simp add: project_60d_def buf_def Let_def)
  also have "\<dots> = ?s4"
    using p1(1) p2(1) p3(1) p4(1) by (simp add: project_loop.simps [of _ _ 60])
  also have "\<dots> = ?g 0 16 @ ?g 1 16 @ ?g 2 16 @ ?g 3 12" by (simp add: copy_at_def)
  also have "\<dots> = map (\<lambda>k. glyph10 (sha256 (t @ be_bytes 4 (word_of_nat (k div 16) :: u32))) (2 * (k mod 16))) [0..<60]"
  proof -
    have "?g (word_of_nat q) m = map (\<lambda>k. glyph10 (sha256 (t @ be_bytes 4 (word_of_nat (k div 16) :: u32))) (2 * (k mod 16)))
        [16 * q..<16 * q + m]" if "m \<le> 16" for q m
      using that by (intro nth_equalityI) simp_all
    note g = this
    have "[0..<60] = [16 * 0..<16 * 0 + 16] @ [16 * 1..<16 * 1 + 16] @ [16 * 2..<16 * 2 + 16] @ [16 * 3..<16 * 3 + (12 :: nat)]"
      by code_simp
    moreover have "(0 :: u32) = word_of_nat 0" "(1 :: u32) = word_of_nat 1" "(2 :: u32) = word_of_nat 2" "(3 :: u32) = word_of_nat 3"
      by simp_all
    ultimately show ?thesis using g [of 16 0] g [of 16 1] g [of 16 2] g [of 12 3] by (simp only: map_append)
  qed
  finally show ?thesis .
qed

section \<open>The scan as a walk over the functions present\<close>

text \<open>The functions the scan visits, in bus, device and function order, and what it reads of each.\<close>

definition present :: "(u32 \<Rightarrow> u32) \<Rightarrow> u8 \<times> u8 \<times> u8 \<Rightarrow> bool" where
  "present pci = (\<lambda>(bus, dev, func). (ucast (and (cfg_read32 pci bus dev func 0) 0xFFFF) :: u16) \<noteq> 0xFFFF)"

definition slot_functions :: "(u32 \<Rightarrow> u32) \<Rightarrow> u8 \<Rightarrow> u8 \<Rightarrow> (u8 \<times> u8 \<times> u8) list" where
  "slot_functions pci bus dev =
     (if and (cfg_read32 pci bus dev 0 0) 0xFFFF = 0xFFFF then []
      else map (\<lambda>func. (bus, dev, word_of_nat func))
        [0..<if and (ucast (and (drop_bit 16 (cfg_read32 pci bus dev 0 0x0C)) 0xFF) :: u8) 0x80 \<noteq> 0 then 8 else 1])"

definition pci_functions :: "(u32 \<Rightarrow> u32) \<Rightarrow> (u8 \<times> u8 \<times> u8) list" where
  "pci_functions pci =
     filter (present pci) (concat (map (\<lambda>bus. concat (map (\<lambda>dev. slot_functions pci (word_of_nat bus) (word_of_nat dev)) [0..<32])) [0..<256]))"

definition ids_of :: "(u32 \<Rightarrow> u32) \<Rightarrow> u8 \<times> u8 \<times> u8 \<Rightarrow> u16 \<times> u16 \<times> u8 \<times> u8 \<times> u8" where
  "ids_of pci = (\<lambda>(bus, dev, func).
     let id = cfg_read32 pci bus dev func 0; class_reg = cfg_read32 pci bus dev func 8
     in (ucast (and id 0xFFFF), ucast (drop_bit 16 id), ucast (and (drop_bit 24 class_reg) 0xFF),
         ucast (and (drop_bit 16 class_reg) 0xFF), ucast (and (drop_bit 8 class_reg) 0xFF)))"

definition six_bytes :: "u16 \<times> u16 \<times> u8 \<times> u8 \<times> u8 \<Rightarrow> bytes" where
  "six_bytes = (\<lambda>(vendor, device, cls, subcls, prog_if).
     [ucast (drop_bit 8 vendor), ucast (and vendor 0xFF), ucast (drop_bit 8 device), ucast (and device 0xFF), cls, subcls])"

definition push_ids :: "u16 \<times> u16 \<times> u8 \<times> u8 \<times> u8 \<Rightarrow> HwTuple \<Rightarrow> HwTuple" where
  "push_ids = (\<lambda>(vendor, device, cls, subcls, prog_if). hw_push vendor device cls subcls prog_if)"

definition line_text :: "(u32 \<Rightarrow> u32) \<Rightarrow> u8 \<times> u8 \<times> u8 \<Rightarrow> bytes" where
  "line_text pci = (\<lambda>(bus, dev, func). case ids_of pci (bus, dev, func) of (vendor, device, cls, subcls, prog_if) \<Rightarrow>
     as_bytes (''  PCI '' @ hex_byte bus @ '':'' @ hex_byte dev @ ''.'') @ [48 + func] @
     as_bytes (''  '' @ hex_byte (ucast (drop_bit 8 vendor)) @ hex_byte (ucast (and vendor 0xFF)) @ '':'' @
       hex_byte (ucast (drop_bit 8 device)) @ hex_byte (ucast (and device 0xFF)) @ '' class='' @
       hex_byte cls @ '':'' @ hex_byte subcls @ '':'' @ hex_byte prog_if) @ CRLF)"

fun scan_list :: "(u32 \<Rightarrow> u32) \<Rightarrow> bytes \<Rightarrow> (u8 \<times> u8 \<times> u8) list \<Rightarrow> HwTuple \<Rightarrow> bytes \<Rightarrow> scan_flow" where
  "scan_list pci seat [] t log = Running t log"
| "scan_list pci seat ((bus, dev, func) # xs) t log =
     (case scan_func pci seat bus dev func t log of
        Running t log \<Rightarrow> scan_list pci seat xs t log
      | flow \<Rightarrow> flow)"

lemma scan_list_append:
  "scan_list pci seat (xs @ ys) t log =
     (case scan_list pci seat xs t log of Running t log \<Rightarrow> scan_list pci seat ys t log | flow \<Rightarrow> flow)"
  by (induction pci seat xs t log rule: scan_list.induct) (auto split: scan_flow.split)

lemma scan_funcs_list: "scan_funcs pci seat bus dev funcs t log = scan_list pci seat (map (\<lambda>f. (bus, dev, f)) funcs) t log"
  by (induction funcs arbitrary: t log) (auto split: scan_flow.split)

lemma scan_slot_list: "scan_slot pci seat bus dev t log = scan_list pci seat (slot_functions pci bus dev) t log"
  by (simp add: scan_slot_def slot_functions_def scan_funcs_list Let_def comp_def)

lemma scan_slots_list:
  "scan_slots pci seat bus devs t log = scan_list pci seat (concat (map (slot_functions pci bus) devs)) t log"
  by (induction devs arbitrary: t log) (auto simp: scan_slot_list scan_list_append split: scan_flow.split)

lemma scan_buses_list:
  "scan_buses pci seat buses t log =
     scan_list pci seat (concat (map (\<lambda>bus. concat (map (slot_functions pci bus) (map word_of_nat [0..<32]))) buses)) t log"
  by (induction buses arbitrary: t log)
    (auto simp: scan_slots_list scan_list_append simp del: upt_rec_numeral split: scan_flow.split)

lemma scan_func_absent: "\<not> present pci (bus, dev, func) \<Longrightarrow> scan_func pci seat bus dev func t log = Running t log"
  by (simp add: scan_func_def present_def Let_def)

lemma scan_list_present: "scan_list pci seat xs t log = scan_list pci seat (filter (present pci) xs) t log"
  by (induction pci seat xs t log rule: scan_list.induct) (auto simp: scan_func_absent split: scan_flow.split)

lemma pci_line_text:
  "(case ids_of pci (bus, dev, func) of (vendor, device, cls, subcls, prog_if) \<Rightarrow>
     pci_line bus dev func vendor device cls subcls prog_if) = Some (line_text pci (bus, dev, func))"
proof -
  have p: "pci_line bus dev func vendor device cls subcls prog_if =
      Some (as_bytes (''  PCI '' @ hex_byte bus @ '':'' @ hex_byte dev @ ''.'') @ [48 + func] @
       as_bytes (''  '' @ hex_byte (ucast (drop_bit 8 vendor)) @ hex_byte (ucast (and vendor 0xFF)) @ '':'' @
         hex_byte (ucast (drop_bit 8 device)) @ hex_byte (ucast (and device 0xFF)) @ '' class='' @
         hex_byte cls @ '':'' @ hex_byte subcls @ '':'' @ hex_byte prog_if) @ CRLF)"
    (is "_ = Some ?t") for vendor device cls subcls prog_if
    unfolding pci_line_def
    by (rule whole_row_text, (rule prints_intros)+) (simp_all add: CRLF_def as_bytes_def)
  show ?thesis by (simp add: p line_text_def split: prod.split)
qed

lemma scan_func_present:
  assumes "present pci x" and "x = (bus, dev, func)"
  shows "scan_func pci seat bus dev func t log =
    (let log = log @ line_text pci x; t = push_ids (ids_of pci x) t
     in if ht_count t \<ge> 64 then finish_scan seat t (log @ as_bytes ''  hwinv . (capped at 64 device-functions)'' @ CRLF)
        else Running t log)"
  using assms pci_line_text [of bus dev func pci]
  by (simp add: scan_func_def present_def Let_def ids_of_def push_ids_def)

section \<open>The tuple after a number of functions\<close>

lemma hw_push_count: "ht_count (push_ids x t) = ht_count t + 1"
  by (simp add: push_ids_def hw_push_def Let_def split: prod.split)

lemma scan_list_walk:
  "list_all (present pci) xs \<Longrightarrow> ht_count t = word_of_nat n \<Longrightarrow> n < 64 \<Longrightarrow>
   scan_list pci seat xs t log =
     (if n + length xs < 64
      then Running (fold push_ids (map (ids_of pci) xs) t) (log @ concat (map (line_text pci) xs))
      else finish_scan seat (fold push_ids (map (ids_of pci) (take (64 - n) xs)) t)
        (log @ concat (map (line_text pci) (take (64 - n) xs)) @ as_bytes ''  hwinv . (capped at 64 device-functions)'' @ CRLF))"
proof (induction xs arbitrary: t n log)
  case (Cons x xs)
  obtain bus dev func where x: "x = (bus, dev, func)" by (cases x)
  let ?t = "push_ids (ids_of pci x) t"
  have c: "ht_count ?t = word_of_nat (n + 1)" using Cons.prems by (simp add: hw_push_count)
  have "unat (word_of_nat (n + 1) :: u32) = n + 1" using Cons.prems(3) by (simp only: unat_of_nat) simp
  then have ge: "ht_count ?t \<ge> 64 \<longleftrightarrow> n = 63" using Cons.prems(3) by (simp only: c word_le_nat_alt) auto
  have step: "scan_func pci seat bus dev func t log =
      (if n = 63 then finish_scan seat ?t ((log @ line_text pci x) @ as_bytes ''  hwinv . (capped at 64 device-functions)'' @ CRLF)
       else Running ?t (log @ line_text pci x))"
    using scan_func_present [OF _ x, of pci seat t log] Cons.prems(1) by (simp add: Let_def ge)
  show ?case
  proof (cases "n = 63")
    case True
    have "scan_list pci seat (x # xs) t log =
        finish_scan seat ?t ((log @ line_text pci x) @ as_bytes ''  hwinv . (capped at 64 device-functions)'' @ CRLF)"
      by (simp only: x scan_list.simps step [unfolded x] True if_True) (simp add: finish_scan_def split: option.split)
    then show ?thesis using True by simp
  next
    case False
    then have "n + 1 < 64" "64 - n = Suc (64 - (n + 1))" using Cons.prems(3) by simp_all
    moreover have "scan_list pci seat (x # xs) t log = scan_list pci seat xs ?t (log @ line_text pci x)"
      using step False by (simp add: x)
    ultimately show ?thesis using Cons.IH [OF _ c, of "log @ line_text pci x"] Cons.prems(1) by simp
  qed
qed simp

text \<open>After at most 64 functions nothing was dropped: the tuple holds six bytes of each.\<close>

definition tuple_of :: "(u16 \<times> u16 \<times> u8 \<times> u8 \<times> u8) list \<Rightarrow> HwTuple" where
  "tuple_of xs = fold push_ids xs hw_new"

lemma length_six_bytes: "length (six_bytes x) = 6"
  by (simp add: six_bytes_def split: prod.split)

lemma length_tuple_bytes: "length (concat (map six_bytes xs)) = 6 * length xs"
  by (induction xs) (simp_all add: length_six_bytes)

lemma tuple_of_bytes:
  "length xs \<le> 85 \<Longrightarrow> length (ht_buf (tuple_of xs)) = TUPLE_CAP \<and> ht_len (tuple_of xs) = 6 * length xs \<and>
     take (6 * length xs) (ht_buf (tuple_of xs)) = concat (map six_bytes xs)"
proof (induction xs rule: rev_induct)
  case (snoc x xs)
  have len: "6 * length xs + 6 \<le> TUPLE_CAP" using snoc.prems by (simp add: TUPLE_CAP_def)
  have t: "tuple_of (xs @ [x]) = push_ids x (tuple_of xs)" by (simp add: tuple_of_def)
  have "ht_buf (push_ids x s) = copy_at (ht_len s) (six_bytes x) (ht_buf s) \<and> ht_len (push_ids x s) = ht_len s + 6"
    if "ht_len s + 6 \<le> TUPLE_CAP" for s
    using that by (simp add: push_ids_def hw_push_def six_bytes_def Let_def split: prod.split)
  from this [of "tuple_of xs"] snoc len show ?case
    by (simp add: t length_six_bytes) (simp add: copy_at_def length_six_bytes length_tuple_bytes)
qed (simp add: tuple_of_def hw_new_def)

lemma hw_push_flags:
  "ht_rst_vmd (hw_push v d c s p t) = (ht_rst_vmd t \<or> v = 0x8086 \<and> d = 0x282A)"
  "ht_ahci (hw_push v d c s p t) = (ht_ahci t \<or> c = 1 \<and> s = 6 \<and> p = 1)"
  "ht_storage (hw_push v d c s p t) = (ht_storage t \<or> c = 1)"
  by (auto simp: hw_push_def Let_def)

lemma tuple_of_flags:
  "ht_count (tuple_of xs) = word_of_nat (length xs) \<and>
   ht_rst_vmd (tuple_of xs) = list_ex (\<lambda>(vendor, device, _). vendor = 0x8086 \<and> device = 0x282A) xs \<and>
   ht_ahci (tuple_of xs) = list_ex (\<lambda>(_, _, cls, subcls, prog_if). cls = 1 \<and> subcls = 6 \<and> prog_if = 1) xs \<and>
   ht_storage (tuple_of xs) = list_ex (\<lambda>(_, _, cls, _). cls = 1) xs"
proof (induction xs rule: rev_induct)
  case (snoc x xs)
  obtain v d c s p where x: "x = (v, d, c, s, p)" by (cases x)
  have t: "tuple_of (xs @ [x]) = push_ids x (tuple_of xs)" by (simp add: tuple_of_def)
  have "ht_count (tuple_of (xs @ [x])) = word_of_nat (length (xs @ [x]))" using snoc by (simp add: t hw_push_count)
  then show ?case using snoc by (simp add: t) (simp add: x push_ids_def hw_push_flags)
qed (simp add: tuple_of_def hw_new_def)

section \<open>The BOOTPID row\<close>

text \<open>The coordinate of a tuple and the row, over the FIPS 180-4 function.\<close>

definition coord_of :: "bytes \<Rightarrow> u16 list" where
  "coord_of tup = map (\<lambda>k. glyph10 (fips_sha256 (tup @ be_bytes 4 (word_of_nat (k div 16) :: u32))) (2 * (k mod 16))) [0..<60]"

definition bootpid_text :: "bytes \<Rightarrow> nat \<Rightarrow> bool \<Rightarrow> bool \<Rightarrow> bool \<Rightarrow> bytes \<Rightarrow> bytes" where
  "bootpid_text tup n rst ahci storage seat =
     (let digest = fips_sha256 (coord_bytes (coord_of tup)); flag = (\<lambda>b. if b then ''1'' else ''0'')
      in as_bytes (''  BOOTPID|device_pid='' @ hex_bytes (take 8 digest) @ ''|device_pid_full='' @ hex_bytes digest @
           ''|hw_tuple_pid_full='' @ hex_bytes (fips_sha256 tup) @ ''|hw_devices='' @ decimal n @
           ''|rst_vmd='' @ flag rst @ ''|ahci='' @ flag ahci @ ''|storage='' @ flag storage @ ''|seat='') @ seat @
         as_bytes ''|colony='' @ seat @
         as_bytes (''|behcs=1024|dims=60|derived_from=60d_coordinate|coord_prefix='' @
           str_join CHR ''.'' (map (\<lambda>g. decimal (unat g)) (take 6 (coord_of tup))) @ ''|e=0|fire=0|json=0'') @ CRLF)"

lemma prints_put_flag [prints_intros]: "prints (put_flag b) (as_bytes (if b then ''1'' else ''0''))"
  using prints_put_byte by (simp add: put_flag_def as_bytes_def)

lemma prints_put_coord: "prints (put_u32 (ucast (g :: u16))) (as_bytes (decimal (unat g)))"
  using prints_put_u32 [of "ucast g"] by (simp add: unsigned_ucast_eq take_bit_nat_eq_self unsigned_less [THEN less_le_trans])

lemma prints_put_coords_rest: "prints (put_coords False gs) (concat (map (\<lambda>g. 46 # as_bytes (decimal (unat g))) gs))"
proof (induction gs)
  case (Cons g gs)
  have "prints (\<lambda>r. do { r \<leftarrow> put_byte 46 r; r \<leftarrow> put_u32 (ucast g) r; put_coords False gs r })
      ([46] @ as_bytes (decimal (unat g)) @ concat (map (\<lambda>g. 46 # as_bytes (decimal (unat g))) gs))"
    by (intro prints_bind prints_put_byte prints_put_coord Cons.IH)
  then show ?case by (simp add: prints_def)
qed (simp add: prints_def copy_at_nil)

lemma str_join_concat: "str_join d (s # ss) = s @ concat (map (Cons d) ss)"
  by (induction ss arbitrary: s) auto

lemma prints_put_coords [prints_intros]:
  "prints (put_coords True gs) (as_bytes (str_join CHR ''.'' (map (\<lambda>g. decimal (unat g)) gs)))"
proof (cases gs)
  case (Cons g hs)
  have "prints (\<lambda>r. do { r \<leftarrow> put_u32 (ucast g) r; put_coords False hs r })
      (as_bytes (decimal (unat g)) @ concat (map (\<lambda>g. 46 # as_bytes (decimal (unat g))) hs))"
    by (intro prints_bind prints_put_coord prints_put_coords_rest)
  moreover have "as_bytes (str_join CHR ''.'' (map (\<lambda>g. decimal (unat g)) gs)) =
      as_bytes (decimal (unat g)) @ concat (map (\<lambda>g. 46 # as_bytes (decimal (unat g))) hs)"
    by (simp add: Cons str_join_concat as_bytes_def map_concat comp_def)
  ultimately show ?thesis by (simp add: Cons prints_def)
qed (simp add: prints_def copy_at_nil as_bytes_def)

lemma length_coord_bytes: "length (coord_bytes gs) = 2 * length gs"
  by (induction gs) (simp_all add: coord_bytes_def)

lemma length_coords_text:
  "(\<And>g. g \<in> set gs \<Longrightarrow> g < 1024) \<Longrightarrow> length (str_join d (map (\<lambda>g :: u16. decimal (unat g)) gs)) \<le> 5 * length gs - 1"
proof (induction gs rule: induct_list012)
  case (2 g)
  then have "unat g < 10 ^ 4" by (simp add: word_less_nat_alt)
  from length_decimal [OF this] show ?case by simp
next
  case (3 g h gs)
  have "g < 1024" using "3.prems" by simp
  then have "unat g < 10 ^ 4" by (simp add: word_less_nat_alt)
  from length_decimal [OF this] 3 show ?case by simp
qed simp

lemma coord_of_project: "length tup + 4 \<le> TUPLE_CAP \<Longrightarrow> project_60d tup = coord_of tup"
  by (simp add: project_60d_eq coord_of_def sha256_eq_fips)

lemma emit_device_pid_text:
  assumes "take (ht_len t) (ht_buf t) = tup" and "length tup + 4 \<le> TUPLE_CAP" and "unat (ht_count t) < 100"
    and "length seat \<le> 41"
  shows "emit_device_pid t seat = Some (fips_sha256 (coord_bytes (coord_of tup)),
    bootpid_text tup (unat (ht_count t)) (ht_rst_vmd t) (ht_ahci t) (ht_storage t) seat)"
proof -
  have sha: "sha256 tup = fips_sha256 tup" "sha256 (coord_bytes (coord_of tup)) = fips_sha256 (coord_bytes (coord_of tup))"
    using assms(2) by (simp_all add: sha256_eq_fips length_coord_bytes coord_of_def TUPLE_CAP_def)
  have len: "length (fips_sha256 tup) = 32" "length (fips_sha256 (coord_bytes (coord_of tup))) = 32"
    by (simp_all add: length_fips_sha256)
  have d: "length (decimal (unat (ht_count t))) \<le> 2" using assms(3) by (intro length_decimal) simp_all
  have "length (str_join CHR ''.'' (map (\<lambda>g. decimal (unat g)) (take 6 (coord_of tup)))) \<le> 5 * length (take 6 (coord_of tup)) - 1"
    by (intro length_coords_text) (auto dest!: in_set_takeD simp: coord_of_def glyph10_bound)
  then have c: "length (str_join CHR ''.'' (map (\<lambda>g. decimal (unat g)) (take 6 (coord_of tup)))) \<le> 29"
    by (simp add: coord_of_def del: upt_rec_numeral)
  show ?thesis
    unfolding emit_device_pid_def assms(1) coord_of_project [OF assms(2)] sha Let_def
    apply (subst whole_row_text [of _ _ "bootpid_text tup (unat (ht_count t)) (ht_rst_vmd t) (ht_ahci t) (ht_storage t) seat"])
       apply ((rule prints_intros)+)
      apply (simp add: bootpid_text_def Let_def as_bytes_def)
     apply (use c d len assms(4) in \<open>simp add: bootpid_text_def Let_def CRLF_def del: upt_rec_numeral\<close>)
    apply simp
    done
qed

section \<open>The whole scan\<close>

lemma pci_scan_finish:
  defines "fns \<equiv> \<lambda>pci. take 64 (pci_functions pci)"
  shows "pci_scan pci seat = finish_scan seat (tuple_of (map (ids_of pci) (fns pci)))
    (as_bytes ''  hwinv . PCI enumeration (0xCF8/0xCFC, read-only)'' @ CRLF @ concat (map (line_text pci) (fns pci)) @
     as_bytes (if length (fns pci) < 64 then ''  hwinv . PCI scan complete'' else ''  hwinv . (capped at 64 device-functions)'') @ CRLF)"
proof -
  let ?log = "as_bytes ''  hwinv . PCI enumeration (0xCF8/0xCFC, read-only)'' @ CRLF"
  have flat: "scan_buses pci seat (map word_of_nat [0..<256]) hw_new ?log = scan_list pci seat (pci_functions pci) hw_new ?log"
    unfolding scan_buses_list pci_functions_def scan_list_present [of pci seat "concat _"]
    by (simp only: map_map comp_def)
  have all: "list_all (present pci) (pci_functions pci)" by (simp add: pci_functions_def list_all_iff)
  note walk = scan_list_walk [OF all, of hw_new 0 seat ?log]
  have "length (fns pci) < 64 \<longleftrightarrow> length (pci_functions pci) < 64" by (auto simp: fns_def min_def)
  with walk show ?thesis
    unfolding pci_scan_def flat Let_def
    by (cases "length (pci_functions pci) < 64") (simp_all add: hw_new_def fns_def tuple_of_def finish_scan_def split: option.split)
qed

lemma finish_scan_text:
  assumes "length seat \<le> 41" and "length ids \<le> 64"
  shows "finish_scan seat (tuple_of ids) log =
    (let tup = concat (map six_bytes ids); t = tuple_of ids
     in Returned \<lparr>hs_device_digest = fips_sha256 (coord_bytes (coord_of tup)), hs_rst_vmd = ht_rst_vmd t, hs_ahci = ht_ahci t\<rparr>
          (log @ bootpid_text tup (length ids) (ht_rst_vmd t) (ht_ahci t) (ht_storage t) seat))"
proof -
  let ?tup = "concat (map six_bytes ids)"
  have b: "take (ht_len (tuple_of ids)) (ht_buf (tuple_of ids)) = ?tup" using tuple_of_bytes [of ids] assms(2) by simp
  have l: "length ?tup + 4 \<le> TUPLE_CAP" using assms(2) by (simp add: length_tuple_bytes TUPLE_CAP_def)
  have "unat (ht_count (tuple_of ids)) = length ids" using tuple_of_flags [of ids] assms(2) by (simp add: unat_of_nat)
  then show ?thesis using emit_device_pid_text [OF b l _ assms(1)] assms(2) by (simp add: finish_scan_def Let_def)
qed

lemma pci_scan_returns:
  assumes "length seat \<le> 41"
  shows "\<exists>hw log. pci_scan pci seat = Returned hw log \<and> length (hs_device_digest hw) = 32"
  using finish_scan_text [OF assms, of "map (ids_of pci) (take 64 (pci_functions pci))"]
  by (simp add: pci_scan_finish Let_def length_fips_sha256)

section \<open>Properties\<close>



end
