(* ===== verification/Boot_Clock.thy ===== *)
theory Boot_Clock
  imports Hwinv
begin

text \<open>
  The boot clock, the boot projection and the storage driver rows (\<^verbatim>\<open>kernel/boot/src/rtc.rs\<close>, \<^verbatim>\<open>bootproj.rs\<close>,
  \<^verbatim>\<open>driver_rst_vmd.rs\<close>, \<^verbatim>\<open>driver_ahci.rs\<close>). The CMOS clock is the parameter \<open>cmos\<close>: the byte the \<open>n\<close>-th register
  read of the boot gives for a register. The two halves of the time stamp counter are parameters too.
  As in theory \<open>Hwinv\<close> a row is the bytes printed, and indexing past an array is \<open>None\<close>.
\<close>

section \<open>The clock\<close>

record BootTime =
  bt_year :: u16
  bt_month :: u8
  bt_day :: u8
  bt_hour :: u8
  bt_min :: u8
  bt_sec :: u8
  bt_tsc :: u64

definition cmos_read :: "(nat \<Rightarrow> u8 \<Rightarrow> u8) \<Rightarrow> nat \<Rightarrow> u8 \<Rightarrow> u8" where
  "cmos_read cmos n reg = cmos n (and reg 0x7F)"

definition bcd_to_bin :: "u8 \<Rightarrow> u8" where
  "bcd_to_bin v = and v 0x0F + drop_bit 4 v * 10"

definition rdtsc :: "u32 \<Rightarrow> u32 \<Rightarrow> u64" where
  "rdtsc hi lo = or (push_bit 32 (ucast hi)) (ucast lo)"

definition put_2 :: "u8 \<Rightarrow> row \<Rightarrow> row option" where
  "put_2 v r = do {
     r \<leftarrow> put_byte (48 + (v div 10) mod 10) r;
     put_byte (48 + v mod 10) r
   }"

definition put_u4 :: "u16 \<Rightarrow> row \<Rightarrow> row option" where
  "put_u4 v r = do {
     r \<leftarrow> put_byte (48 + ucast ((v div 1000) mod 10)) r;
     r \<leftarrow> put_byte (48 + ucast ((v div 100) mod 10)) r;
     r \<leftarrow> put_byte (48 + ucast ((v div 10) mod 10)) r;
     put_byte (48 + ucast (v mod 10)) r
   }"

definition write_utc :: "BootTime \<Rightarrow> bytes \<Rightarrow> row option" where
  "write_utc bt buf = do {
     r \<leftarrow> put_u4 (bt_year bt) (buf, 0);
     r \<leftarrow> put_byte 45 r;
     r \<leftarrow> put_2 (bt_month bt) r;
     r \<leftarrow> put_byte 45 r;
     r \<leftarrow> put_2 (bt_day bt) r;
     r \<leftarrow> put_byte 84 r;
     r \<leftarrow> put_2 (bt_hour bt) r;
     r \<leftarrow> put_byte 58 r;
     r \<leftarrow> put_2 (bt_min bt) r;
     r \<leftarrow> put_byte 58 r;
     r \<leftarrow> put_2 (bt_sec bt) r;
     put_byte 90 r
   }"

definition emit_boottime :: "BootTime \<Rightarrow> bytes option" where
  "emit_boottime bt = whole_row 96 (\<lambda>r. do {
     r \<leftarrow> put_bytes (as_bytes ''  BOOTTIME|utc='') r;
     r \<leftarrow> at_slice (write_utc bt) r;
     r \<leftarrow> put_bytes (as_bytes ''|tsc='') r;
     r \<leftarrow> put_u64 (bt_tsc bt) r;
     put_bytes (as_bytes ''|src=cmos_rtc+tsc|e=0|json=0'' @ CRLF) r
   })"

text \<open>The wait for the update-in-progress bit; the result is the number of reads made so far.\<close>

function wait_update :: "(nat \<Rightarrow> u8 \<Rightarrow> u8) \<Rightarrow> nat \<Rightarrow> nat \<Rightarrow> nat" where
  "wait_update cmos n guard =
     (if and (cmos_read cmos n 0x0A) 0x80 \<noteq> 0 \<and> guard < 1000000 then wait_update cmos (n + 1) (guard + 1) else n + 1)"
  by pat_completeness auto
termination by (relation "measure (\<lambda>(cmos, n, guard). 1000000 - guard)") auto

declare wait_update.simps [simp del]

definition decode_time :: "u8 \<Rightarrow> u8 \<Rightarrow> u8 \<Rightarrow> u8 \<Rightarrow> u8 \<Rightarrow> u8 \<Rightarrow> u8 \<Rightarrow> u8 \<Rightarrow> u64 \<Rightarrow> BootTime" where
  "decode_time raw_sec raw_min raw_hour raw_day raw_month raw_year raw_century status_b tsc =
     (let is_bcd = and status_b 0x04 = 0;
          is_12h = and status_b 0x02 = 0;
          conv = (\<lambda>v. if is_bcd then bcd_to_bin v else v);
          sec = conv raw_sec;
          mins = conv raw_min;
          pm = is_12h \<and> and raw_hour 0x80 \<noteq> 0;
          hour = conv (and raw_hour 0x7F);
          hour = (if is_12h then
                    let hour = (if hour = 12 then 0 else hour)
                    in if pm then hour + 12 else hour
                  else hour);
          day = conv raw_day;
          month = conv raw_month;
          yy = ucast (conv raw_year) :: u16;
          century = (if raw_century \<noteq> 0 then ucast (conv raw_century) else 20) :: u16;
          year = century * 100 + yy
      in \<lparr>bt_year = year, bt_month = month, bt_day = day, bt_hour = hour, bt_min = mins, bt_sec = sec, bt_tsc = tsc\<rparr>)"

definition read_boot_time :: "(nat \<Rightarrow> u8 \<Rightarrow> u8) \<Rightarrow> u32 \<Rightarrow> u32 \<Rightarrow> (BootTime \<times> bytes) option" where
  "read_boot_time cmos hi lo =
     (let n = wait_update cmos 0 0;
          bt = decode_time (cmos_read cmos n 0x00) (cmos_read cmos (n + 1) 0x02) (cmos_read cmos (n + 2) 0x04)
                 (cmos_read cmos (n + 3) 0x07) (cmos_read cmos (n + 4) 0x08) (cmos_read cmos (n + 5) 0x09)
                 (cmos_read cmos (n + 6) 0x32) (cmos_read cmos (n + 7) 0x0B) (rdtsc hi lo)
      in do {
        row \<leftarrow> emit_boottime bt;
        Some (bt, row)
      })"

section \<open>The boot projection\<close>

definition bootproj_emit :: "bytes \<Rightarrow> BootTime \<Rightarrow> (bytes \<times> bytes) option" where
  "bootproj_emit device_digest bt = do {
     (pre, n) \<leftarrow> at_slice (write_utc bt) (copy_at 0 device_digest (replicate 72 0), 32);
     let pre = copy_at n (be_bytes 8 (bt_tsc bt)) pre;
     let n = n + 8;
     let digest = sha256 (take n pre);
     let boot_pid = take 8 digest;
     row \<leftarrow> whole_row 160 (\<lambda>r. do {
       r \<leftarrow> put_bytes (as_bytes ''  BOOTPROJ|boot_pid='') r;
       r \<leftarrow> put_hex_all boot_pid r;
       r \<leftarrow> put_bytes (as_bytes ''|device_pid='') r;
       r \<leftarrow> put_hex_all (take 8 device_digest) r;
       r \<leftarrow> put_bytes (as_bytes ''|utc='') r;
       r \<leftarrow> at_slice (write_utc bt) r;
       put_bytes (as_bytes ''|volatile=1|stable_ref=device_pid|e=0|fire=0|json=0'' @ CRLF) r
     });
     Some (boot_pid, row)
   }"

section \<open>The storage driver rows\<close>

definition rst_vmd_probe :: "HwSummary \<Rightarrow> bytes \<Rightarrow> BootTime \<Rightarrow> bytes \<Rightarrow> bytes option" where
  "rst_vmd_probe hw boot_pid bt seat = whole_row 256 (\<lambda>r. do {
     r \<leftarrow> put_bytes (as_bytes ''  BOOTDRIVER|driver=intel-rst-vmd|match=8086:282A|device_pid='') r;
     r \<leftarrow> put_hex_all (take 8 (hs_device_digest hw)) r;
     r \<leftarrow> put_bytes (as_bytes ''|boot_pid='') r;
     r \<leftarrow> put_hex_all boot_pid r;
     r \<leftarrow> put_bytes (as_bytes ''|utc='') r;
     r \<leftarrow> at_slice (write_utc bt) r;
     r \<leftarrow> put_bytes (as_bytes ''|seat='') r;
     r \<leftarrow> put_bytes seat r;
     r \<leftarrow> put_bytes (as_bytes ''|status='') r;
     r \<leftarrow> (if hs_rst_vmd hw then put_bytes (as_bytes ''GATED_MATCH|vmd_walk=TODO_next_step'')
          else put_bytes (as_bytes ''NOT_APPLICABLE|no_8086:282A_on_this_device'')) r;
     put_bytes (as_bytes ''|writes=0|e=0|fire=0|json=0'' @ CRLF) r
   })"

definition ahci_probe :: "HwSummary \<Rightarrow> bytes \<Rightarrow> BootTime \<Rightarrow> bytes \<Rightarrow> bytes option" where
  "ahci_probe hw boot_pid bt seat = whole_row 256 (\<lambda>r. do {
     r \<leftarrow> put_bytes (as_bytes ''  BOOTDRIVER|driver=sata-ahci|match=class01:06:01|device_pid='') r;
     r \<leftarrow> put_hex_all (take 8 (hs_device_digest hw)) r;
     r \<leftarrow> put_bytes (as_bytes ''|boot_pid='') r;
     r \<leftarrow> put_hex_all boot_pid r;
     r \<leftarrow> put_bytes (as_bytes ''|utc='') r;
     r \<leftarrow> at_slice (write_utc bt) r;
     r \<leftarrow> put_bytes (as_bytes ''|seat='') r;
     r \<leftarrow> put_bytes seat r;
     r \<leftarrow> put_bytes (as_bytes ''|status='') r;
     r \<leftarrow> (if hs_ahci hw then put_bytes (as_bytes ''GATED_MATCH|ahci_bringup=TODO_next_step'')
          else put_bytes (as_bytes ''NOT_APPLICABLE|no_sata_ahci_on_this_device'')) r;
     put_bytes (as_bytes ''|writes=0|e=0|fire=0|json=0'' @ CRLF) r
   })"

section \<open>The text of a time\<close>

definition digits2 :: "nat \<Rightarrow> string" where
  "digits2 n = [digit_char (n div 10 mod 10), digit_char (n mod 10)]"

definition utc_text :: "BootTime \<Rightarrow> string" where
  "utc_text bt = digits2 (unat (bt_year bt) div 100) @ digits2 (unat (bt_year bt)) @ ''-'' @
     digits2 (unat (bt_month bt)) @ ''-'' @ digits2 (unat (bt_day bt)) @ ''T'' @ digits2 (unat (bt_hour bt)) @ '':'' @
     digits2 (unat (bt_min bt)) @ '':'' @ digits2 (unat (bt_sec bt)) @ ''Z''"

lemma length_utc_text [simp]: "length (utc_text bt) = 20"
  by (simp add: utc_text_def digits2_def)

lemma digit8: "(48 :: u8) + (v div 10) mod 10 = of_char (digit_char (unat v div 10 mod 10))"
    "(48 :: u8) + v mod 10 = of_char (digit_char (unat v mod 10))" for v :: u8
proof -
  have *: "(48 :: u8) + w = of_char (digit_char (unat w))" if "unat w < 10" for w
    using digit_byte [OF that] by (simp add: as_bytes_def)
  have u: "unat ((v div 10) mod 10) = unat v div 10 mod 10" "unat (v mod 10) = unat v mod 10"
    by (simp_all add: unat_div unat_mod)
  show "(48 :: u8) + (v div 10) mod 10 = of_char (digit_char (unat v div 10 mod 10))"
    using * [of "(v div 10) mod 10"] u by simp
  show "(48 :: u8) + v mod 10 = of_char (digit_char (unat v mod 10))"
    using * [of "v mod 10"] u by simp
qed

lemma digit16: "(48 :: u8) + ucast (v mod 10) = of_char (digit_char (unat v mod 10))" for v :: u16
proof -
  have "unat (v mod 10) = unat v mod 10" by (simp add: unat_mod)
  moreover have "(ucast (v mod 10) :: u8) = word_of_nat (unat (v mod 10))" by simp
  ultimately show ?thesis using digit_byte [of "unat v mod 10"] by (simp add: as_bytes_def)
qed

lemma prints_put_2 [prints_intros]: "prints (put_2 v) (as_bytes (digits2 (unat v)))"
proof -
  have "prints (put_2 v) ([48 + (v div 10) mod 10] @ [48 + v mod 10])"
    unfolding put_2_def by (intro prints_intros)
  then show ?thesis by (simp add: digits2_def digit8 as_bytes_def unat_div)
qed

lemma prints_put_u4 [prints_intros]:
  "prints (put_u4 v) (as_bytes (digits2 (unat v div 100) @ digits2 (unat v)))"
proof -
  have "prints (put_u4 v) ([48 + ucast ((v div 1000) mod 10)] @ [48 + ucast ((v div 100) mod 10)] @
      [48 + ucast ((v div 10) mod 10)] @ [48 + ucast (v mod 10)])"
    unfolding put_u4_def by (intro prints_intros)
  moreover have "unat v div 1000 = unat v div 100 div 10" by (simp add: div_mult2_eq [symmetric])
  ultimately show ?thesis by (simp add: digits2_def digit16 as_bytes_def unat_div)
qed

lemma prints_write_utc [prints_intros]: "prints (at_slice (write_utc bt)) (as_bytes (utc_text bt))"
proof -
  have "prints (\<lambda>r. do {
     r \<leftarrow> put_u4 (bt_year bt) r;
     r \<leftarrow> put_byte 45 r;
     r \<leftarrow> put_2 (bt_month bt) r;
     r \<leftarrow> put_byte 45 r;
     r \<leftarrow> put_2 (bt_day bt) r;
     r \<leftarrow> put_byte 84 r;
     r \<leftarrow> put_2 (bt_hour bt) r;
     r \<leftarrow> put_byte 58 r;
     r \<leftarrow> put_2 (bt_min bt) r;
     r \<leftarrow> put_byte 58 r;
     r \<leftarrow> put_2 (bt_sec bt) r;
     put_byte 90 r
   }) (as_bytes (utc_text bt))"
    by (rule prints_text, (rule prints_intros)+) (simp add: utc_text_def as_bytes_def)
  from prints_at_slice [OF this] show ?thesis unfolding write_utc_def [abs_def] .
qed

section \<open>Registers that hold a civil time\<close>

text \<open>How a clock chip stores a number below 100 and an hour, in binary or BCD and in 24- or 12-hour mode.\<close>

definition reg_of :: "bool \<Rightarrow> nat \<Rightarrow> u8" where
  "reg_of bcd n = word_of_nat (if bcd then n div 10 * 16 + n mod 10 else n)"

definition hour_reg :: "bool \<Rightarrow> bool \<Rightarrow> nat \<Rightarrow> u8" where
  "hour_reg bcd h12 h =
     (if h12 then or (reg_of bcd (if h mod 12 = 0 then 12 else h mod 12)) (if 12 \<le> h then 0x80 else 0) else reg_of bcd h)"

definition decode_hour :: "bool \<Rightarrow> bool \<Rightarrow> u8 \<Rightarrow> u8" where
  "decode_hour bcd h12 raw =
     (let hour = (if bcd then bcd_to_bin (and raw 0x7F) else and raw 0x7F)
      in if h12 then (if and raw 0x80 \<noteq> 0 then (if hour = 12 then 0 else hour) + 12 else if hour = 12 then 0 else hour) else hour)"

lemma reg_of_bcd: "n < 100 \<Longrightarrow> bcd_to_bin (reg_of True n) = word_of_nat n"
proof -
  have "list_all (\<lambda>n. bcd_to_bin (reg_of True n) = word_of_nat n) [0..<100]" by code_simp
  then show "n < 100 \<Longrightarrow> bcd_to_bin (reg_of True n) = word_of_nat n" by (simp add: list_all_iff del: upt_rec_numeral)
qed

lemma conv_reg_of: "n < 100 \<Longrightarrow> (if bcd then bcd_to_bin (reg_of bcd n) else reg_of bcd n) = word_of_nat n"
  using reg_of_bcd [of n] by (cases bcd) (simp_all add: reg_of_def)

lemma decode_hour_reg: "h < 24 \<Longrightarrow> decode_hour bcd h12 (hour_reg bcd h12 h) = word_of_nat h"
proof -
  have "list_all (\<lambda>h. list_all (\<lambda>bcd. list_all (\<lambda>h12. decode_hour bcd h12 (hour_reg bcd h12 h) = word_of_nat h)
      [False, True]) [False, True]) [0..<24]" by code_simp
  then have "\<forall>h < 24. \<forall>bcd h12. decode_hour bcd h12 (hour_reg bcd h12 h) = word_of_nat h"
    by (simp add: list_all_iff all_bool_eq del: upt_rec_numeral)
  then show "h < 24 \<Longrightarrow> decode_hour bcd h12 (hour_reg bcd h12 h) = word_of_nat h" by blast
qed

lemma reg_of_century: "0 < c \<Longrightarrow> c < 100 \<Longrightarrow> reg_of bcd c \<noteq> 0"
proof -
  have "list_all (\<lambda>n. reg_of True n \<noteq> 0 \<and> reg_of False n \<noteq> 0) [1..<100]" by code_simp
  then show "0 < c \<Longrightarrow> c < 100 \<Longrightarrow> reg_of bcd c \<noteq> 0"
    by (cases bcd) (auto simp: list_all_iff simp del: upt_rec_numeral)
qed

lemma decode_time_split:
  "decode_time raw_sec raw_min raw_hour raw_day raw_month raw_year raw_century s tsc =
     (let conv = (\<lambda>v. if and s 4 = 0 then bcd_to_bin v else v)
      in \<lparr>bt_year = (if raw_century \<noteq> 0 then ucast (conv raw_century) else 20) * 100 + ucast (conv raw_year),
          bt_month = conv raw_month, bt_day = conv raw_day, bt_hour = decode_hour (and s 4 = 0) (and s 2 = 0) raw_hour,
          bt_min = conv raw_min, bt_sec = conv raw_sec, bt_tsc = tsc\<rparr>)"
  by (simp add: decode_time_def decode_hour_def Let_def)

definition boottime_text :: "BootTime \<Rightarrow> bytes" where
  "boottime_text bt = as_bytes (''  BOOTTIME|utc='' @ utc_text bt @ ''|tsc='' @ decimal (unat (bt_tsc bt)) @
     ''|src=cmos_rtc+tsc|e=0|json=0'') @ CRLF"

lemma emit_boottime_text: "emit_boottime bt = Some (boottime_text bt)"
proof -
  have d: "length (decimal (unat (bt_tsc bt))) \<le> 20"
    using unsigned_less [of "bt_tsc bt", where ?'a = nat] by (intro length_decimal_u64) simp_all
  show ?thesis unfolding emit_boottime_def
    by (rule whole_row_text, (rule prints_intros)+) (use d in \<open>simp_all add: boottime_text_def CRLF_def as_bytes_def\<close>)
qed

section \<open>Properties\<close>


text \<open>A BCD chip in 12-hour mode that holds 2026-07-09 23:05:07.\<close>

definition sample_cmos :: "nat \<Rightarrow> u8 \<Rightarrow> u8" where
  "sample_cmos n reg = (if reg = 0 then 0x07 else if reg = 2 then 0x05 else if reg = 4 then 0x91 else if reg = 7 then 0x09
     else if reg = 8 then 0x07 else if reg = 9 then 0x26 else if reg = 0x32 then 0x20 else 0)"


lemma bootproj_emit_text:
  assumes "length d = 32"
  defines "pid \<equiv> \<lambda>bt. take 8 (fips_sha256 (d @ as_bytes (utc_text bt) @ be_bytes 8 (bt_tsc bt)))"
  shows "bootproj_emit d bt = Some (pid bt, as_bytes (''  BOOTPROJ|boot_pid='' @ hex_bytes (pid bt) @ ''|device_pid='' @
    hex_bytes (take 8 d) @ ''|utc='' @ utc_text bt @ ''|volatile=1|stable_ref=device_pid|e=0|fire=0|json=0'') @ CRLF)"
proof -
  let ?buf = "copy_at 0 d (replicate 72 0)" and ?utc = "as_bytes (utc_text bt)" and ?tsc = "be_bytes 8 (bt_tsc bt)"
  have w: "at_slice (write_utc bt) (?buf, 32) = Some (copy_at 32 ?utc ?buf, 52)"
    using prints_write_utc [of bt] assms(1) by (simp add: prints_def)
  have "take 60 (copy_at 52 ?tsc (copy_at 32 ?utc ?buf)) = d @ ?utc @ ?tsc" using assms(1) by (simp add: copy_at_def)
  then have h: "take 8 (sha256 (take 60 (copy_at 52 ?tsc (copy_at 32 ?utc ?buf)))) = pid bt"
    using assms(1) by (simp add: pid_def sha256_eq_fips TUPLE_CAP_def)
  have l: "length (pid bt) = 8" by (simp add: pid_def length_fips_sha256)
  have "whole_row 160 (\<lambda>r. do {
       r \<leftarrow> put_bytes (as_bytes ''  BOOTPROJ|boot_pid='') r;
       r \<leftarrow> put_hex_all (pid bt) r;
       r \<leftarrow> put_bytes (as_bytes ''|device_pid='') r;
       r \<leftarrow> put_hex_all (take 8 d) r;
       r \<leftarrow> put_bytes (as_bytes ''|utc='') r;
       r \<leftarrow> at_slice (write_utc bt) r;
       put_bytes (as_bytes ''|volatile=1|stable_ref=device_pid|e=0|fire=0|json=0'' @ CRLF) r
     }) = Some (as_bytes (''  BOOTPROJ|boot_pid='' @ hex_bytes (pid bt) @ ''|device_pid='' @ hex_bytes (take 8 d) @
            ''|utc='' @ utc_text bt @ ''|volatile=1|stable_ref=device_pid|e=0|fire=0|json=0'') @ CRLF)"
    by (rule whole_row_text, (rule prints_intros)+) (use l assms(1) in \<open>simp_all add: CRLF_def as_bytes_def\<close>)
  then show ?thesis by (simp add: bootproj_emit_def Let_def w h)
qed

text \<open>the boot projection. From a 32-byte device digest it returns the first 8 bytes of SHA-256 (FIPS 180-4) over
  digest, printed time and time stamp counter, and prints its row without a panic. The hashed bytes
  determine all three, so two boots share a boot PID only through a collision of the truncated hash or
  when device, printed time and counter agree.\<close>

theorem boot_projection:
  assumes "length d = 32" and "length d' = 32"
  shows "bootproj_emit d bt =
      (let pid = take 8 (fips_sha256 (d @ as_bytes (utc_text bt) @ be_bytes 8 (bt_tsc bt)))
       in Some (pid, as_bytes (''  BOOTPROJ|boot_pid='' @ hex_bytes pid @ ''|device_pid='' @ hex_bytes (take 8 d) @
            ''|utc='' @ utc_text bt @ ''|volatile=1|stable_ref=device_pid|e=0|fire=0|json=0'') @ CRLF)) \<and>
    (d @ as_bytes (utc_text bt) @ be_bytes 8 (bt_tsc bt) = d' @ as_bytes (utc_text bt') @ be_bytes 8 (bt_tsc bt') \<longleftrightarrow>
      d = d' \<and> utc_text bt = utc_text bt' \<and> bt_tsc bt = bt_tsc bt')"
proof -
  have "be_bytes 8 (bt_tsc bt) = be_bytes 8 (bt_tsc bt') \<longleftrightarrow> bt_tsc bt = bt_tsc bt'" by (simp add: be_bytes_inj)
  then show ?thesis using assms bootproj_emit_text [OF assms(1), of bt] by (simp add: Let_def)
qed

theorem boot_projection_witness:
  "\<exists>r. bootproj_emit (replicate 32 0) (decode_time 1 2 3 4 5 6 7 0 9) = Some r"
  using boot_projection [of "replicate 32 0" "replicate 32 0" "decode_time 1 2 3 4 5 6 7 0 9"] by (simp add: Let_def)

text \<open>The driver rows.\<close>

definition driver_text :: "string \<Rightarrow> HwSummary \<Rightarrow> bytes \<Rightarrow> BootTime \<Rightarrow> bytes \<Rightarrow> string \<Rightarrow> bytes" where
  "driver_text driver hw pid bt seat status =
     as_bytes (''  BOOTDRIVER|driver='' @ driver @ ''|device_pid='' @ hex_bytes (take 8 (hs_device_digest hw)) @ ''|boot_pid='' @
       hex_bytes pid @ ''|utc='' @ utc_text bt @ ''|seat='') @ seat @
     as_bytes (''|status='' @ status @ ''|writes=0|e=0|fire=0|json=0'') @ CRLF"

lemma rst_vmd_probe_text:
  assumes "length pid = 8" and "length seat \<le> 43"
  shows "rst_vmd_probe hw pid bt seat = Some (driver_text ''intel-rst-vmd|match=8086:282A'' hw pid bt seat
      (if hs_rst_vmd hw then ''GATED_MATCH|vmd_walk=TODO_next_step'' else ''NOT_APPLICABLE|no_8086:282A_on_this_device''))"
  unfolding rst_vmd_probe_def
  by (rule whole_row_text, (rule prints_intros)+) (use assms in \<open>simp_all add: driver_text_def CRLF_def as_bytes_def min_def\<close>)

lemma ahci_probe_text:
  assumes "length pid = 8" and "length seat \<le> 43"
  shows "ahci_probe hw pid bt seat = Some (driver_text ''sata-ahci|match=class01:06:01'' hw pid bt seat
      (if hs_ahci hw then ''GATED_MATCH|ahci_bringup=TODO_next_step'' else ''NOT_APPLICABLE|no_sata_ahci_on_this_device''))"
  unfolding ahci_probe_def
  by (rule whole_row_text, (rule prints_intros)+) (use assms in \<open>simp_all add: driver_text_def CRLF_def as_bytes_def min_def\<close>)

end
