(* ===== verification/Boot_Main.thy ===== *)
theory Boot_Main
  imports Boot_Clock Boot_Diag Frame_Alloc
begin

text \<open>
  The UEFI entry of the boot crate (\<^verbatim>\<open>kernel/boot/src/main.rs\<close>) and the seat its build script selects
  (\<^verbatim>\<open>kernel/boot/build.rs\<close>): the boot heap, painting of the boot screen, and \<open>efi_main\<close> up to the hand-over to
  \<open>init\<close>. What the firmware offers is a record of the fields the code reads; the framebuffer is the list
  of its pixels, and a write past it, which is undefined behaviour in the code, is \<open>None\<close>, as is a panic.
\<close>

section \<open>The boot heap\<close>

record BumpAllocator =
  heap_start :: usize
  heap_end :: usize
  heap_next :: usize

definition HEAP_SIZE :: usize where "HEAP_SIZE = 16 * 1024"

definition bump_new :: BumpAllocator where
  "bump_new = \<lparr>heap_start = 0, heap_end = 0, heap_next = 0\<rparr>"

definition bump_init :: "usize \<Rightarrow> usize \<Rightarrow> BumpAllocator \<Rightarrow> BumpAllocator" where
  "bump_init start sz h = h\<lparr>heap_start := start, heap_end := start + sz, heap_next := start\<rparr>"

text \<open>One thread: the compare-exchange succeeds with the value just loaded. \<open>None\<close> is the null pointer.\<close>

definition bump_alloc :: "usize \<times> usize \<Rightarrow> BumpAllocator \<Rightarrow> usize option \<times> BumpAllocator" where
  "bump_alloc layout h =
     (let (align, sz) = layout;
          current = heap_next h;
          aligned = and (current + align - 1) (not (align - 1));
          new_next = aligned + sz
      in if new_next > heap_end h then (None, h) else (Some aligned, h\<lparr>heap_next := new_next\<rparr>))"

definition bump_dealloc :: "usize \<Rightarrow> usize \<times> usize \<Rightarrow> BumpAllocator \<Rightarrow> BumpAllocator" where
  "bump_dealloc ptr layout h = h"

section \<open>Painting\<close>

text \<open>A \<open>for\<close> loop whose body may fail.\<close>

fun each :: "('a \<Rightarrow> 's \<Rightarrow> 's option) \<Rightarrow> 'a list \<Rightarrow> 's \<Rightarrow> 's option" where
  "each f [] s = Some s"
| "each f (x # xs) s = do { s \<leftarrow> f x s; each f xs s }"

definition range32 :: "u32 \<Rightarrow> u32 \<Rightarrow> u32 list" where
  "range32 a b = map word_of_nat [unat a..<unat b]"

definition fb_write :: "nat \<Rightarrow> u32 \<Rightarrow> u32 list \<Rightarrow> u32 list option" where
  "fb_write i color fb = (if i < length fb then Some (fb[i := color]) else None)"

definition pack :: "u32 \<Rightarrow> u32 \<Rightarrow> u32 \<Rightarrow> u32 \<Rightarrow> u32" where
  "pack fmt r g b =
     (if fmt = 0 then or (or (push_bit 16 b) (push_bit 8 g)) r else or (or (push_bit 16 r) (push_bit 8 g)) b)"

definition fb_glyph :: "char \<Rightarrow> bytes" where
  "fb_glyph c =
     (if c = CHR ''A'' then [0x38, 0x6C, 0xC6, 0xC6, 0xFE, 0xC6, 0xC6, 0x00]
      else if c = CHR ''S'' then [0x7C, 0xC6, 0xC0, 0x7C, 0x06, 0xC6, 0x7C, 0x00]
      else if c = CHR ''O'' then [0x7C, 0xC6, 0xC6, 0xC6, 0xC6, 0xC6, 0x7C, 0x00]
      else if c = CHR ''L'' then [0xC0, 0xC0, 0xC0, 0xC0, 0xC0, 0xC6, 0xFE, 0x00]
      else if c = CHR ''R'' then [0xFC, 0xC6, 0xC6, 0xFC, 0xD8, 0xCC, 0xC6, 0x00]
      else if c = CHR ''I'' then [0x7C, 0x18, 0x18, 0x18, 0x18, 0x18, 0x7C, 0x00]
      else replicate 8 0)"

definition fb_fill :: "u32 \<Rightarrow> u32 \<Rightarrow> u32 \<Rightarrow> u32 \<Rightarrow> u32 list \<Rightarrow> u32 list option" where
  "fb_fill pps w h color =
     each (\<lambda>y. each (\<lambda>x. fb_write (unat (y * pps) + unat x) color) (range32 0 w)) (range32 0 h)"

definition fb_char :: "u32 \<Rightarrow> char \<Rightarrow> u32 \<Rightarrow> u32 \<Rightarrow> u32 \<Rightarrow> u32 \<Rightarrow> u32 list \<Rightarrow> u32 list option" where
  "fb_char pps c cx y0 scale color =
     each (\<lambda>(row, bits).
       each (\<lambda>col.
         if and bits (drop_bit (unat col) 0x80) \<noteq> 0 then
           each (\<lambda>dy. each (\<lambda>dx.
             let px = cx + col * scale + dx;
                 py = y0 + word_of_nat row * scale + dy
             in fb_write (unat (py * pps + px)) color) (range32 0 scale)) (range32 0 scale)
         else Some) (range32 0 8)) (enumerate 0 (fb_glyph c))"

fun fb_string :: "u32 \<Rightarrow> string \<Rightarrow> u32 \<Rightarrow> u32 \<Rightarrow> u32 \<Rightarrow> u32 \<Rightarrow> u32 list \<Rightarrow> u32 list option" where
  "fb_string pps [] cx y0 scale color fb = Some fb"
| "fb_string pps (c # s) cx y0 scale color fb = do {
     fb \<leftarrow> fb_char pps c cx y0 scale color fb;
     fb_string pps s (cx + 9 * scale) y0 scale color fb
   }"

definition TITLE :: string where "TITLE = ''ASOLARIA ASI OS''"

definition title_scale :: "u32 \<Rightarrow> u32" where
  "title_scale w = (if w \<ge> 1024 then 8 else 4)"

definition title_width :: "u32 \<Rightarrow> u32" where
  "title_width w = word_of_nat (length TITLE) * 9 * title_scale w"

definition saturating_sub :: "u32 \<Rightarrow> u32 \<Rightarrow> u32" where
  "saturating_sub a b = (if b \<le> a then a - b else 0)"

definition title_x :: "u32 \<Rightarrow> u32" where
  "title_x w = saturating_sub w (title_width w) div 2"

definition paint_screen :: "u32 \<Rightarrow> u32 \<Rightarrow> u32 \<Rightarrow> u32 \<Rightarrow> u32 list \<Rightarrow> u32 list option" where
  "paint_screen w h pps fmt fb =
     (let bg = pack fmt 0x05 0x07 0x0D;
          cyan = pack fmt 0x43 0xE8 0xD8;
          amber = pack fmt 0xFF 0xB4 0x54
      in do {
        fb \<leftarrow> fb_fill pps w h bg fb;
        let scale = title_scale w;
        let tw = title_width w;
        let tx = title_x w;
        let ty = h div 2 - 4 * scale;
        let bar_top = saturating_sub ty (3 * scale);
        fb \<leftarrow> each (\<lambda>yy. each (\<lambda>xx. fb_write (unat (yy * pps + xx)) amber) (range32 tx (tx + tw)))
               (range32 bar_top (bar_top + scale)) fb;
        fb_string pps TITLE tx ty scale cyan fb
      })"

section \<open>The entry\<close>

record GopMode =
  gop_width :: u32
  gop_height :: u32
  gop_pps :: u32
  gop_format :: u32
  gop_base :: u64
  gop_size :: usize

text \<open>The firmware: whether the system table, its console and its boot services are there, and what
  \<open>locate_protocol\<close> gives for the graphics protocol (nothing, a protocol without mode information, or its mode).\<close>

record Firmware =
  fw_table :: bool
  fw_con_out :: bool
  fw_boot_services :: bool
  fw_gop :: "GopMode option option"

record boot_io =
  serial :: bytes
  console :: "u16 list list"
  pixels :: "u32 list"

definition serial_print :: "bytes \<Rightarrow> boot_io \<Rightarrow> boot_io" where
  "serial_print msg io = io\<lparr>serial := serial io @ msg\<rparr>"

definition uefi_print :: "Firmware \<Rightarrow> bytes \<Rightarrow> boot_io \<Rightarrow> boot_io" where
  "uefi_print fw msg io =
     (if \<not> fw_table fw \<or> \<not> fw_con_out fw then io
      else io\<lparr>console := console io @ [map ucast (take 1023 msg) @ [0]]\<rparr>)"

definition pixel_format_of :: "u32 \<Rightarrow> PixelFormat" where
  "pixel_format_of fmt =
     (if fmt = 0 then Rgb else if fmt = 1 then Bgr else if fmt = 2 then Bitmask else if fmt = 3 then BltOnly
      else PixelFormat.Unknown)"

definition layout_ok :: "GopMode \<Rightarrow> bool" where
  "layout_ok m =
     (let min_framebuffer_bytes = saturating_mul (saturating_mul (ucast (gop_pps m)) (ucast (gop_height m))) 4 :: usize
      in gop_pps m \<ge> gop_width m \<and> gop_size m \<ge> min_framebuffer_bytes)"

definition observe_mode :: "GopMode \<Rightarrow> FramebufferObservation" where
  "observe_mode m = framebuffer_new (gop_width m) (gop_height m) (pixel_format_of (gop_format m)) (gop_size m)
     (gop_base m \<noteq> 0) (layout_ok m)"

definition paint_mode :: "GopMode \<Rightarrow> boot_io \<Rightarrow> boot_io option" where
  "paint_mode m io =
     (if gop_base m \<noteq> 0 \<and> layout_ok m \<and> is_direct_framebuffer (pixel_format_of (gop_format m)) \<and>
         gop_width m \<ge> 320 \<and> gop_height m \<ge> 200
      then do {
        fb \<leftarrow> paint_screen (gop_width m) (gop_height m) (gop_pps m) (gop_format m) (pixels io);
        Some (io\<lparr>pixels := fb\<rparr>)
      }
      else Some io)"

definition take_display :: "Firmware \<Rightarrow> boot_io \<Rightarrow> (BootObservations \<times> boot_io) option" where
  "take_display fw io =
     (let boot_obs = \<lparr>uefi_system_table_present = fw_table fw,
            con_out_present = (fw_table fw \<and> fw_con_out fw),
            boot_services_present = (fw_table fw \<and> fw_boot_services fw),
            gop_located = False, framebuffer = ABSENT, secure_boot = SecureBootState.Unknown,
            loader_path = LoaderPathClass.Unknown\<rparr>
      in if fw_table fw \<and> fw_boot_services fw then
           (case fw_gop fw of
              None \<Rightarrow> Some (boot_obs, io)
            | Some None \<Rightarrow> Some (boot_obs\<lparr>gop_located := True\<rparr>, io)
            | Some (Some m) \<Rightarrow> do {
                io \<leftarrow> paint_mode m io;
                Some (boot_obs\<lparr>gop_located := True, framebuffer := observe_mode m\<rparr>, io)
              })
         else Some (boot_obs, io))"

definition report_status :: "Firmware \<Rightarrow> BootObservations \<Rightarrow> boot_io \<Rightarrow> boot_io" where
  "report_status fw boot_obs io =
     (case render_status_line boot_obs (replicate 384 0) of
        (Ok diag_len, diag_buf) \<Rightarrow>
          let io = serial_print (take (unat diag_len) diag_buf) io;
              io = serial_print CRLF io;
              io = uefi_print fw (take (unat diag_len) diag_buf) io
          in uefi_print fw CRLF io
      | (Err _, _) \<Rightarrow>
          serial_print (as_bytes ''ASOBTDIAG|format=hbpish|evidence=MEASURED_BOOT|source=uefi|seat=unknown|receipt=unsealed|tuple=boot:diag:early|stage=render-buffer-too-small'' @ CRLF) io)"

definition identity_chain :: "(u32 \<Rightarrow> u32) \<Rightarrow> (nat \<Rightarrow> u8 \<Rightarrow> u8) \<Rightarrow> u32 \<Rightarrow> u32 \<Rightarrow> bytes \<Rightarrow> boot_io \<Rightarrow> boot_io option" where
  "identity_chain pci cmos hi lo seat io =
     (case pci_scan pci seat of
        Returned hw log \<Rightarrow> do {
          let io = serial_print log io;
          (boot_time, row) \<leftarrow> read_boot_time cmos hi lo;
          let io = serial_print row io;
          (boot_pid, row) \<leftarrow> bootproj_emit (hs_device_digest hw) boot_time;
          let io = serial_print row io;
          row \<leftarrow> rst_vmd_probe hw boot_pid boot_time seat;
          let io = serial_print row io;
          row \<leftarrow> ahci_probe hw boot_pid boot_time seat;
          Some (serial_print row io)
        }
      | _ \<Rightarrow> None)"

definition BANNER1 :: bytes where
  "BANNER1 = CRLF @ as_bytes ''  ASOLARIA ASI OS   .   kernel 0.2.0-phase3-scaffold   .   booting'' @ CRLF"

definition BANNER2 :: bytes where
  "BANNER2 = as_bytes ''  federation-1024   .   envelope-REPL init   .   E=0   .   fire=0'' @ CRLF @ CRLF"

text \<open>\<open>efi_main\<close> up to the call of \<open>init::run\<close>, which does not return; \<open>heap\<close> is the address of the static arena.\<close>

definition efi_main :: "Firmware \<Rightarrow> (u32 \<Rightarrow> u32) \<Rightarrow> (nat \<Rightarrow> u8 \<Rightarrow> u8) \<Rightarrow> u32 \<Rightarrow> u32 \<Rightarrow> bytes \<Rightarrow> bytes \<Rightarrow> usize \<Rightarrow> boot_io \<Rightarrow>
    (boot_io \<times> BumpAllocator) option" where
  "efi_main fw pci cmos hi lo seat seat_row heap io = do {
     let io = serial_print BANNER1 io;
     let io = serial_print BANNER2 io;
     let io = uefi_print fw BANNER1 io;
     let io = uefi_print fw BANNER2 io;
     (boot_obs, io) \<leftarrow> take_display fw io;
     let io = report_status fw boot_obs io;
     let io = serial_print seat_row io;
     let io = serial_print CRLF io;
     let io = uefi_print fw seat_row io;
     let io = uefi_print fw CRLF io;
     io \<leftarrow> identity_chain pci cmos hi lo seat io;
     Some (io, bump_init heap HEAP_SIZE bump_new)
   }"

section \<open>The seat of a build\<close>

text \<open>\<open>build.rs\<close>: the seat label and its row, or \<open>None\<close> when an assertion stops the build. \<open>trim\<close> is \<open>str::trim\<close>.\<close>

definition build_seat :: "(string \<Rightarrow> string) \<Rightarrow> string option \<Rightarrow> (bytes \<times> bytes) option" where
  "build_seat trim env =
     (let seat = trim (case env of Some s \<Rightarrow> s | None \<Rightarrow> ''liris'')
      in if seat = [] then None
         else if \<not> length seat \<le> 32 then None
         else if \<not> list_all (\<lambda>b. is_ascii_lowercase b \<or> is_ascii_digit b \<or> b = CHR ''-'') seat then None
         else Some (as_bytes seat,
           as_bytes (''ASOBTID|format=hbpish|evidence=BUILD_TIME_SEAT_CONTEXT|source=uefi|seat='' @ seat @
             ''|device_identity=runtime-pci-60d|boot_identity=runtime-rtc-tsc|authority=unsealed|e=0|fire=0|json=0'')))"

section \<open>The heap is a bump allocator\<close>

definition layout_fits :: "usize \<times> usize \<Rightarrow> bool" where
  "layout_fits layout = (case layout of (align, sz) \<Rightarrow> (\<exists>k < 62. align = push_bit k 1) \<and> unat sz < 2 ^ 62)"

lemma unat_align: "k < 62 \<Longrightarrow> unat (push_bit k 1 :: usize) = 2 ^ k"
proof -
  assume k: "k < 62"
  then have "(2 :: nat) ^ k \<le> 2 ^ 62" by (intro power_increasing) simp_all
  then show "unat (push_bit k 1 :: usize) = 2 ^ k"
    using k by (simp only: unsigned_push_bit_eq unsigned_1) (simp add: push_bit_eq_mult take_bit_nat_eq_self)
qed

lemma align_up:
  fixes c :: usize
  assumes "k < 62" and "unat c < 2 ^ 62"
  defines "a \<equiv> push_bit k 1 :: usize"
  shows "unat (and (c + a - 1) (not (a - 1))) = (unat c + 2 ^ k - 1) div 2 ^ k * 2 ^ k"
proof -
  have m: "a - 1 = mask k" by (simp add: a_def mask_eq_exp_minus_1 push_bit_eq_mult)
  have p: "(2 :: nat) ^ k \<le> 2 ^ 62" using assms(1) by (intro power_increasing) simp_all
  have x: "c + a - 1 = c + mask k" using m by (simp add: algebra_simps)
  have "unat a = 2 ^ k" unfolding a_def by (rule unat_align [OF assms(1)])
  then have "unat (a - 1) = 2 ^ k - 1" by (subst unat_minus_one) auto
  then have s: "unat (c + a - 1) = unat c + 2 ^ k - 1"
    using assms(2) p unfolding x m by (simp add: unat_word_ariths)
  have "and (c + a - 1) (not (mask k)) = push_bit k (drop_bit k (c + a - 1))"
    by (simp add: bit_eq_iff bit_simps) (auto simp: not_le)
  moreover have "(unat c + 2 ^ k - 1) div 2 ^ k * 2 ^ k < 2 ^ 64"
    by (rule le_less_trans [OF div_times_less_eq_dividend]) (use assms(2) p in simp)
  ultimately show ?thesis
    unfolding m by (simp only: unsigned_push_bit_eq unat_drop_bit_eq s) (simp add: push_bit_eq_mult drop_bit_eq_div take_bit_nat_eq_self)
qed

lemma align_up_bounds:
  "n \<le> (n + 2 ^ k - 1) div 2 ^ k * 2 ^ k" "(n + 2 ^ k - 1) div 2 ^ k * 2 ^ k < n + 2 ^ k" for n k :: nat
proof -
  let ?x = "n + 2 ^ k - 1"
  have "?x mod 2 ^ k < 2 ^ k" by simp
  moreover have "?x div 2 ^ k * 2 ^ k + ?x mod 2 ^ k = ?x" by (rule div_mult_mod_eq)
  moreover have "0 < (2 :: nat) ^ k" by simp
  ultimately show "n \<le> ?x div 2 ^ k * 2 ^ k" "?x div 2 ^ k * 2 ^ k < n + 2 ^ k" by linarith+
qed

lemma bump_alloc_Some:
  assumes "bump_alloc (push_bit k 1, sz) h = (Some p, h')" and "k < 62" and "unat sz < 2 ^ 62" and "unat (heap_next h) < 2 ^ 62"
  shows "unat (heap_next h) \<le> unat p" and "2 ^ k dvd unat p" and "unat p + unat sz = unat (heap_next h')"
    and "unat (heap_next h') \<le> unat (heap_end h)" and "heap_end h' = heap_end h"
proof -
  let ?p = "and (heap_next h + push_bit k 1 - 1) (not (push_bit k 1 - 1)) :: usize"
  note u = align_up [OF assms(2,4)]
  have e: "?p + sz \<le> heap_end h" "p = ?p" "h' = h\<lparr>heap_next := ?p + sz\<rparr>"
    using assms(1) by (auto simp: bump_alloc_def Let_def not_less split: if_splits)
  have "(2 :: nat) ^ k \<le> 2 ^ 61" using assms(2) by (intro power_increasing) simp_all
  moreover have "unat ?p < unat (heap_next h) + 2 ^ k" unfolding u by (rule align_up_bounds)
  ultimately have "unat ?p + unat sz < 2 ^ 64" using assms(3,4) by simp
  then have s: "unat (?p + sz) = unat ?p + unat sz" by (simp add: unat_word_ariths)
  show "unat (heap_next h) \<le> unat p" unfolding e u by (rule align_up_bounds)
  show "2 ^ k dvd unat p" unfolding e u by simp
  show "unat p + unat sz = unat (heap_next h')" using s e by simp
  show "unat (heap_next h') \<le> unat (heap_end h)" using e by (simp add: word_le_nat_alt)
  show "heap_end h' = heap_end h" using e by simp
qed

definition heap_alloc_nat :: "usize \<Rightarrow> usize \<times> usize \<Rightarrow> nat \<Rightarrow> nat option \<times> nat" where
  "heap_alloc_nat e layout n =
     (if n < 2 ^ 62 then
        case bump_alloc layout \<lparr>heap_start = 0, heap_end = e, heap_next = word_of_nat n\<rparr> of
          (Some p, h) \<Rightarrow> (Some (unat p), unat (heap_next h))
        | (None, _) \<Rightarrow> (None, n)
      else (None, n))"

interpretation boot_heap: bump_allocator "heap_alloc_nat e" "\<lambda>(align, sz). unat sz" layout_fits 0 "unat e" for e
proof
  fix r n n' assume "heap_alloc_nat e r n = (None, n')"
  then show "n' = n" by (auto simp: heap_alloc_nat_def split: if_splits prod.splits option.splits)
next
  fix r n p n' assume run: "heap_alloc_nat e r n = (Some p, n')" and fits: "layout_fits r"
  obtain k sz where r: "r = (push_bit k 1, sz)" "k < 62" "unat sz < 2 ^ 62"
    using fits by (auto simp: layout_fits_def split: prod.splits)
  let ?h = "\<lparr>heap_start = 0, heap_end = e, heap_next = word_of_nat n\<rparr>"
  have n: "n < 2 ^ 62" using run by (simp add: heap_alloc_nat_def split: if_splits)
  then have u: "unat (word_of_nat n :: usize) = n" by (simp add: unat_of_nat)
  obtain q h where q: "bump_alloc r ?h = (Some q, h)" "p = unat q" "n' = unat (heap_next h)"
    using run n by (auto simp: heap_alloc_nat_def split: prod.splits option.splits)
  have "unat (heap_next ?h) < 2 ^ 62" using n u by simp
  from bump_alloc_Some [OF q(1) [unfolded r] r(2,3) this] u q r show
    "n \<le> p \<and> p + (case r of (align, sz) \<Rightarrow> unat sz) \<le> n' \<and> n' \<le> unat e" by simp
qed

text \<open>The blocks a sequence of requests is given.\<close>

fun heap_run :: "(usize \<times> usize) list \<Rightarrow> BumpAllocator \<Rightarrow> ((usize \<times> usize) \<times> usize) list" where
  "heap_run [] h = []"
| "heap_run (l # ls) h =
     (case bump_alloc l h of
        (Some p, h) \<Rightarrow> (l, p) # heap_run ls h
      | (None, h) \<Rightarrow> heap_run ls h)"

definition span :: "(usize \<times> usize) \<times> usize \<Rightarrow> nat \<times> nat" where
  "span = (\<lambda>((align, sz), p). (unat p, unat sz))"

lemma heap_run_blocks:
  "list_all layout_fits ls \<Longrightarrow> heap_next h \<le> heap_end h \<Longrightarrow> unat (heap_end h) < 2 ^ 62 \<Longrightarrow>
   map span (heap_run ls h) = boot_heap.blocks (heap_end h) ls (unat (heap_next h)) \<and>
   list_all (\<lambda>((align, sz), p). unat align dvd unat p) (heap_run ls h)"
proof (induction ls arbitrary: h)
  case (Cons l ls)
  obtain k sz where l: "l = (push_bit k 1, sz)" "k < 62" "unat sz < 2 ^ 62"
    using Cons.prems(1) by (auto simp: layout_fits_def split: prod.splits)
  have n: "unat (heap_next h) < 2 ^ 62" using Cons.prems(2,3) by (simp add: word_le_nat_alt)
  have same: "heap_alloc_nat (heap_end h) l (unat (heap_next h)) =
      (case bump_alloc l h of (Some p, h') \<Rightarrow> (Some (unat p), unat (heap_next h')) | (None, _) \<Rightarrow> (None, unat (heap_next h)))"
    using n by (cases l) (simp add: heap_alloc_nat_def bump_alloc_def Let_def)
  show ?case
  proof (cases "bump_alloc l h")
    case (Pair r h')
    show ?thesis
    proof (cases r)
      case None
      then have "h' = h" using Pair by (auto simp: bump_alloc_def Let_def split: prod.splits if_splits)
      then show ?thesis using Cons Pair None same by simp
    next
      case (Some p)
      note b = bump_alloc_Some [OF _ l(2,3) n, of p h', folded l(1), OF Pair [unfolded Some]]
      have a: "unat (push_bit k 1 :: usize) dvd unat p" using b(2) by (simp only: unat_align [OF l(2)])
      have "heap_next h' \<le> heap_end h'" "unat (heap_end h') < 2 ^ 62" using b Cons.prems(3) by (simp_all add: word_le_nat_alt)
      from Cons.IH [OF _ this] Cons.prems(1) show ?thesis using Pair Some same b(5) a
        by (simp add: span_def l(1) del: push_bit_of_1)
    qed
  qed
qed simp

section \<open>Painting stays inside the framebuffer\<close>

lemma each_keeps:
  "(\<And>x s. x \<in> set xs \<Longrightarrow> P s \<Longrightarrow> \<exists>s'. f x s = Some s' \<and> P s') \<Longrightarrow> P s \<Longrightarrow> \<exists>s'. each f xs s = Some s' \<and> P s'"
proof (induction xs arbitrary: s)
  case (Cons x xs)
  from Cons.prems(1) [of x s] Cons.prems(2) obtain s' where s': "f x s = Some s'" "P s'" by auto
  from Cons.IH [OF _ this(2)] Cons.prems(1) s'(1) show ?case by simp
qed simp

lemma set_range32: "x \<in> set (range32 a b) \<longleftrightarrow> a \<le> x \<and> x < b"
proof -
  have "x \<in> set (range32 a b) \<longleftrightarrow> (\<exists>n. unat a \<le> n \<and> n < unat b \<and> x = word_of_nat n)" by (auto simp: range32_def)
  also have "\<dots> \<longleftrightarrow> unat a \<le> unat x \<and> unat x < unat b"
  proof
    assume "\<exists>n. unat a \<le> n \<and> n < unat b \<and> x = word_of_nat n"
    then obtain n where n: "unat a \<le> n" "n < unat b" "x = word_of_nat n" by blast
    then have "unat x = n" using unsigned_less [of b, where ?'a = nat] by (simp add: unat_of_nat)
    with n show "unat a \<le> unat x \<and> unat x < unat b" by simp
  qed (auto intro!: exI [of _ "unat x"])
  finally show ?thesis by (simp add: word_le_nat_alt word_less_nat_alt)
qed

lemma fb_write_keeps: "i < n \<Longrightarrow> length fb = n \<Longrightarrow> \<exists>fb'. fb_write i c fb = Some fb' \<and> length fb' = n"
  by (simp add: fb_write_def)

lemma pixel_index:
  fixes py px pps h :: u32
  assumes "unat pps * unat h < 2 ^ 32" and "unat py + 2 \<le> unat h" and "unat px < 2 * unat pps"
  shows "unat (py * pps + px) < unat pps * unat h"
proof -
  have "unat py * unat pps + unat px < (unat py + 2) * unat pps" using assms(3) by (simp add: distrib_right)
  also have "\<dots> \<le> unat h * unat pps" using assms(2) by (rule mult_le_mono1)
  finally have lt: "unat py * unat pps + unat px < unat pps * unat h" by (simp add: mult.commute)
  then have "unat (py * pps + px) = unat py * unat pps + unat px" using assms(1) by (simp add: unat_word_ariths)
  with lt show ?thesis by simp
qed

lemma fb_fill_keeps:
  assumes "unat pps * unat h < 2 ^ 32" and "unat pps * unat h \<le> n" and "w \<le> pps" and "length fb = n"
  shows "\<exists>fb'. fb_fill pps w h c fb = Some fb' \<and> length fb' = n"
  unfolding fb_fill_def
proof (rule each_keeps [where P = "\<lambda>fb. length fb = n", OF each_keeps [where P = "\<lambda>fb. length fb = n", OF fb_write_keeps]])
  fix y x :: u32
  assume "y \<in> set (range32 0 h)" and "x \<in> set (range32 0 w)"
  then have "unat y + 1 \<le> unat h" and x: "unat x < unat pps"
    using assms(3) by (auto simp: set_range32 word_less_nat_alt word_le_nat_alt)
  then have "unat y * unat pps + unat pps \<le> unat pps * unat h"
    using mult_le_mono1 [of "unat y + 1" "unat h" "unat pps"] by (simp add: mult.commute)
  moreover from this x assms(1) have "unat (y * pps) = unat y * unat pps" by (simp add: unat_word_ariths)
  ultimately show "unat (y * pps) + unat x < n" using x assms(2) by simp
qed (use assms(4) in simp_all)

lemma offset_sum:
  fixes c k s d :: u32
  assumes "k < 8" and "d < s" and "unat c + 8 * unat s < 2 ^ 32"
  shows "unat (c + k * s + d) < unat c + 8 * unat s"
proof -
  have k: "unat k + 1 \<le> 8" and d: "unat d < unat s" using assms(1,2) by (simp_all add: word_less_nat_alt)
  have "(unat k + 1) * unat s \<le> 8 * unat s" using k by (rule mult_le_mono1)
  then have "unat k * unat s + unat d < 8 * unat s" using d unfolding distrib_right by linarith
  moreover from this assms(3) have "unat (c + k * s + d) = unat c + unat k * unat s + unat d"
    by (simp add: unat_word_ariths)
  ultimately show ?thesis by simp
qed

lemma fb_char_keeps:
  fixes h :: u32
  assumes "unat pps * unat h < 2 ^ 32" and "unat pps * unat h \<le> n" and "length fb = n"
    and "unat cx + 8 * unat scale \<le> 2 * unat pps" and "unat y0 + 8 * unat scale + 1 \<le> unat h"
    and "unat pps < 2 ^ 31" and "0 < scale"
  shows "\<exists>fb'. fb_char pps c cx y0 scale col fb = Some fb' \<and> length fb' = n"
proof -
  have px: "unat (cx + k * scale + dx) < 2 * unat pps" if "k < 8" "dx < scale" for k dx
  proof -
    have "unat cx + 8 * unat scale < 2 ^ 32" using assms(4,6) by simp
    from offset_sum [OF that this] show ?thesis using assms(4) by simp
  qed
  have py: "unat (y0 + word_of_nat r * scale + dy) + 2 \<le> unat h" if "r < 8" "dy < scale" for r dy
  proof -
    have "word_of_nat r < (8 :: u32)" using that(1) by (simp add: word_less_nat_alt unat_of_nat)
    moreover have "unat h < 2 ^ 32" using unsigned_less [of h, where ?'a = nat] by simp
    then have "unat y0 + 8 * unat scale < 2 ^ 32" using assms(5) by linarith
    ultimately show ?thesis using offset_sum [of "word_of_nat r" dy scale y0] that(2) assms(5) by simp
  qed
  have rows: "r < 8" if "(r, bits) \<in> set (enumerate 0 (fb_glyph c))" for r bits
  proof -
    have "length (fb_glyph c) = 8" by (simp add: fb_glyph_def)
    then show ?thesis using that by (auto simp: in_set_enumerate_eq)
  qed
  have "\<exists>fb'. each (\<lambda>dy. each (\<lambda>dx. let px = cx + k * scale + dx; py = y0 + word_of_nat r * scale + dy
      in fb_write (unat (py * pps + px)) col) (range32 0 scale)) (range32 0 scale) fb = Some fb' \<and> length fb' = n"
    if "k < 8" "r < 8" "length fb = n" for k r fb
  proof (rule each_keeps [where P = "\<lambda>fb. length fb = n", OF each_keeps [where P = "\<lambda>fb. length fb = n"]])
    fix dy dx :: u32 and s :: "u32 list"
    assume d: "dy \<in> set (range32 0 scale)" "dx \<in> set (range32 0 scale)" and s: "length s = n"
    show "\<exists>s'. (let px = cx + k * scale + dx; py = y0 + word_of_nat r * scale + dy
        in fb_write (unat (py * pps + px)) col) s = Some s' \<and> length s' = n"
      unfolding Let_def
      by (rule fb_write_keeps [OF less_le_trans [OF pixel_index [OF assms(1) py px] assms(2)] s])
        (use d that in \<open>simp_all add: set_range32\<close>)
  qed (use that in simp_all)
  note inner = this
  show ?thesis
    unfolding fb_char_def
  proof (rule each_keeps [where P = "\<lambda>fb. length fb = n"])
    fix rb :: "nat \<times> u8" and s :: "u32 list"
    assume rb: "rb \<in> set (enumerate 0 (fb_glyph c))" and s: "length s = n"
    obtain r bits where rb': "rb = (r, bits)" by (cases rb)
    show "\<exists>s'. (case rb of (row, bits) \<Rightarrow> each (\<lambda>k. if and bits (drop_bit (unat k) 0x80) \<noteq> 0 then
           each (\<lambda>dy. each (\<lambda>dx. let px = cx + k * scale + dx; py = y0 + word_of_nat row * scale + dy
             in fb_write (unat (py * pps + px)) col) (range32 0 scale)) (range32 0 scale) else Some) (range32 0 8)) s = Some s'
        \<and> length s' = n"
      unfolding rb' prod.case
    proof (rule each_keeps [where P = "\<lambda>fb. length fb = n", OF _ s], goal_cases)
      case (1 k s')
      then show ?case using inner [of k r s'] rows [of r bits] rb rb' by (auto simp: set_range32)
    qed
  qed (rule assms(3))
qed

lemma fb_string_keeps:
  fixes h :: u32
  assumes "unat pps * unat h < 2 ^ 32" and "unat pps * unat h \<le> n"
    and "unat y0 + 8 * unat scale + 1 \<le> unat h" and "unat pps < 2 ^ 31" and "0 < scale" and "unat scale < 16"
  shows "unat cx + 9 * unat scale * length s \<le> 2 * unat pps \<Longrightarrow> length fb = n \<Longrightarrow>
    \<exists>fb'. fb_string pps s cx y0 scale col fb = Some fb' \<and> length fb' = n"
proof (induction s arbitrary: cx fb)
  case (Cons c s)
  have "unat cx + 8 * unat scale \<le> 2 * unat pps" using Cons.prems(1) by simp
  from fb_char_keeps [OF assms(1,2) Cons.prems(2) this assms(3,4,5)] obtain fb'
    where fb': "fb_char pps c cx y0 scale col fb = Some fb'" "length fb' = n" by blast
  have "unat (cx + 9 * scale) = unat cx + 9 * unat scale"
    using Cons.prems(1) assms(4,6) by (simp add: unat_word_ariths)
  then have "unat (cx + 9 * scale) + 9 * unat scale * length s \<le> 2 * unat pps"
    using Cons.prems(1) by (simp add: algebra_simps)
  from Cons.IH [OF this fb'(2)] fb'(1) show ?case by simp
qed simp

lemma title_geometry:
  "unat (title_scale w) = (if 1024 \<le> unat w then 8 else 4)"
  "unat (title_width w) = (if 1024 \<le> unat w then 1080 else 540)"
  "unat (title_x w) = (unat w - unat (title_width w)) div 2"
proof -
  show "unat (title_scale w) = (if 1024 \<le> unat w then 8 else 4)"
    by (simp add: title_scale_def word_le_nat_alt)
  show "unat (title_width w) = (if 1024 \<le> unat w then 1080 else 540)"
    by (simp add: title_width_def title_scale_def TITLE_def word_le_nat_alt)
  show "unat (title_x w) = (unat w - unat (title_width w)) div 2"
    by (simp add: title_x_def saturating_sub_def unat_div unat_sub word_le_nat_alt)
qed

lemma paint_keeps:
  assumes "320 \<le> w" and "200 \<le> h" and "w \<le> pps" and area: "unat pps * unat h < 2 ^ 32" "unat pps * unat h \<le> n"
    and "length fb = n"
  shows "\<exists>fb'. paint_screen w h pps fmt fb = Some fb' \<and> length fb' = n"
proof -
  let ?s = "title_scale w" and ?tw = "title_width w" and ?tx = "title_x w"
  define ty where "ty = h div 2 - 4 * ?s"
  define top where "top = saturating_sub ty (3 * ?s)"
  have w: "320 \<le> unat w" "unat w \<le> unat pps" and h: "200 \<le> unat h" using assms(1-3) by (simp_all add: word_le_nat_alt)
  have "unat pps * 200 \<le> unat pps * unat h" using h by (rule mult_le_mono2)
  then have "unat pps * 200 < 2 ^ 32" using area(1) by (rule le_less_trans)
  then have pps: "unat pps < 2 ^ 31" by simp
  note g = title_geometry [of w]
  have s4: "unat (4 * ?s) = 4 * unat ?s" "unat (3 * ?s) = 3 * unat ?s" using g(1) by (simp_all add: unat_word_ariths)
  have "100 \<le> unat h div 2" using h by linarith
  then have hs: "unat (4 * ?s) \<le> unat (h div 2)" using g(1) by (simp add: s4 unat_div)
  then have ty: "unat ty = unat h div 2 - 4 * unat ?s"
    by (simp add: ty_def unat_sub word_le_nat_alt s4 unat_div)
  have x: "unat ?tx + unat ?tw \<le> 2 * unat pps" using g w by (simp split: if_splits)
  have "unat (?tx + ?tw) = unat ?tx + unat ?tw" using x pps by (simp add: unat_word_ariths)
  note x = x [folded this]
  have "unat top + unat ?s + 2 \<le> unat h"
    using ty h g(1) by (auto simp: top_def saturating_sub_def unat_sub word_le_nat_alt s4 split: if_splits)
  moreover from this have "unat (top + ?s) = unat top + unat ?s"
    using unsigned_less [of h, where ?'a = nat] by (simp add: unat_word_ariths)
  ultimately have y: "unat (top + ?s) + 2 \<le> unat h" by simp
  obtain fb1 where fb1: "fb_fill pps w h (pack fmt 0x05 0x07 0x0D) fb = Some fb1" "length fb1 = n"
    using fb_fill_keeps [OF area assms(3,6)] by blast
  have "\<exists>fb2. each (\<lambda>yy. each (\<lambda>xx. fb_write (unat (yy * pps + xx)) (pack fmt 0xFF 0xB4 0x54)) (range32 ?tx (?tx + ?tw)))
      (range32 top (top + ?s)) fb1 = Some fb2 \<and> length fb2 = n"
  proof (rule each_keeps [where P = "\<lambda>fb. length fb = n", OF each_keeps [where P = "\<lambda>fb. length fb = n", OF fb_write_keeps]])
    fix yy xx assume "yy \<in> set (range32 top (top + ?s))" "xx \<in> set (range32 ?tx (?tx + ?tw))"
    then have "unat yy + 2 \<le> unat h" "unat xx < 2 * unat pps" using x y by (auto simp: set_range32 word_less_nat_alt)
    from pixel_index [OF area(1) this] area(2) show "unat (yy * pps + xx) < n" by simp
  qed (use fb1(2) in simp_all)
  then obtain fb2 where fb2: "each (\<lambda>yy. each (\<lambda>xx. fb_write (unat (yy * pps + xx)) (pack fmt 0xFF 0xB4 0x54)) (range32 ?tx (?tx + ?tw)))
      (range32 top (top + ?s)) fb1 = Some fb2" "length fb2 = n" by blast
  have "unat ty + 8 * unat ?s + 1 \<le> unat h" using ty h g(1) by (simp split: if_splits)
  moreover have "0 < ?s" "unat ?s < 16" using g(1) by (simp_all add: word_less_nat_alt split: if_splits)
  moreover have "unat ?tx + 9 * unat ?s * length TITLE \<le> 2 * unat pps"
    using g w by (simp add: TITLE_def split: if_splits)
  ultimately have "\<exists>fb3. fb_string pps TITLE ?tx ty ?s (pack fmt 0x43 0xE8 0xD8) fb2 = Some fb3 \<and> length fb3 = n"
    using fb_string_keeps [OF area _ pps] fb2(2) by blast
  then show ?thesis using fb1(1) fb2(1) by (simp add: paint_screen_def Let_def ty_def top_def)
qed

section \<open>Lemmas for the entry\<close>

definition framebuffer_mapped :: "Firmware \<Rightarrow> boot_io \<Rightarrow> bool" where
  "framebuffer_mapped fw io \<longleftrightarrow> (\<forall>m. fw_gop fw = Some (Some m) \<longrightarrow>
     unat (gop_size m) div 4 \<le> length (pixels io) \<and> unat (gop_pps m) * unat (gop_height m) < 2 ^ 32)"

lemma layout_ok_area:
  assumes "layout_ok m" and "unat (gop_pps m) * unat (gop_height m) < 2 ^ 32"
  shows "unat (gop_pps m) * unat (gop_height m) \<le> unat (gop_size m) div 4"
proof -
  let ?a = "saturating_mul (ucast (gop_pps m)) (ucast (gop_height m)) :: usize"
  have u: "unat (ucast (x :: u32) :: usize) = unat x" for x
    using unsigned_less [of x, where ?'a = nat] by (simp add: unsigned_ucast_eq take_bit_nat_eq_self)
  have a: "unat ?a = unat (gop_pps m) * unat (gop_height m)"
    using assms(2) by (simp add: saturating_mul_def u unat_word_ariths)
  then have "unat ?a < 2 ^ 32" using assms(2) by simp
  then have "unat ?a * unat (4 :: usize) < 2 ^ 64" by simp
  then have "unat (saturating_mul ?a 4) = 4 * (unat (gop_pps m) * unat (gop_height m))"
    using a by (simp only: saturating_mul_def [of ?a]) (simp add: unat_word_ariths)
  then show ?thesis using assms(1) by (auto simp: layout_ok_def Let_def word_le_nat_alt)
qed

lemma take_display_ok:
  assumes "framebuffer_mapped fw io"
  shows "\<exists>obs px. take_display fw io = Some (obs, io\<lparr>pixels := px\<rparr>) \<and> length px = length (pixels io)"
proof -
  have "\<exists>px. paint_mode m io = Some (io\<lparr>pixels := px\<rparr>) \<and> length px = length (pixels io)" if m: "fw_gop fw = Some (Some m)" for m
  proof (cases "gop_base m \<noteq> 0 \<and> layout_ok m \<and> is_direct_framebuffer (pixel_format_of (gop_format m)) \<and>
      gop_width m \<ge> 320 \<and> gop_height m \<ge> 200")
    case True
    have area: "unat (gop_pps m) * unat (gop_height m) < 2 ^ 32" "unat (gop_size m) div 4 \<le> length (pixels io)"
      using assms m by (simp_all add: framebuffer_mapped_def)
    have "unat (gop_pps m) * unat (gop_height m) \<le> length (pixels io)"
      using layout_ok_area [OF _ area(1)] area(2) True by (meson order_trans)
    moreover have "gop_width m \<le> gop_pps m" using True by (simp add: layout_ok_def Let_def)
    ultimately show ?thesis using True paint_keeps [of "gop_width m" "gop_height m" "gop_pps m" _ "pixels io" "gop_format m"] area(1)
      by (auto simp: paint_mode_def)
  next
    case False
    then show ?thesis by (auto simp: paint_mode_def intro!: exI [of _ "pixels io"])
  qed
  note paint = this
  show ?thesis
  proof (cases "\<exists>m. fw_gop fw = Some (Some m) \<and> fw_table fw \<and> fw_boot_services fw")
    case True
    then obtain m where m: "fw_gop fw = Some (Some m)" "fw_table fw" "fw_boot_services fw" by blast
    from paint [OF m(1)] m show ?thesis by (auto simp: take_display_def Let_def)
  next
    case False
    then have "\<exists>obs. take_display fw io = Some (obs, io)"
      by (auto simp: take_display_def Let_def split: option.split)
    moreover have "io\<lparr>pixels := pixels io\<rparr> = io" by simp
    ultimately show ?thesis by metis
  qed
qed

lemma report_status_serial: "serial (report_status fw obs io) = serial io @ as_bytes (status_text obs) @ CRLF"
proof -
  have "render_status_line obs (replicate 384 0) = (Ok (status_line_len obs),
      as_bytes (status_text obs) @ replicate (384 - length (status_text obs)) 0)"
    using render_status_line_eq [of "replicate 384 0" obs] status_text_fits [of obs] by simp
  moreover have "unat (status_line_len obs) = length (status_text obs)"
    using status_text_short [of obs] by (simp add: status_line_len_eq unat_of_nat)
  ultimately show ?thesis by (simp add: report_status_def serial_print_def uefi_print_def Let_def)
qed

lemma identity_chain_serial:
  assumes "length seat \<le> 41"
  shows "\<exists>hw log bt pid row. pci_scan pci seat = Returned hw log \<and> read_boot_time cmos hi lo = Some (bt, boottime_text bt) \<and>
    bootproj_emit (hs_device_digest hw) bt = Some (pid, row) \<and>
    identity_chain pci cmos hi lo seat io = Some (io\<lparr>serial := serial io @ log @ boottime_text bt @ row @
      driver_text ''intel-rst-vmd|match=8086:282A'' hw pid bt seat
        (if hs_rst_vmd hw then ''GATED_MATCH|vmd_walk=TODO_next_step'' else ''NOT_APPLICABLE|no_8086:282A_on_this_device'') @
      driver_text ''sata-ahci|match=class01:06:01'' hw pid bt seat
        (if hs_ahci hw then ''GATED_MATCH|ahci_bringup=TODO_next_step'' else ''NOT_APPLICABLE|no_sata_ahci_on_this_device'')\<rparr>)"
proof -
  obtain hw log where hw: "pci_scan pci seat = Returned hw log" "length (hs_device_digest hw) = 32"
    using pci_scan_returns [OF assms] by blast
  obtain bt where bt: "read_boot_time cmos hi lo = Some (bt, boottime_text bt)"
    by (simp add: read_boot_time_def emit_boottime_text Let_def)
  obtain pid row where pid: "bootproj_emit (hs_device_digest hw) bt = Some (pid, row)" "length pid = 8"
    using bootproj_emit_text [OF hw(2), of bt] by (simp add: length_fips_sha256)
  have "length seat \<le> 43" using assms by simp
  note rows = rst_vmd_probe_text [OF pid(2) this, of hw bt] ahci_probe_text [OF pid(2) this, of hw bt]
  show ?thesis
    by (intro exI conjI) (rule hw(1) bt pid(1), simp add: identity_chain_def hw bt pid rows serial_print_def Let_def)+
qed

lemma build_seat_short: "build_seat trim env = Some (seat, row) \<Longrightarrow> length seat \<le> 32"
  by (auto simp: build_seat_def Let_def split: if_splits)

text \<open>The entry from the banner to the hand-over.\<close>

lemma efi_main_run:
  assumes "build_seat trim env = Some (seat, seat_row)" and "framebuffer_mapped fw io"
  shows "\<exists>obs hw log bt pid row io' h. pci_scan pci seat = Returned hw log \<and>
    bootproj_emit (hs_device_digest hw) bt = Some (pid, row) \<and>
    efi_main fw pci cmos hi lo seat seat_row heap io = Some (io', h) \<and>
    serial io' = serial io @ BANNER1 @ BANNER2 @ as_bytes (status_text obs) @ CRLF @ seat_row @ CRLF @ log @ boottime_text bt @ row @
      driver_text ''intel-rst-vmd|match=8086:282A'' hw pid bt seat
        (if hs_rst_vmd hw then ''GATED_MATCH|vmd_walk=TODO_next_step'' else ''NOT_APPLICABLE|no_8086:282A_on_this_device'') @
      driver_text ''sata-ahci|match=class01:06:01'' hw pid bt seat
        (if hs_ahci hw then ''GATED_MATCH|ahci_bringup=TODO_next_step'' else ''NOT_APPLICABLE|no_sata_ahci_on_this_device'') \<and>
    length (pixels io') = length (pixels io) \<and> h = \<lparr>heap_start = heap, heap_end = heap + 16384, heap_next = heap\<rparr>"
proof -
  define io1 where "io1 = uefi_print fw BANNER2 (uefi_print fw BANNER1 (serial_print BANNER2 (serial_print BANNER1 io)))"
  have io1: "serial io1 = serial io @ BANNER1 @ BANNER2" "pixels io1 = pixels io"
    by (simp_all add: io1_def uefi_print_def serial_print_def)
  then have "framebuffer_mapped fw io1" using assms(2) by (simp add: framebuffer_mapped_def)
  from take_display_ok [OF this] obtain obs px where disp: "take_display fw io1 = Some (obs, io1\<lparr>pixels := px\<rparr>)"
    "length px = length (pixels io)" using io1 by auto
  define io2 where "io2 = uefi_print fw CRLF (uefi_print fw seat_row (serial_print CRLF (serial_print seat_row
    (report_status fw obs (io1\<lparr>pixels := px\<rparr>)))))"
  have io2: "serial io2 = serial io @ BANNER1 @ BANNER2 @ as_bytes (status_text obs) @ CRLF @ seat_row @ CRLF" "pixels io2 = px"
    using report_status_serial [of fw obs "io1\<lparr>pixels := px\<rparr>"] io1
    by (simp_all add: io2_def uefi_print_def serial_print_def report_status_def Let_def split: prod.split result.split)
  have "length seat \<le> 41" using build_seat_short [OF assms(1)] by simp
  from identity_chain_serial [OF this, of pci cmos hi lo io2] obtain hw log bt pid row where
    chain: "pci_scan pci seat = Returned hw log" "bootproj_emit (hs_device_digest hw) bt = Some (pid, row)" and
    io3: "identity_chain pci cmos hi lo seat io2 = Some (io2\<lparr>serial := serial io2 @ log @ boottime_text bt @ row @
      driver_text ''intel-rst-vmd|match=8086:282A'' hw pid bt seat
        (if hs_rst_vmd hw then ''GATED_MATCH|vmd_walk=TODO_next_step'' else ''NOT_APPLICABLE|no_8086:282A_on_this_device'') @
      driver_text ''sata-ahci|match=class01:06:01'' hw pid bt seat
        (if hs_ahci hw then ''GATED_MATCH|ahci_bringup=TODO_next_step'' else ''NOT_APPLICABLE|no_sata_ahci_on_this_device'')\<rparr>)"
    by blast
  have "efi_main fw pci cmos hi lo seat seat_row heap io =
      Option.bind (identity_chain pci cmos hi lo seat io2) (\<lambda>io. Some (io, bump_init heap HEAP_SIZE bump_new))"
    by (simp add: efi_main_def Let_def io1_def [symmetric] disp io2_def [symmetric])
  then show ?thesis using chain io2 disp(2)
    by (intro exI [of _ obs] exI [of _ hw] exI [of _ log] exI [of _ bt] exI [of _ pid] exI [of _ row])
      (simp add: io3 bump_init_def bump_new_def HEAP_SIZE_def)
qed

section \<open>Properties\<close>

text \<open>C13: the boot reaches \<open>init\<close>. For every seat the build script accepts, whatever the PCI bus and the clock answer
  and whatever the firmware offers, as long as the pixels behind a graphics mode are mapped and number
  less than 2^32, the entry runs to the hand-over without a panic and without a write outside the
  framebuffer. The serial line then carries the banner, the status line, the seat row, the inventory,
  the time, the projection and the two driver rows in that order, and the heap is the empty 16 KiB arena.\<close>

theorem efi_main_reaches_init:
  assumes "build_seat trim env = Some (seat, seat_row)" and "framebuffer_mapped fw io"
  shows "\<exists>obs hw log bt pid row io' h. pci_scan pci seat = Returned hw log \<and>
    bootproj_emit (hs_device_digest hw) bt = Some (pid, row) \<and>
    efi_main fw pci cmos hi lo seat seat_row heap io = Some (io', h) \<and>
    serial io' = serial io @ BANNER1 @ BANNER2 @ as_bytes (status_text obs) @ CRLF @ seat_row @ CRLF @ log @ boottime_text bt @ row @
      driver_text ''intel-rst-vmd|match=8086:282A'' hw pid bt seat
        (if hs_rst_vmd hw then ''GATED_MATCH|vmd_walk=TODO_next_step'' else ''NOT_APPLICABLE|no_8086:282A_on_this_device'') @
      driver_text ''sata-ahci|match=class01:06:01'' hw pid bt seat
        (if hs_ahci hw then ''GATED_MATCH|ahci_bringup=TODO_next_step'' else ''NOT_APPLICABLE|no_sata_ahci_on_this_device'') \<and>
    length (pixels io') = length (pixels io) \<and> h = \<lparr>heap_start = heap, heap_end = heap + 16384, heap_next = heap\<rparr>"
  by (rule efi_main_run [OF assms])

theorem efi_main_reaches_init_witness:
  "\<exists>io' h. efi_main \<lparr>fw_table = True, fw_con_out = True, fw_boot_services = True, fw_gop = Some None\<rparr> (\<lambda>_. 0xFFFFFFFF) (\<lambda>_ _. 0)
     0 1 (as_bytes ''liris'') (snd (the (build_seat id None))) 4096 \<lparr>serial = [], console = [], pixels = []\<rparr> = Some (io', h)"
proof -
  have "build_seat id None = Some (as_bytes ''liris'', snd (the (build_seat id None)))" by code_simp
  from efi_main_reaches_init [OF this, of "\<lparr>fw_table = True, fw_con_out = True, fw_boot_services = True, fw_gop = Some None\<rparr>"
      "\<lparr>serial = [], console = [], pixels = []\<rparr>" "\<lambda>_. 0xFFFFFFFF" "\<lambda>_ _. 0" 0 1 4096]
  show ?thesis by (auto simp: framebuffer_mapped_def)
qed



text \<open>the title on the screen. The title box fits the width of the mode exactly for widths from 540 to 1023 and from
  1080 on; for the other widths the code accepts, 1024 among them, the amber bar and the title run over
  the right edge into the next rows.\<close>

theorem title_fits_width:
  assumes "320 \<le> w"
  shows "unat (title_x w) + unat (title_width w) \<le> unat w \<longleftrightarrow> 540 \<le> unat w \<and> unat w < 1024 \<or> 1080 \<le> unat w"
  using assms by (simp add: title_geometry word_le_nat_alt) linarith

theorem title_fits_width_witness: "\<not> unat (title_x 1024) + unat (title_width 1024) \<le> unat (1024 :: u32)"
  using title_fits_width [of 1024] by simp

end
