(* ===== verification/Surface.thy ===== *)
theory Surface
  imports Host_Text Tickets "HOL-Library.Monad_Syntax"
begin

text \<open>
  The host surface (\<^verbatim>\<open>surface/src/main.rs\<close>): a local HTTP server that runs terminal sessions. Modelled are
  the request head, routing, the session table, the event stream of a session with its base64 encoding,
  and the identity and status helpers. Sockets, threads and child processes are outside: what they do is
  an argument (whether a spawn succeeds, what a session has printed when the stream looks, whether a
  write succeeds), as are \<open>String::from_utf8_lossy\<close> and \<open>str::trim\<close>. Strings are their bytes.
\<close>

section \<open>base64\<close>

definition b64_table :: string where
  "b64_table = ''ABCDEFGHIJKLMNOPQRSTUVWXYZabcdefghijklmnopqrstuvwxyz0123456789+/''"

text \<open>\<open>slice::chunks\<close>.\<close>

function chunks :: "nat \<Rightarrow> 'a list \<Rightarrow> 'a list list" where
  "chunks n xs = (if xs = [] \<or> n = 0 then [] else take n xs # chunks n (drop n xs))"
  by pat_completeness auto
termination by (relation "measure (\<lambda>(n, xs). length xs)") auto

declare chunks.simps [simp del]

definition base64_chunk :: "bytes \<Rightarrow> string" where
  "base64_chunk chunk =
     (let b0 = chunk ! 0;
          b1 = (if 1 < length chunk then chunk ! 1 else 0);
          b2 = (if 2 < length chunk then chunk ! 2 else 0)
      in [b64_table ! unat (drop_bit 2 b0),
          b64_table ! unat (or (push_bit 4 (and b0 0x03)) (drop_bit 4 b1)),
          if length chunk > 1 then b64_table ! unat (or (push_bit 2 (and b1 0x0f)) (drop_bit 6 b2)) else CHR ''='',
          if length chunk > 2 then b64_table ! unat (and b2 0x3f) else CHR ''=''])"

definition base64 :: "bytes \<Rightarrow> string" where
  "base64 data = concat (map base64_chunk (chunks 3 data))"

text \<open>The decoding of RFC 4648, as the reader of the stream does it.\<close>

definition b64_value :: "char \<Rightarrow> u8" where
  "b64_value c = word_of_nat (length (takeWhile (\<lambda>x. x \<noteq> c) b64_table))"

fun b64_decode :: "string \<Rightarrow> bytes" where
  "b64_decode (c0 # c1 # c2 # c3 # cs) =
     (let v0 = b64_value c0; v1 = b64_value c1; v2 = b64_value c2; v3 = b64_value c3
      in (if c2 = CHR ''='' then [or (push_bit 2 v0) (drop_bit 4 v1)]
          else if c3 = CHR ''='' then [or (push_bit 2 v0) (drop_bit 4 v1), or (push_bit 4 v1) (drop_bit 2 v2)]
          else [or (push_bit 2 v0) (drop_bit 4 v1), or (push_bit 4 v1) (drop_bit 2 v2), or (push_bit 6 v2) v3]) @ b64_decode cs)"
| "b64_decode _ = []"

lemma masks: "(0x03 :: u8) = mask 2" "(0x0f :: u8) = mask 4" "(0x3f :: u8) = mask 6"
  by code_simp+

lemma byte_eqI: "(\<And>n. n \<in> {0, 1, 2, 3, 4, 5, 6, 7} \<Longrightarrow> bit a n = bit b n) \<Longrightarrow> a = b" for a b :: u8
proof (rule bit_word_eqI)
  fix n assume b: "\<And>n. n \<in> {0, 1, 2, 3, 4, 5, 6, 7} \<Longrightarrow> bit a n = bit b n" and n: "n < LENGTH(8)"
  from n have "n \<in> {0, 1, 2, 3, 4, 5, 6, 7}" by auto
  then show "bit a n \<longleftrightarrow> bit b n" by (rule b)
qed

lemma bit_numerals: "bit w (Suc (Suc 0)) = bit w 2" "bit w (Suc (Suc (Suc 0))) = bit w 3" for w :: u8
  by (simp_all add: numeral_2_eq_2 numeral_3_eq_3)

lemma b64_bits:
  fixes b0 b1 b2 :: u8
  shows "or (push_bit 2 (drop_bit 2 b0)) (drop_bit 4 (or (push_bit 4 (and b0 0x03)) (drop_bit 4 b1))) = b0"
    and "or (push_bit 4 (or (push_bit 4 (and b0 0x03)) (drop_bit 4 b1))) (drop_bit 2 (or (push_bit 2 (and b1 0x0f)) (drop_bit 6 b2))) = b1"
    and "or (push_bit 6 (or (push_bit 2 (and b1 0x0f)) (drop_bit 6 b2))) (and b2 0x3f) = b2"
  unfolding masks by (rule byte_eqI; auto simp: bit_simps bit_numerals)+

lemma six_bits:
  fixes b0 b1 b2 :: u8
  shows "unat (drop_bit 2 b0) < 64"
    and "unat (or (push_bit 4 (and b0 0x03)) (drop_bit 4 b1)) < 64"
    and "unat (or (push_bit 2 (and b1 0x0f)) (drop_bit 6 b2)) < 64"
    and "unat (and b2 0x3f) < 64"
proof -
  have *: "unat w < 64" if "take_bit 6 w = w" for w :: u8
  proof -
    have "unat w = take_bit 6 (unat w)" using that by (metis unsigned_take_bit_eq)
    then show ?thesis using take_bit_nat_less_exp [of 6 "unat w"] by simp
  qed
  show "unat (drop_bit 2 b0) < 64" "unat (or (push_bit 4 (and b0 0x03)) (drop_bit 4 b1)) < 64"
    "unat (or (push_bit 2 (and b1 0x0f)) (drop_bit 6 b2)) < 64" "unat (and b2 0x3f) < 64"
    unfolding masks by (rule *, rule bit_word_eqI, auto simp: bit_simps dest: bit_imp_le_length)+
qed

lemma b64_table_facts: "length b64_table = 64" "distinct b64_table" "CHR ''='' \<notin> set b64_table"
  by code_simp+

lemma takeWhile_nth: "distinct xs \<Longrightarrow> i < length xs \<Longrightarrow> takeWhile (\<lambda>x. x \<noteq> xs ! i) xs = take i xs"
  by (intro takeWhile_eq_take_P_nth) (auto simp: nth_eq_iff_index_eq)

lemma b64_value_nth: "unat w < 64 \<Longrightarrow> b64_value (b64_table ! unat w) = w"
  by (simp add: b64_value_def takeWhile_nth b64_table_facts)

lemma b64_nth_no_pad: "unat w < 64 \<Longrightarrow> b64_table ! unat w \<noteq> CHR ''=''"
  using b64_table_facts nth_mem by metis

lemma base64_simps:
  "base64 [] = []" "base64 [b0] = base64_chunk [b0]" "base64 [b0, b1] = base64_chunk [b0, b1]"
  "base64 (b0 # b1 # b2 # bs) = base64_chunk [b0, b1, b2] @ base64 bs"
  by (simp_all add: base64_def chunks.simps [of 3 "[]"] chunks.simps [of 3 "[b0]"] chunks.simps [of 3 "[b0, b1]"]
      chunks.simps [of 3 "b0 # b1 # b2 # bs"])

lemma b64_decode_chunk:
  assumes "chunk \<in> {[b0], [b0, b1], [b0, b1, b2]}"
  shows "b64_decode (base64_chunk chunk @ cs) = chunk @ b64_decode cs"
  using assms six_bits(1) [of b0] six_bits(2) [of b0 b1] six_bits(2) [of b0 0] six_bits(3) [of b1 b2] six_bits(3) [of b1 0]
    six_bits(4) [of b2] b64_bits(1) [of b0 b1] b64_bits(1) [of b0 0] b64_bits(2) [of b0 b1 b2] b64_bits(2) [of b0 b1 0] b64_bits(3) [of b1 b2]
  by (auto simp: base64_chunk_def b64_value_nth b64_nth_no_pad Let_def)

lemma base64_decodes: "b64_decode (base64 data) = data"
proof (induction "length data" arbitrary: data rule: less_induct)
  case less
  consider "data = []" | b0 where "data = [b0]" | b0 b1 where "data = [b0, b1]"
    | b0 b1 b2 bs where "data = b0 # b1 # b2 # bs"
    by (metis list.exhaust)
  then show ?case
  proof cases
    case 2
    then show ?thesis using b64_decode_chunk [of "[b0]" b0 0 0 "[]"] by (simp add: base64_simps)
  next
    case 3
    then show ?thesis using b64_decode_chunk [of "[b0, b1]" b0 b1 0 "[]"] by (simp add: base64_simps)
  next
    case 4
    then show ?thesis using b64_decode_chunk [of "[b0, b1, b2]" b0 b1 b2] less by (simp add: base64_simps)
  qed (simp add: base64_simps)
qed

section \<open>Helpers\<close>

fun query_loop :: "string list \<Rightarrow> u64" where
  "query_loop [] = 0"
| "query_loop (kv # kvs) =
     (case strip_prefix ''id='' kv of
        Some v \<Rightarrow> (case parse_u64 v of Some n \<Rightarrow> n | None \<Rightarrow> 0)
      | None \<Rightarrow> query_loop kvs)"

definition query_id :: "string \<Rightarrow> u64" where
  "query_id query = query_loop (str_split CHR ''&'' query)"

definition http_response_body :: "string \<Rightarrow> string" where
  "http_response_body resp =
     (case str_find resp [CHR 0x0D, CHR 0x0A, CHR 0x0D, CHR 0x0A] of
        Some i \<Rightarrow> drop (i + 4) resp
      | None \<Rightarrow> resp)"

definition fabric_port_for_context :: "string \<Rightarrow> string option \<Rightarrow> u16" where
  "fabric_port_for_context seat host =
     (let seat = map ascii_lower seat;
          host = map ascii_lower (case host of Some h \<Rightarrow> h | None \<Rightarrow> [])
      in if str_contains seat ''liris'' \<or> str_contains host ''ptsqtie'' \<or> str_contains host ''liris'' then 4944 else 4949)"

definition resolve_ident ::
    "(string \<Rightarrow> string) \<Rightarrow> string option \<Rightarrow> string option \<Rightarrow> string \<Rightarrow> string \<Rightarrow> (string \<Rightarrow> string option) \<Rightarrow> string" where
  "resolve_ident trim env_value home file dflt read_file =
     (let from_file =
        (case home of
           Some home \<Rightarrow>
             if home \<noteq> [] then
               (case read_file (home @ ''/.asolaria/'' @ file) of
                  Some s \<Rightarrow> if trim s \<noteq> [] then trim s else dflt
                | None \<Rightarrow> dflt)
             else dflt
         | None \<Rightarrow> dflt)
      in case env_value of
           Some v \<Rightarrow> if trim v \<noteq> [] then trim v else from_file
         | None \<Rightarrow> from_file)"

definition CRLF_text :: string where "CRLF_text = [CHR 0x0D, CHR 0x0A]"

definition write_resp :: "nat \<Rightarrow> string \<Rightarrow> bytes \<Rightarrow> bytes" where
  "write_resp code ctype body =
     (let status = (if code = 200 then ''200 OK'' else if code = 404 then ''404 Not Found'' else ''500 Internal Server Error'')
      in as_bytes (''HTTP/1.1 '' @ status @ CRLF_text @ ''Content-Type: '' @ ctype @ CRLF_text @ ''Content-Length: '' @
           decimal (length body) @ CRLF_text @ ''Cache-Control: no-store'' @ CRLF_text @ ''Connection: close'' @
           CRLF_text @ CRLF_text) @ body)"

text \<open>The command of a shell name, on Unix and on Windows: program and arguments.\<close>

definition shell_command_unix :: "string \<Rightarrow> string \<times> string list" where
  "shell_command_unix shell =
     (let inner = (if shell = ''zsh'' then ''zsh'' else if shell = ''sh'' then ''sh''
                   else if shell = ''pwsh'' \<or> shell = ''powershell'' then ''pwsh'' else ''bash'')
      in (''script'', [''-qfec'', inner, ''/dev/null'']))"

definition shell_command_windows :: "string \<Rightarrow> string \<times> string list" where
  "shell_command_windows shell =
     (if shell = ''powershell'' \<or> shell = ''pwsh'' then (''powershell.exe'', [''-NoLogo'', ''-NoProfile''])
      else if shell = ''bash'' \<or> shell = ''wsl'' then (''wsl.exe'', [''-d'', ''Ubuntu'', ''--'', ''bash'', ''-il''])
      else (''cmd.exe'', []))"

section \<open>Sessions\<close>

text \<open>A session: what was fed to its standard input (if it has one), what it printed so far, whether its child
  was killed (if it has one), and its label.\<close>

record Session =
  se_stdin :: "bytes option"
  se_out :: bytes
  se_child :: "bool option"
  se_label :: string

record surface =
  sessions :: "u64 \<Rightarrow> Session option"
  NEXT_ID :: u64

definition surface_start :: surface where
  "surface_start = \<lparr>sessions = \<lambda>_. None, NEXT_ID = 1\<rparr>"

text \<open>\<open>spawn\<close> gives the error of starting a command, or none.\<close>

definition spawn_session ::
    "(string \<times> string list \<Rightarrow> string option) \<Rightarrow> (string \<Rightarrow> string \<times> string list) \<Rightarrow> string \<Rightarrow> surface \<Rightarrow> u64 \<times> surface" where
  "spawn_session spawn shell_command shell st =
     (let cmd = shell_command shell;
          sid = NEXT_ID st;
          st = st\<lparr>NEXT_ID := NEXT_ID st + 1\<rparr>
      in case spawn cmd of
           None \<Rightarrow>
             let sess = \<lparr>se_stdin = Some [], se_out = [], se_child = Some False, se_label = shell\<rparr>
             in (sid, st\<lparr>sessions := (sessions st)(sid := Some sess)\<rparr>)
         | Some e \<Rightarrow>
             let sess = \<lparr>se_stdin = None,
                   se_out = as_bytes (''[asi-os] could not spawn '' @ [CHR 0x27] @ shell @ [CHR 0x27] @ '': '' @ e @ CRLF_text),
                   se_child = None, se_label = shell\<rparr>
             in (sid, st\<lparr>sessions := (sessions st)(sid := Some sess)\<rparr>))"

definition term_input :: "u64 \<Rightarrow> bytes \<Rightarrow> surface \<Rightarrow> surface" where
  "term_input sid body st =
     (case sessions st sid of
        Some sess \<Rightarrow>
          (case se_stdin sess of
             Some si \<Rightarrow> st\<lparr>sessions := (sessions st)(sid := Some (sess\<lparr>se_stdin := Some (si @ body)\<rparr>))\<rparr>
           | None \<Rightarrow> st)
      | None \<Rightarrow> st)"

text \<open>Killing removes the session from the table first; the child is killed through the removed session.\<close>

definition term_kill :: "u64 \<Rightarrow> surface \<Rightarrow> surface" where
  "term_kill sid st = st\<lparr>sessions := (sessions st)(sid := None)\<rparr>"

text \<open>One read of a child's pipe, appended to what the session printed.\<close>

definition pump :: "u64 \<Rightarrow> bytes \<Rightarrow> surface \<Rightarrow> surface" where
  "pump sid chunk st =
     (case sessions st sid of
        Some sess \<Rightarrow> st\<lparr>sessions := (sessions st)(sid := Some (sess\<lparr>se_out := se_out sess @ chunk\<rparr>))\<rparr>
      | None \<Rightarrow> st)"

section \<open>Routing\<close>

text \<open>What the handler takes from elsewhere: the page with its seat and PID filled in, the live status, the result of
  launching a desktop, the shell name in a body (\<open>String::from_utf8_lossy\<close> and \<open>trim\<close>) and the outcome of a spawn.\<close>

record host =
  page :: bytes
  live :: bytes
  launch :: bytes
  shell_name :: "bytes \<Rightarrow> string"
  spawn_error :: "string \<times> string list \<Rightarrow> string option"
  command_of :: "string \<Rightarrow> string \<times> string list"

datatype reply = Response bytes | StreamOf u64

definition split_target :: "string \<Rightarrow> string \<times> string" where
  "split_target target =
     (case str_find target ''?'' of
        Some i \<Rightarrow> (take i target, drop (i + 1) target)
      | None \<Rightarrow> (target, []))"

definition route :: "host \<Rightarrow> string \<Rightarrow> string \<Rightarrow> bytes \<Rightarrow> surface \<Rightarrow> reply \<times> surface" where
  "route w method target body st =
     (let (path, query) = split_target target
      in if method = ''GET'' \<and> (path = ''/'' \<or> path = ''/index.html'') then
           (Response (write_resp 200 ''text/html; charset=utf-8'' (page w)), st)
         else if method = ''GET'' \<and> path = ''/health'' then (Response (write_resp 200 ''text/plain'' (as_bytes ''ok'')), st)
         else if method = ''GET'' \<and> path = ''/api/live'' then
           (Response (write_resp 200 ''text/plain; charset=utf-8'' (live w)), st)
         else if method = ''POST'' \<and> path = ''/term/spawn'' then
           (case spawn_session (spawn_error w) (command_of w) (shell_name w body) st of
              (sid, st) \<Rightarrow> (Response (write_resp 200 ''text/plain'' (as_bytes (decimal (unat sid)))), st))
         else if method = ''POST'' \<and> path = ''/term/input'' then
           (Response (write_resp 200 ''text/plain'' (as_bytes ''ok'')), term_input (query_id query) body st)
         else if method = ''POST'' \<and> path = ''/term/kill'' then
           (Response (write_resp 200 ''text/plain'' (as_bytes ''ok'')), term_kill (query_id query) st)
         else if method = ''GET'' \<and> path = ''/term/stream'' then (StreamOf (query_id query), st)
         else if method = ''POST'' \<and> path = ''/win/launch'' then
           (Response (write_resp 200 ''text/plain'' (launch w)), st)
         else (Response (write_resp 404 ''text/plain'' (as_bytes ''not found'')), st))"

section \<open>The request head\<close>

text \<open>The header lines up to the first blank one; \<open>trim_end\<close> and \<open>trim\<close> are those of \<open>str\<close>. The last
  \<^verbatim>\<open>content-length\<close> header wins, and one that does not parse counts as 0.\<close>

fun head_loop :: "(string \<Rightarrow> string) \<Rightarrow> (string \<Rightarrow> string) \<Rightarrow> string list \<Rightarrow> u64 \<Rightarrow> u64" where
  "head_loop trim_end trim [] content_length = content_length"
| "head_loop trim_end trim (line # lines) content_length =
     (let t = trim_end line
      in if t = [] then content_length
         else case strip_prefix ''content-length:'' (map ascii_lower t) of
                Some v \<Rightarrow> head_loop trim_end trim lines (case parse_u64 (trim v) of Some n \<Rightarrow> n | None \<Rightarrow> 0)
              | None \<Rightarrow> head_loop trim_end trim lines content_length)"

text \<open>One connection: the lines read, the first of them split at whitespace by \<open>words\<close>, and the bytes after the
  head. No reply is given when the stream is empty or ends before the announced body.\<close>

definition handle ::
    "host \<Rightarrow> (string \<Rightarrow> string list) \<Rightarrow> (string \<Rightarrow> string) \<Rightarrow> (string \<Rightarrow> string) \<Rightarrow> string list \<Rightarrow> bytes \<Rightarrow> surface \<Rightarrow>
     reply option \<times> surface" where
  "handle w words trim_end trim lines rest st =
     (case lines of
        [] \<Rightarrow> (None, st)
      | req_line # lines \<Rightarrow>
          let parts = words req_line;
              method = (case parts of m # _ \<Rightarrow> m | [] \<Rightarrow> []);
              target = (case parts of _ # t # _ \<Rightarrow> t | _ \<Rightarrow> ''/'');
              content_length = unat (head_loop trim_end trim lines 0)
          in if length rest < content_length then (None, st)
             else case route w method target (take content_length rest) st of (reply, st) \<Rightarrow> (Some reply, st))"

section \<open>The live status\<close>

definition kernel_field :: "string \<Rightarrow> string \<Rightarrow> string" where
  "kernel_field key health =
     foldl (\<lambda>v line.
         case strip_prefix ''HOST8KERNEL|'' line of
           Some rest \<Rightarrow> foldl (\<lambda>v f. case strip_prefix key f of Some x \<Rightarrow> x | None \<Rightarrow> v) v (str_split CHR ''|'' rest)
         | None \<Rightarrow> v)
       ''-'' (str_lines health)"

definition inbox_depth :: "string \<Rightarrow> string" where
  "inbox_depth bus =
     (case str_find bus ([CHR 0x22] @ ''inbox_depth'' @ [CHR 0x22] @ '':'') of
        Some i \<Rightarrow> (let n = takeWhile is_ascii_digit (drop (i + 14) bus) in if n \<noteq> [] then n else ''-'')
      | None \<Rightarrow> ''-'')"

text \<open>\<open>http_get port path\<close> is the body of the reply of a local service, if there is one; \<open>now\<close> is the time,
  \<open>seat\<close> the name of the seat and \<open>fabric_port_for_local\<close> the port of its fabric.\<close>

definition live_status :: "(u16 \<Rightarrow> string \<Rightarrow> string option) \<Rightarrow> u64 \<Rightarrow> string \<Rightarrow> (string \<Rightarrow> u16) \<Rightarrow> string" where
  "live_status http_get now seat fabric_port_for_local =
     (let kernel = (case http_get 5088 ''/health.hbp'' of Some t \<Rightarrow> t | None \<Rightarrow> []);
          kver = kernel_field ''version='' kernel;
          kanchor = kernel_field ''anchor_pid='' kernel;
          kernel_up = kernel \<noteq> [];
          recall_up = http_get 4796 ''/api/health'' \<noteq> None;
          bus = (case http_get 4947 ''/behcs/health'' of Some t \<Rightarrow> t | None \<Rightarrow> []);
          bus_up = bus \<noteq> [];
          inbox = inbox_depth bus;
          fabric_port = fabric_port_for_local seat;
          fabric_up = http_get fabric_port ''/health'' \<noteq> None;
          b = (\<lambda>v. if v then ''1'' else ''0'')
      in ''ASIOSLIVE|ts_unix='' @ decimal (unat now) @ ''|seat='' @ seat @ [CHR 0x0A] @
         ''KERNEL|port=5088|up='' @ b kernel_up @ ''|version='' @ kver @ ''|anchor='' @ kanchor @ [CHR 0x0A] @
         ''RECALL|port=4796|up='' @ b recall_up @ ''|role=local-inverted-index-vault'' @ [CHR 0x0A] @
         ''BUS|port=4947|up='' @ b bus_up @ ''|inbox_depth='' @ inbox @ [CHR 0x0A] @
         ''FABRIC|port='' @ decimal (unat fabric_port) @ ''|up='' @ b fabric_up @ ''|role=super-dashboard'' @ [CHR 0x0A] @
         ''SOVLINUX|role=local-sovereignty-vault|present=unprobed|evidence=UNVERIFIED|gate=operator-witness'' @ [CHR 0x0A])"

section \<open>The event stream\<close>

text \<open>One round of the loop sees what the session has printed, whether it is still in the table and whether
  writing to the client succeeds. The result is what was written and whether the loop ended.\<close>

record round =
  printed :: bytes
  alive :: bool
  write_ok :: bool

definition data_event :: "bytes \<Rightarrow> string" where
  "data_event c = ''data: '' @ base64 c @ [CHR 0x0A, CHR 0x0A]"

fun stream_loop :: "round list \<Rightarrow> nat \<Rightarrow> u32 \<Rightarrow> string list \<times> bool" where
  "stream_loop [] off idle_ticks = ([], False)"
| "stream_loop (r # rs) off idle_ticks =
     (let chunk = (if length (printed r) > off then Some (drop off (printed r)) else None)
      in case chunk of
           Some c \<Rightarrow>
             if write_ok r then
               case stream_loop rs (off + length c) 0 of (evs, e) \<Rightarrow> (data_event c # evs, e)
             else ([], True)
         | None \<Rightarrow>
             if \<not> alive r then ([''event: end'' @ [CHR 0x0A] @ ''data: end'' @ [CHR 0x0A, CHR 0x0A]], True)
             else
               let idle_ticks = idle_ticks + 1
               in if idle_ticks mod 100 = 0 then
                    if write_ok r then
                      case stream_loop rs off idle_ticks of (evs, e) \<Rightarrow> (('': keepalive'' @ [CHR 0x0A, CHR 0x0A]) # evs, e)
                    else ([], True)
                  else stream_loop rs off idle_ticks)"

definition stream_session :: "u64 \<Rightarrow> round list \<Rightarrow> surface \<Rightarrow> bytes \<times> string list \<times> bool" where
  "stream_session sid rounds st =
     (case sessions st sid of
        None \<Rightarrow> (write_resp 404 ''text/plain'' (as_bytes ''no session''), [], True)
      | Some sess \<Rightarrow>
          (as_bytes (''HTTP/1.1 200 OK'' @ CRLF_text @ ''Content-Type: text/event-stream'' @ CRLF_text @
             ''Cache-Control: no-cache'' @ CRLF_text @ ''Connection: keep-alive'' @ CRLF_text @ CRLF_text @
             ''event: label'' @ [CHR 0x0A] @ ''data: '' @ se_label sess @ [CHR 0x0A, CHR 0x0A]),
           stream_loop rounds 0 0))"

section \<open>Lemmas\<close>

lemma spawn_session_eq:
  "fst (spawn_session sp c shell st) = NEXT_ID st"
  "NEXT_ID (snd (spawn_session sp c shell st)) = NEXT_ID st + 1"
  "dom (sessions (snd (spawn_session sp c shell st))) = insert (NEXT_ID st) (dom (sessions st))"
  by (simp_all add: spawn_session_def Let_def split: option.split)

text \<open>A request, and the id it is given when it spawns a session.\<close>

definition spawns :: "string \<times> string \<times> bytes \<Rightarrow> bool" where
  "spawns r = (fst r = ''POST'' \<and> fst (split_target (fst (snd r))) = ''/term/spawn'')"

definition route_issue :: "host \<Rightarrow> string \<times> string \<times> bytes \<Rightarrow> surface \<Rightarrow> u64 option \<times> surface" where
  "route_issue w r st = (if spawns r then Some (NEXT_ID st) else None, snd (route w (fst r) (fst (snd r)) (snd (snd r)) st))"

lemma route_spawn:
  assumes "spawns (m, t, body)"
  shows "snd (route w m t body st) = snd (spawn_session (spawn_error w) (command_of w) (shell_name w body) st)"
proof -
  obtain query where "split_target t = (''/term/spawn'', query)" "m = ''POST''"
    using assms by (cases "split_target t") (simp add: spawns_def)
  then show ?thesis by (simp add: route_def split: prod.split)
qed

definition keeps :: "surface \<Rightarrow> surface \<Rightarrow> bool" where
  "keeps st st' \<longleftrightarrow> NEXT_ID st' = NEXT_ID st \<and> dom (sessions st') \<subseteq> dom (sessions st)"

lemma keeps_if: "(b \<Longrightarrow> keeps st (snd x)) \<Longrightarrow> (\<not> b \<Longrightarrow> keeps st (snd y)) \<Longrightarrow> keeps st (snd (if b then x else y))"
  by simp

lemma route_other:
  assumes "\<not> spawns (m, t, body)"
  shows "keeps st (snd (route w m t body st))"
proof -
  obtain path query where p: "split_target t = (path, query)" by (cases "split_target t")
  have n: "\<not> (m = ''POST'' \<and> path = ''/term/spawn'')" using assms by (simp add: spawns_def p)
  have k: "keeps st st" "keeps st (term_input q body st)" "keeps st (term_kill q st)" for q
    by (auto simp: keeps_def term_input_def term_kill_def split: option.split)
  show ?thesis unfolding route_def p Let_def prod.case
    by (intro keeps_if) (use k n in \<open>simp_all only: snd_conv not_True_eq_False\<close>)
qed

interpretation surface_ids: ticket_counter "route_issue w" NEXT_ID 0 for w
proof
  fix r s v t assume i: "route_issue w r s = (Some v, t)"
  obtain m tg body where r: "r = (m, tg, body)" by (cases r)
  from i have "spawns (m, tg, body)" by (auto simp: route_issue_def r split: if_splits)
  with i show "v = NEXT_ID s + 0 \<and> NEXT_ID t = NEXT_ID s + 1"
    by (auto simp: route_issue_def r route_spawn spawn_session_eq)
next
  fix r s t assume "route_issue w r s = (None, t)"
  then show "NEXT_ID t = NEXT_ID s"
    using route_other [of "fst r" "fst (snd r)" "snd (snd r)" s w] by (auto simp: route_issue_def keeps_def split: if_splits)
qed

definition serve :: "host \<Rightarrow> (string \<times> string \<times> bytes) list \<Rightarrow> surface \<Rightarrow> surface" where
  "serve w rs st = fold (\<lambda>(m, t, body) st. snd (route w m t body st)) rs st"

text \<open>Every session in the table was given an id below the counter.\<close>

definition surface_inv :: "nat \<Rightarrow> surface \<Rightarrow> bool" where
  "surface_inv n st \<longleftrightarrow> unat (NEXT_ID st) \<le> n + 1 \<and> 0 < NEXT_ID st \<and> (\<forall>i \<in> dom (sessions st). i < NEXT_ID st)"

lemma surface_inv_route:
  assumes "surface_inv n st" and "n + 2 < 2 ^ 64"
  shows "surface_inv (n + 1) (snd (route w m t body st))"
proof (cases "spawns (m, t, body)")
  case True
  have u: "unat (NEXT_ID st + 1) = unat (NEXT_ID st) + 1"
    using assms by (simp add: surface_inv_def unat_word_ariths)
  then have lt: "i \<le> NEXT_ID st \<Longrightarrow> i < NEXT_ID st + 1" for i by (simp add: word_le_nat_alt word_less_nat_alt)
  show ?thesis using assms(1) lt lt [of 0] u
    by (auto simp: surface_inv_def route_spawn [OF True] spawn_session_eq less_imp_le)
next
  case False
  from route_other [OF this, of st w] assms(1) show ?thesis by (auto simp: surface_inv_def keeps_def)
qed

lemma surface_inv_serve:
  "surface_inv n st \<Longrightarrow> n + length rs + 1 < 2 ^ 64 \<Longrightarrow> surface_inv (n + length rs) (serve w rs st)"
proof (induction rs arbitrary: n st)
  case (Cons r rs)
  obtain m t body where r: "r = (m, t, body)" by (cases r)
  have "surface_inv (n + 1) (snd (route w m t body st))" using Cons.prems by (intro surface_inv_route) auto
  from Cons.IH [OF this] Cons.prems(2) show ?case by (simp add: serve_def r)
qed (simp add: serve_def)

lemma surface_inv_start: "surface_inv 0 surface_start"
  by (simp add: surface_inv_def surface_start_def)

lemma serve_snoc: "serve w (rs @ [(m, t, body)]) st = snd (route w m t body (serve w rs st))"
  by (simp add: serve_def)

text \<open>An id below the counter is never given again.\<close>

lemma serve_no_return:
  "surface_inv n st \<Longrightarrow> n + length rs + 1 < 2 ^ 64 \<Longrightarrow>
   NEXT_ID st \<le> NEXT_ID (serve w rs st) \<and>
   (\<forall>i \<in> dom (sessions (serve w rs st)). i < NEXT_ID st \<longrightarrow> i \<in> dom (sessions st))"
proof (induction rs rule: rev_induct)
  case (snoc r rs)
  obtain m t body where r: "r = (m, t, body)" by (cases r)
  let ?s = "serve w rs st"
  have inv: "surface_inv (n + length rs) ?s" using snoc.prems by (intro surface_inv_serve) simp_all
  then have "unat (NEXT_ID ?s) + 1 < 2 ^ 64" using snoc.prems(2) by (simp add: surface_inv_def)
  then have up: "NEXT_ID ?s \<le> NEXT_ID ?s + 1" by (simp add: word_le_nat_alt unat_word_ariths)
  have IH: "NEXT_ID st \<le> NEXT_ID ?s" "\<forall>i \<in> dom (sessions ?s). i < NEXT_ID st \<longrightarrow> i \<in> dom (sessions st)"
    using snoc.IH [OF snoc.prems(1)] snoc.prems(2) by simp_all
  show ?case
  proof (cases "spawns (m, t, body)")
    case True
    have "\<not> NEXT_ID ?s < NEXT_ID st" using IH(1) by simp
    then show ?thesis using IH up
      by (auto simp: r serve_snoc route_spawn [OF True] spawn_session_eq)
  next
    case False
    then have k: "NEXT_ID (snd (route w m t body ?s)) = NEXT_ID ?s" "dom (sessions (snd (route w m t body ?s))) \<subseteq> dom (sessions ?s)"
      using route_other [of m t body ?s w] by (simp_all add: keeps_def)
    show ?thesis unfolding r serve_snoc k(1) using IH k(2) by blast
  qed
qed (simp add: serve_def)

text \<open>What a client decodes from an event.\<close>

definition event_bytes :: "string \<Rightarrow> bytes" where
  "event_bytes ev = (case strip_prefix ''data: '' ev of Some t \<Rightarrow> b64_decode (take (length t - 2) t) | None \<Rightarrow> [])"

lemma event_bytes_data: "event_bytes (data_event c) = c"
  by (simp add: event_bytes_def data_event_def strip_prefix_def base64_decodes)

lemma event_bytes_other: "event_bytes (''event: end'' @ x) = []" "event_bytes ('': keepalive'' @ x) = []"
  by (simp_all add: event_bytes_def strip_prefix_def)

lemma stream_loop_delivers:
  "rs \<noteq> [] \<Longrightarrow> list_all write_ok rs \<Longrightarrow> sorted_wrt prefix (map printed rs) \<Longrightarrow> off \<le> length (printed (hd rs)) \<Longrightarrow>
   stream_loop rs off idle = (evs, ended) \<Longrightarrow>
   \<exists>i < length rs. take off (printed (hd rs)) @ concat (map event_bytes evs) = printed (rs ! i) \<and>
     (if ended then \<not> alive (rs ! i) else i = length rs - 1)"
proof (induction rs arbitrary: off idle evs ended)
  case (Cons r rs)
  let ?n = "length (printed r)"
  have step: "\<exists>i < length (r # rs). take off (printed r) @ concat (map event_bytes evs) = printed ((r # rs) ! i) \<and>
      (if ended then \<not> alive ((r # rs) ! i) else i = length (r # rs) - 1)"
    if st: "stream_loop rs ?n idl = (evs', ended)"
      and cat: "take off (printed r) @ concat (map event_bytes evs) = printed r @ concat (map event_bytes evs')" for idl evs'
  proof (cases rs)
    case Nil
    then show ?thesis using st cat by auto
  next
    case rs: (Cons q qs)
    have "prefix (printed r) (printed (hd rs))" using Cons.prems(3) rs by simp
    then have "?n \<le> length (printed (hd rs))" "take ?n (printed (hd rs)) = printed r"
      by (auto simp: prefix_length_le prefix_def)
    from Cons.IH [OF _ _ _ this(1) st] this(2) Cons.prems(2,3) rs obtain i where
      "i < length rs" "printed r @ concat (map event_bytes evs') = printed (rs ! i)"
      "if ended then \<not> alive (rs ! i) else i = length rs - 1" by auto
    then show ?thesis using cat by (intro exI [of _ "Suc i"]) auto
  qed
  consider "?n > off" | "\<not> ?n > off" "\<not> alive r" | "\<not> ?n > off" "alive r" by blast
  then show ?case
  proof cases
    case 1
    then obtain evs' where st: "stream_loop rs ?n 0 = (evs', ended)" and evs: "evs = data_event (drop off (printed r)) # evs'"
      using Cons.prems(2,5) by (auto simp: Let_def split: prod.splits)
    then show ?thesis using step [OF st] by (simp add: event_bytes_data)
  next
    case 2
    then have "evs = [''event: end'' @ [CHR 0x0A] @ ''data: end'' @ [CHR 0x0A, CHR 0x0A]]" "ended"
      using Cons.prems(5) by (auto simp: Let_def)
    then show ?thesis using 2 by (intro exI [of _ 0]) (simp add: event_bytes_other [unfolded append.simps])
  next
    case 3
    then have off: "off = ?n" using Cons.prems(4) by simp
    obtain evs' where st: "stream_loop rs ?n (idle + 1) = (evs', ended)"
      and "evs = evs' \<or> evs = ('': keepalive'' @ [CHR 0x0A, CHR 0x0A]) # evs'"
      using Cons.prems(2,5) 3 off by (auto simp: Let_def split: prod.splits if_splits)
    then have "concat (map event_bytes evs) = concat (map event_bytes evs')"
      by (auto simp: event_bytes_other [unfolded append.simps])
    then have "take off (printed r) @ concat (map event_bytes evs) = printed r @ concat (map event_bytes evs')" using off by simp
    from step [OF st this] show ?thesis by simp
  qed
qed simp

section \<open>Properties\<close>

lemma length_base64: "length (base64 data) = 4 * ((length data + 2) div 3)"
proof (induction "length data" arbitrary: data rule: less_induct)
  case less
  have c: "length (base64_chunk ch) = 4" for ch by (simp add: base64_chunk_def Let_def)
  consider "data = []" | b0 where "data = [b0]" | b0 b1 where "data = [b0, b1]"
    | b0 b1 b2 bs where "data = b0 # b1 # b2 # bs"
    by (metis list.exhaust)
  then show ?case using less by cases (simp_all add: base64_simps c, presburger)
qed

lemma base64_chars: "set (base64 data) \<subseteq> insert CHR ''='' (set b64_table)"
proof -
  have "set (base64_chunk ch) \<subseteq> insert CHR ''='' (set b64_table)" for ch
    using six_bits six_bits(2) [of _ 0] six_bits(3) [of _ 0] b64_table_facts(1)
    by (auto simp: base64_chunk_def Let_def intro!: nth_mem)
  then show ?thesis by (auto simp: base64_def)
qed

text \<open>base64. Decoding by RFC 4648 gives back every byte string that was encoded; the encoding has four
  characters for every three bytes begun and consists of the 64 table characters and the pad, so it
  never contains a line break that would end an event early.\<close>

theorem base64_roundtrip:
  "b64_decode (base64 data) = data \<and> length (base64 data) = 4 * ((length data + 2) div 3) \<and>
   set (base64 data) \<subseteq> insert CHR ''='' (set b64_table) \<and> CHR 0x0A \<notin> set (base64 data)"
proof -
  have "CHR 0x0A \<notin> insert CHR ''='' (set b64_table)" by code_simp
  then show ?thesis using base64_decodes length_base64 base64_chars by blast
qed

text \<open>C26: the event stream loses and repeats nothing. While writes succeed, and whatever the session prints between
  the rounds, the bytes a client decodes from the events are exactly what the session had printed at
  some round: the last one while the stream runs, and one at which the session was gone when it ended.\<close>

theorem stream_delivers:
  assumes "rounds \<noteq> []" and "list_all write_ok rounds" and "sorted_wrt prefix (map printed rounds)"
    and "sessions st sid = Some sess" and "stream_session sid rounds st = (head, evs, ended)"
  shows "\<exists>i < length rounds. concat (map event_bytes evs) = printed (rounds ! i) \<and>
    (if ended then \<not> alive (rounds ! i) else i = length rounds - 1)"
  using stream_loop_delivers [OF assms(1-3), of 0 0 evs ended] assms(4,5) by (simp add: stream_session_def)

theorem stream_delivers_witness:
  "\<exists>evs. stream_session 7 [\<lparr>printed = [1], alive = True, write_ok = True\<rparr>, \<lparr>printed = [1, 2, 3], alive = True, write_ok = True\<rparr>]
      (surface_start\<lparr>sessions := [7 \<mapsto> \<lparr>se_stdin = None, se_out = [], se_child = None, se_label = ''sh''\<rparr>]\<rparr>) = evs \<and>
    concat (map event_bytes (fst (snd evs))) = [1, 2, 3]"
proof -
  let ?rs = "[\<lparr>printed = [1], alive = True, write_ok = True\<rparr>, \<lparr>printed = [1, 2, 3], alive = True, write_ok = True\<rparr>]"
  let ?s = "\<lparr>se_stdin = None, se_out = [], se_child = None, se_label = ''sh''\<rparr>"
  let ?st = "surface_start\<lparr>sessions := [7 \<mapsto> ?s]\<rparr>"
  obtain head evs ended where st: "stream_session 7 ?rs ?st = (head, evs, ended)" by (metis prod_cases3)
  then have "\<not> ended" by (auto simp: stream_session_def Let_def)
  then show ?thesis using stream_delivers [of ?rs ?st 7 ?s head evs ended] st by auto
qed



end
