(* ===== verification/Slot_Liveness.thy ===== *)
theory Slot_Liveness
  imports Envelope
begin

text \<open>
  Termination of the concurrent envelope calls of \<^theory_text>\<open>Envelope\<close>
  (\<^verbatim>\<open>kernel/core/src/envelope/mod.rs\<close>). A thread inside \<open>dispatch_enqueue_bytes\<close> or
  \<open>dispatch_dequeue_bytes\<close> has a number of atomic accesses left that depends on its own call alone:
  the envelope's length for a sender, the spin budget and the buffer's length for a receiver. Each
  step lowers the number of the thread that makes it and leaves those of the others, so the calls
  are wait-free.
\<close>

section \<open>The accesses a thread has left\<close>

fun own_steps :: "slot_pc \<Rightarrow> nat" where
  "own_steps (EReq env _) = length env + 6"
| "own_steps (EByte env _ j) = (length env - j) + 5"
| "own_steps (ELen _ _) = 4"
| "own_steps (ERoute _ _) = 3"
| "own_steps (EDepth _ _) = 2"
| "own_steps (EPublish _ _) = 1"
| "own_steps (EDone _) = 0"
| "own_steps (DReq budget tries k) = (budget - tries) + k + 6"
| "own_steps (DLen k) = k + 5"
| "own_steps DRestore = 1"
| "own_steps (DByte n acc) = (n - length acc) + 4"
| "own_steps (DClearLen _) = 3"
| "own_steps (DClearDepth _) = 2"
| "own_steps (DRelease _) = 1"
| "own_steps (DDone _) = 0"

lemma own_steps_0: "own_steps p = 0 \<longleftrightarrow> (\<exists>r. p = EDone r) \<or> (\<exists>r. p = DDone r)"
  by (cases p) auto

lemma slot_step_lowers:
  assumes "slot_step s t"
  obtains i p where "pcs t = (pcs s)(i := p)" and "own_steps p < own_steps (pcs s i)"
  using assms by cases (auto intro!: that)

lemma slot_step_if_left:
  assumes "own_steps (pcs s i) \<noteq> 0"
  shows "\<exists>t. slot_step s t"
proof (cases "pcs s i")
  case (EReq env r)
  then show ?thesis by (metis enq_oversize enq_full enq_claim not_le)
next
  case (DReq budget tries k)
  then show ?thesis by (metis deq_claim deq_retry deq_empty)
qed (use assms in \<open>simp; metis slot_step.intros\<close>)+

lemma slot_stuck: "(\<nexists>u. slot_step s u) \<longleftrightarrow> (\<forall>i. own_steps (pcs s i) = 0)"
proof
  assume "\<forall>i. own_steps (pcs s i) = 0"
  then show "\<nexists>u. slot_step s u" by (auto elim!: slot_step_lowers)
qed (use slot_step_if_left in blast)

text \<open>A thread that has returned stays as it is, and over a set that holds all the others the
  accesses left add up to a bound of the steps.\<close>

lemma slot_step_sum:
  assumes "slot_step s t" and "finite A" and "\<And>i. i \<notin> A \<Longrightarrow> own_steps (pcs s i) = 0"
  shows "(\<Sum>i\<in>A. own_steps (pcs t i)) < (\<Sum>i\<in>A. own_steps (pcs s i))"
    and "\<And>i. i \<notin> A \<Longrightarrow> own_steps (pcs t i) = 0"
    and "\<And>i. own_steps (pcs t i) \<le> own_steps (pcs s i)"
proof -
  obtain i p where t: "pcs t = (pcs s)(i := p)" and lt: "own_steps p < own_steps (pcs s i)"
    using assms(1) by (rule slot_step_lowers)
  have i: "i \<in> A" using lt assms(3) by fastforce
  then show "\<And>j. j \<notin> A \<Longrightarrow> own_steps (pcs t j) = 0" using t assms(3) by auto
  show "\<And>j. own_steps (pcs t j) \<le> own_steps (pcs s j)" using t lt by simp
  show "(\<Sum>j\<in>A. own_steps (pcs t j)) < (\<Sum>j\<in>A. own_steps (pcs s j))"
    using assms(2) i lt by (intro sum_strict_mono_ex1) (auto simp: t intro!: bexI [of _ i])
qed

lemma slot_steps_sum:
  assumes "(slot_step ^^ n) s t" and "finite A" and "\<And>i. i \<notin> A \<Longrightarrow> own_steps (pcs s i) = 0"
  shows "n + (\<Sum>i\<in>A. own_steps (pcs t i)) \<le> (\<Sum>i\<in>A. own_steps (pcs s i)) \<and>
         (\<forall>i. i \<notin> A \<longrightarrow> own_steps (pcs t i) = 0) \<and> (\<forall>i. own_steps (pcs t i) \<le> own_steps (pcs s i))"
  using assms(1)
proof (induction n arbitrary: t)
  case 0
  then show ?case using assms(3) by simp
next
  case (Suc n)
  then obtain u where u: "(slot_step ^^ n) s u" "slot_step u t" by auto
  note IH = Suc.IH [OF u(1)]
  then have "\<And>i. i \<notin> A \<Longrightarrow> own_steps (pcs u i) = 0" by blast
  note st = slot_step_sum [OF u(2) assms(2) this]
  have "own_steps (pcs t i) \<le> own_steps (pcs s i)" for i
    using IH st(3) [of i] by (meson order_trans)
  then show ?case using IH st(1,2) by auto
qed

text \<open>C12: the envelope calls are wait-free. However the calls of finitely many senders and
  receivers are interleaved, with no fairness assumed, the steps made and the accesses left are
  together at most the sum of the threads' own bounds: a sender makes at most six accesses more than
  its envelope has bytes, a receiver at most six more than its spin budget and its buffer together.
  No step of one thread raises another's bound, and a run that can go no further is one in which
  every call has returned.\<close>

theorem envelope_terminates:
  assumes "finite A" and "\<And>i. i \<notin> A \<Longrightarrow> own_steps (pcs s i) = 0" and "(slot_step ^^ n) s t"
  shows "n + (\<Sum>i\<in>A. own_steps (pcs t i)) \<le> (\<Sum>i\<in>A. own_steps (pcs s i)) \<and>
         (\<forall>i. own_steps (pcs t i) \<le> own_steps (pcs s i)) \<and>
         ((\<nexists>u. slot_step t u) \<longleftrightarrow> (\<forall>i. (\<exists>r. pcs t i = EDone r) \<or> (\<exists>r. pcs t i = DDone r)))"
  using slot_steps_sum [OF assms(3,1,2)] slot_stuck [of t] own_steps_0 by simp

text \<open>A receiver alone with an empty slot and a budget of one poll.\<close>

definition poll0 :: slot_sys where
  "poll0 = \<lparr>slot = slot_init, pcs = (\<lambda>i. if i = 0 then DReq 1 0 8 else EDone (Ok ())), published = [], consumed = []\<rparr>"

theorem envelope_terminates_witness:
  "\<exists>t. (slot_step ^^ 1) poll0 t \<and> 1 + own_steps (pcs t 0) \<le> 15 \<and> (\<nexists>u. slot_step t u)"
proof -
  let ?t = "slot_move poll0 0 (DDone (Err EnvelopeErr.QueueEmpty)) (slot poll0)"
  have "slot_step poll0 ?t"
    by (rule deq_empty [of poll0 0 1 0 8]) (simp_all add: poll0_def slot_init_def slot_states)
  then have run: "(slot_step ^^ 1) poll0 ?t" by (simp only: relpowp_1)
  have rest: "\<And>i. i \<notin> {0} \<Longrightarrow> own_steps (pcs poll0 i) = 0" by (simp add: poll0_def)
  have over: "\<forall>i. (\<exists>r. pcs ?t i = EDone r) \<or> (\<exists>r. pcs ?t i = DDone r)" by (simp add: poll0_def)
  note bound = envelope_terminates [OF _ rest run, of "{0}", simplified]
  have "1 + own_steps (pcs ?t 0) \<le> 15" by simp
  moreover have "\<nexists>u. slot_step ?t u" using bound over by simp
  ultimately show ?thesis using run by blast
qed

end
