(* ===== verification/Vfs_Concurrent.thy ===== *)
theory Vfs_Concurrent
  imports Vfs
begin

text \<open>
  Concurrent callers of \<open>vfs_open\<close> and \<open>vfs_close\<close> (\<^verbatim>\<open>kernel/core/src/vfs/mod.rs\<close>), one atomic access of a
  state byte at a time: the compare-exchange of each slot of the scan, and the swap of a close. A caller
  opens a path, holds the descriptor it was given and closes that descriptor.
\<close>

section \<open>The steps\<close>

datatype fd_pc =
    FReq bytes u32
  | FScan u8 nat
  | FHold u64
  | FRefused VfsErr
  | FClosed "(unit, VfsErr) result"

record fd_sys =
  table :: fd_table
  callers :: "nat \<Rightarrow> fd_pc"

definition fd_move :: "fd_sys \<Rightarrow> nat \<Rightarrow> fd_pc \<Rightarrow> fd_sys" where
  "fd_move s i p = s\<lparr>callers := (callers s)(i := p)\<rparr>"

inductive fd_step :: "fd_sys \<Rightarrow> fd_sys \<Rightarrow> bool" where
  bad_path: "callers s i = FReq path mode \<Longrightarrow> path = [] \<Longrightarrow> fd_step s (fd_move s i (FRefused VfsErr.InvalidPath))"
| bad_mode: "callers s i = FReq path mode \<Longrightarrow> path \<noteq> [] \<Longrightarrow> mode = 0 \<or> mode AND NOT MODE_MASK \<noteq> 0 \<Longrightarrow>
     fd_step s (fd_move s i (FRefused VfsErr.InvalidMode))"
| scan: "callers s i = FReq path mode \<Longrightarrow> path \<noteq> [] \<Longrightarrow> \<not> (mode = 0 \<or> mode AND NOT MODE_MASK \<noteq> 0) \<Longrightarrow>
     fd_step s (fd_move s i (FScan (binding_kind_for_path path) (unat RESERVED_FD_MAX + 1)))"
| cas_ok: "callers s i = FScan kind fd \<Longrightarrow> fd < FD_TABLE_SIZE \<Longrightarrow> table s ! fd = FD_STATE_FREE \<Longrightarrow>
     fd_step s ((fd_move s i (FHold (word_of_nat fd)))\<lparr>table := (table s)[fd := kind]\<rparr>)"
| cas_fail: "callers s i = FScan kind fd \<Longrightarrow> fd < FD_TABLE_SIZE \<Longrightarrow> table s ! fd \<noteq> FD_STATE_FREE \<Longrightarrow>
     fd_step s (fd_move s i (FScan kind (fd + 1)))"
| full: "callers s i = FScan kind fd \<Longrightarrow> \<not> fd < FD_TABLE_SIZE \<Longrightarrow>
     fd_step s (fd_move s i (FRefused VfsErr.TableFull))"
| close: "callers s i = FHold fd \<Longrightarrow> vfs_close fd (table s) = (r, t) \<Longrightarrow>
     fd_step s ((fd_move s i (FClosed r))\<lparr>table := t\<rparr>)"

definition fd_sys_init :: "fd_sys \<Rightarrow> bool" where
  "fd_sys_init s \<longleftrightarrow> table s = fd_init \<and> (\<forall>i. \<exists>path mode. callers s i = FReq path mode)"

inductive fd_reachable :: "fd_sys \<Rightarrow> bool" where
  start: "fd_sys_init s \<Longrightarrow> fd_reachable s"
| step: "fd_reachable s \<Longrightarrow> fd_step s t \<Longrightarrow> fd_reachable t"

section \<open>The invariant\<close>

text \<open>\<open>holds s i n\<close>: caller \<open>i\<close> holds slot \<open>n\<close>. The slots in use are exactly those held, each by one caller, and
  who has closed its descriptor was told so.\<close>

definition holds_fd :: "fd_sys \<Rightarrow> nat \<Rightarrow> nat \<Rightarrow> bool" where
  "holds_fd s i n \<longleftrightarrow> callers s i = FHold (word_of_nat n) \<and> 3 \<le> n \<and> n < FD_TABLE_SIZE"

fun pc_fine :: "fd_pc \<Rightarrow> bool" where
  "pc_fine (FScan kind fd) \<longleftrightarrow> kind \<in> {FD_BIND_UNBACKED, FD_BIND_DEVNULL, FD_BIND_BUSENVELOPE} \<and> 3 \<le> fd"
| "pc_fine (FHold fd) \<longleftrightarrow> (\<exists>n. fd = word_of_nat n \<and> 3 \<le> n \<and> n < FD_TABLE_SIZE)"
| "pc_fine (FClosed r) \<longleftrightarrow> r = Ok ()"
| "pc_fine _ \<longleftrightarrow> True"

definition fd_sys_inv :: "fd_sys \<Rightarrow> bool" where
  "fd_sys_inv s \<longleftrightarrow> fd_inv (table s) \<and> (\<forall>i. pc_fine (callers s i)) \<and>
     (\<forall>n. 3 \<le> n \<and> n < FD_TABLE_SIZE \<longrightarrow> (table s ! n \<noteq> FD_STATE_FREE \<longleftrightarrow> (\<exists>i. holds_fd s i n))) \<and>
     (\<forall>i j n. holds_fd s i n \<and> holds_fd s j n \<longrightarrow> i = j)"

lemma fd_move_simps [simp]:
  "table (fd_move s i p) = table s" "callers (fd_move s i p) = (callers s)(i := p)"
  by (simp_all add: fd_move_def)

lemma slot_word_inj:
  assumes "m < FD_TABLE_SIZE" and "n < FD_TABLE_SIZE"
  shows "(word_of_nat m :: u64) = word_of_nat n \<longleftrightarrow> m = n"
proof -
  have "unat (word_of_nat k :: u64) = k" if "k < FD_TABLE_SIZE" for k
    using that by (simp add: unat_of_nat FD_TABLE_SIZE_def)
  then show ?thesis using assms by metis
qed

lemma fd_sys_invI:
  assumes "fd_inv (table t)" and "\<And>i. pc_fine (callers t i)"
    and "\<And>n. 3 \<le> n \<Longrightarrow> n < FD_TABLE_SIZE \<Longrightarrow> table t ! n \<noteq> FD_STATE_FREE \<longleftrightarrow> (\<exists>i. holds_fd t i n)"
    and "\<And>i j n. holds_fd t i n \<Longrightarrow> holds_fd t j n \<Longrightarrow> i = j"
  shows "fd_sys_inv t"
  using assms by (simp add: fd_sys_inv_def) blast

lemma fd_sys_invD:
  assumes "fd_sys_inv s"
  shows "fd_inv (table s)" and "pc_fine (callers s i)"
    and "3 \<le> n \<Longrightarrow> n < FD_TABLE_SIZE \<Longrightarrow> table s ! n \<noteq> FD_STATE_FREE \<longleftrightarrow> (\<exists>i. holds_fd s i n)"
    and "holds_fd s i n \<Longrightarrow> holds_fd s j n \<Longrightarrow> i = j"
  using assms unfolding fd_sys_inv_def by blast+

text \<open>A step of a caller that holds nothing before or after it changes nothing of the table.\<close>

lemma local_step:
  assumes inv: "fd_sys_inv s" and "\<And>fd. callers s i \<noteq> FHold fd" and "\<And>fd. p \<noteq> FHold fd" and "pc_fine p"
  shows "fd_sys_inv (fd_move s i p)"
proof -
  have h: "holds_fd (fd_move s i p) j n \<longleftrightarrow> holds_fd s j n" for j n
    using assms(2,3) by (auto simp: holds_fd_def)
  show ?thesis using fd_sys_invD [OF inv] assms(4) by (intro fd_sys_invI) (auto simp: h)
qed

lemma take_step:
  assumes inv: "fd_sys_inv s" and pc: "callers s i = FScan kind fd" and fd: "fd < FD_TABLE_SIZE"
    and free: "table s ! fd = FD_STATE_FREE"
  shows "fd_sys_inv ((fd_move s i (FHold (word_of_nat fd)))\<lparr>table := (table s)[fd := kind]\<rparr>)" (is "fd_sys_inv ?t")
proof -
  have k: "kind \<in> {FD_BIND_UNBACKED, FD_BIND_DEVNULL, FD_BIND_BUSENVELOPE}" "3 \<le> fd"
    using fd_sys_invD(2) [OF inv, of i] pc by simp_all
  then have "kind \<noteq> FD_STATE_FREE" by (auto simp: fd_kinds)
  have len: "length (table s) = FD_TABLE_SIZE" using fd_sys_invD(1) [OF inv] by (simp add: fd_inv_def)
  have none: "\<not> holds_fd s j fd" for j using fd_sys_invD(3) [OF inv k(2) fd] free by blast
  have h: "holds_fd ?t j n \<longleftrightarrow> holds_fd s j n \<or> j = i \<and> n = fd" for j n
    using pc fd k(2) by (auto simp: holds_fd_def slot_word_inj)
  show ?thesis
  proof (rule fd_sys_invI)
    show "fd_inv (table ?t)" using fd_inv_update [OF fd_sys_invD(1) [OF inv] k(2) fd] k(1) by auto
    show "pc_fine (callers ?t j)" for j using fd_sys_invD(2) [OF inv, of j] k fd by auto
    show "holds_fd ?t j n \<Longrightarrow> holds_fd ?t l n \<Longrightarrow> j = l" for j l n
      using fd_sys_invD(4) [OF inv] none by (auto simp: h)
    show "table ?t ! n \<noteq> FD_STATE_FREE \<longleftrightarrow> (\<exists>j. holds_fd ?t j n)" if "3 \<le> n" "n < FD_TABLE_SIZE" for n
      using fd_sys_invD(3) [OF inv that] \<open>kind \<noteq> FD_STATE_FREE\<close> that len by (cases "n = fd") (auto simp: h)
  qed
qed

lemma held_close:
  assumes inv: "fd_sys_inv s" and pc: "callers s i = FHold fd"
  obtains n where "holds_fd s i n" and "fd = word_of_nat n" and "vfs_close fd (table s) = (Ok (), (table s)[n := FD_STATE_FREE])"
proof -
  obtain n where n: "fd = word_of_nat n" "3 \<le> n" "n < FD_TABLE_SIZE" using fd_sys_invD(2) [OF inv, of i] pc by auto
  then have h: "holds_fd s i n" using pc by (simp add: holds_fd_def)
  have "table s ! n \<noteq> FD_STATE_FREE" using fd_sys_invD(3) [OF inv n(2,3)] h by blast
  moreover have "unat fd = n" using n by (simp add: unat_of_nat FD_TABLE_SIZE_def)
  ultimately have "vfs_close fd (table s) = (Ok (), (table s)[n := FD_STATE_FREE])"
    using n by (simp add: vfs_close_def fd_consts word_le_nat_alt)
  then show thesis using that h n(1) by blast
qed

lemma close_step:
  assumes inv: "fd_sys_inv s" and pc: "callers s i = FHold fd" and cl: "vfs_close fd (table s) = (r, t)"
  shows "fd_sys_inv ((fd_move s i (FClosed r))\<lparr>table := t\<rparr>)" (is "fd_sys_inv ?t")
proof -
  obtain n where n: "holds_fd s i n" and fd: "fd = word_of_nat n" and "r = Ok ()" and t: "t = (table s)[n := FD_STATE_FREE]"
    using held_close [OF inv pc] cl by (metis prod.inject)
  have n3: "3 \<le> n" "n < FD_TABLE_SIZE" using n by (simp_all add: holds_fd_def)
  have len: "length (table s) = FD_TABLE_SIZE" using fd_sys_invD(1) [OF inv] by (simp add: fd_inv_def)
  have only: "holds_fd s i m \<Longrightarrow> m = n" for m using n by (auto simp: holds_fd_def slot_word_inj)
  have h: "holds_fd ?t j m \<longleftrightarrow> holds_fd s j m \<and> j \<noteq> i" for j m by (auto simp: holds_fd_def)
  show ?thesis
  proof (rule fd_sys_invI)
    show "fd_inv (table ?t)" using fd_inv_update [OF fd_sys_invD(1) [OF inv] n3] by (simp add: t)
    show "pc_fine (callers ?t j)" for j using fd_sys_invD(2) [OF inv, of j] \<open>r = Ok ()\<close> by auto
    show "holds_fd ?t j m \<Longrightarrow> holds_fd ?t l m \<Longrightarrow> j = l" for j l m
      using fd_sys_invD(4) [OF inv] by (auto simp: h)
    show "table ?t ! m \<noteq> FD_STATE_FREE \<longleftrightarrow> (\<exists>j. holds_fd ?t j m)" if "3 \<le> m" "m < FD_TABLE_SIZE" for m
    proof -
      have tm: "table ?t ! m = (if m = n then FD_STATE_FREE else table s ! m)" using len that by (simp add: t)
      note uses = fd_sys_invD(3) [OF inv that]
      show ?thesis
      proof (cases "m = n")
        case True
        then have "\<not> (\<exists>j. holds_fd s j m \<and> j \<noteq> i)" using fd_sys_invD(4) [OF inv n] by metis
        with True show ?thesis unfolding tm h by simp
      next
        case False
        then have "holds_fd s j m \<longleftrightarrow> holds_fd s j m \<and> j \<noteq> i" for j using only by metis
        with False uses show ?thesis unfolding tm h by presburger
      qed
    qed
  qed
qed

lemma fd_step_inv: "fd_step s t \<Longrightarrow> fd_sys_inv s \<Longrightarrow> fd_sys_inv t"
proof (induction rule: fd_step.induct)
  case (scan s i path mode)
  then show ?case using binding_kind_range [of path] by (intro local_step) (auto simp: fd_consts)
next
  case (cas_fail s i kind fd)
  then show ?case using fd_sys_invD(2) [OF cas_fail.prems, of i] by (intro local_step) auto
next
  case (cas_ok s i kind fd)
  then show ?case by (intro take_step)
next
  case (close s i fd r t)
  then show ?case by (intro close_step)
qed (auto intro!: local_step)

lemma fd_reachable_inv: "fd_reachable s \<Longrightarrow> fd_sys_inv s"
proof (induction rule: fd_reachable.induct)
  case (start s)
  then have req: "\<exists>path mode. callers s i = FReq path mode" for i by (simp add: fd_sys_init_def)
  have "\<not> holds_fd s i n" for i n using req [of i] by (auto simp: holds_fd_def)
  moreover have "pc_fine (callers s i)" for i using req [of i] by auto
  moreover have "table s ! n = FD_STATE_FREE" if "n < FD_TABLE_SIZE" for n
    using start that by (simp add: fd_sys_init_def fd_init_def)
  ultimately show ?case using start fd_inv_init by (intro fd_sys_invI) (auto simp: fd_sys_init_def)
qed (blast intro: fd_step_inv)

section \<open>Properties\<close>

text \<open>descriptors under concurrency. However the opens and closes of any number of callers interleave, no
  descriptor is held by two callers, every held descriptor is an open slot above the reserved ones,
  closing it succeeds and has succeeded for whoever has closed, and a slot is in use exactly while a
  caller holds it, so none leaks.\<close>

theorem vfs_concurrent:
  assumes "fd_reachable s"
  shows "(\<forall>i j fd. callers s i = FHold fd \<and> callers s j = FHold fd \<longrightarrow> i = j) \<and>
    (\<forall>i fd. callers s i = FHold fd \<longrightarrow>
       3 \<le> unat fd \<and> unat fd < FD_TABLE_SIZE \<and> vfs_is_open fd (table s) \<and> fst (vfs_close fd (table s)) = Ok ()) \<and>
    (\<forall>i r. callers s i = FClosed r \<longrightarrow> r = Ok ()) \<and>
    (\<forall>n. 3 \<le> n \<and> n < FD_TABLE_SIZE \<and> table s ! n \<noteq> FD_STATE_FREE \<longrightarrow> (\<exists>i. callers s i = FHold (word_of_nat n)))"
proof (intro conjI allI impI)
  have inv: "fd_sys_inv s" using assms by (rule fd_reachable_inv)
  show "i = j" if "callers s i = FHold fd \<and> callers s j = FHold fd" for i j fd
    using that held_close [OF inv, of i fd] fd_sys_invD(4) [OF inv, of i _ j] by (metis holds_fd_def)
  fix i fd assume pc: "callers s i = FHold fd"
  obtain n where n: "holds_fd s i n" "fd = word_of_nat n" "vfs_close fd (table s) = (Ok (), (table s)[n := FD_STATE_FREE])"
    using inv pc by (rule held_close)
  have u: "unat fd = n" and n3: "3 \<le> n" "n < FD_TABLE_SIZE"
    using n(1,2) by (simp_all add: holds_fd_def unat_of_nat FD_TABLE_SIZE_def)
  show "3 \<le> unat fd" "unat fd < FD_TABLE_SIZE" "fst (vfs_close fd (table s)) = Ok ()" using u n3 n(3) by simp_all
  show "vfs_is_open fd (table s)"
    using u n3 fd_sys_invD(3) [OF inv n3] n(1) by (auto simp: vfs_is_open_def)
next
  fix i r assume "callers s i = FClosed r"
  then show "r = Ok ()" using fd_sys_invD(2) [OF fd_reachable_inv [OF assms], of i] by simp
next
  fix n assume "3 \<le> n \<and> n < FD_TABLE_SIZE \<and> table s ! n \<noteq> FD_STATE_FREE"
  then show "\<exists>i. callers s i = FHold (word_of_nat n)"
    using fd_sys_invD(3) [OF fd_reachable_inv [OF assms], of n] by (auto simp: holds_fd_def)
qed

text \<open>A race: caller 0 opens and closes slot 3 while caller 1 has just found it taken.\<close>

definition two_opens :: fd_sys where
  "two_opens = \<lparr>table = fd_init, callers = (\<lambda>_. FReq [1] 1)\<rparr>"

lemma fd_init_nth: "n < FD_TABLE_SIZE \<Longrightarrow> fd_init ! n = FD_STATE_FREE"
  by (simp add: fd_init_def)

lemma length_fd_init: "length fd_init = FD_TABLE_SIZE"
  by (simp add: fd_init_def)

lemma two_opens_race:
  defines "k \<equiv> FD_BIND_UNBACKED" and "c \<equiv> (\<lambda>_. FReq [1] 1) :: nat \<Rightarrow> fd_pc"
  shows "fd_reachable \<lparr>table = fd_init[3 := k], callers = c(0 := FHold 3, 1 := FScan k 4)\<rparr>" (is "fd_reachable ?a")
    and "fd_reachable \<lparr>table = fd_init, callers = c(0 := FClosed (Ok ()), 1 := FScan k 4)\<rparr>" (is "fd_reachable ?b")
proof -
  have ev: "binding_kind_for_path [1] = k" "\<not> ((1 :: u32) = 0 \<or> 1 AND NOT MODE_MASK \<noteq> 0)" "unat RESERVED_FD_MAX + 1 = 3"
    by (simp_all add: binding_kind_for_path_def as_bytes_def k_def MODE_MASK_def O_RDONLY_def O_WRONLY_def O_RDWR_def fd_consts)
  have sz: "3 < FD_TABLE_SIZE" by (simp add: FD_TABLE_SIZE_def)
  have kn: "k \<noteq> FD_STATE_FREE" by (simp add: k_def fd_kinds)
  let ?s1 = "\<lparr>table = fd_init, callers = c(0 := FScan k 3)\<rparr>"
  let ?s2 = "\<lparr>table = fd_init[3 := k], callers = c(0 := FHold 3)\<rparr>"
  let ?s3 = "\<lparr>table = fd_init[3 := k], callers = c(0 := FHold 3, 1 := FScan k 3)\<rparr>"
  have "fd_reachable two_opens" by (rule fd_reachable.start) (simp add: fd_sys_init_def two_opens_def)
  then have "fd_reachable ?s1"
    by (rule fd_reachable.step) (use scan [of two_opens 0 "[1]" 1] ev in \<open>simp add: two_opens_def fd_move_def c_def\<close>)
  then have "fd_reachable ?s2"
    by (rule fd_reachable.step) (use cas_ok [of ?s1 0 k 3] sz in \<open>simp add: fd_move_def fd_init_nth\<close>)
  then have "fd_reachable ?s3"
    by (rule fd_reachable.step) (use scan [of ?s2 1 "[1]" 1] ev in \<open>simp add: fd_move_def c_def\<close>)
  then show a: "fd_reachable ?a"
    by (rule fd_reachable.step) (use cas_fail [of ?s3 1 k 3] sz kn in \<open>simp add: fd_move_def length_fd_init\<close>)
  have "vfs_close 3 (fd_init[3 := k]) = (Ok (), fd_init)"
    using sz kn by (simp add: vfs_close_def fd_consts(4) STDERR_FD_def length_fd_init fd_init_nth list_update_same_conv)
  then have "fd_step ?a ((fd_move ?a 0 (FClosed (Ok ())))\<lparr>table := fd_init\<rparr>)" by (intro close [where fd = 3]) simp_all
  moreover have "(fd_move ?a 0 (FClosed (Ok ())))\<lparr>table := fd_init\<rparr> = ?b" by (simp add: fd_move_def fun_eq_iff)
  ultimately show "fd_reachable ?b" using fd_reachable.step [OF a] by simp
qed

theorem vfs_concurrent_witness:
  "\<exists>s. fd_reachable s \<and> callers s 0 = FHold 3 \<and> vfs_is_open 3 (table s)"
proof -
  let ?s = "\<lparr>table = fd_init[3 := FD_BIND_UNBACKED],
      callers = (\<lambda>_. FReq [1] 1)(0 := FHold 3, 1 := FScan FD_BIND_UNBACKED 4)\<rparr>"
  have r: "fd_reachable ?s" by (rule two_opens_race(1))
  moreover have h: "callers ?s 0 = FHold 3" by simp
  moreover have "vfs_is_open 3 (table ?s)" using vfs_concurrent [OF r] h by blast
  ultimately show ?thesis by blast
qed

text \<open>an open does not always return the lowest free slot: a slot freed behind the scan is passed over, although
  the same call made alone in the same state would return it.\<close>

theorem vfs_open_not_lowest:
  "\<exists>s t. fd_reachable s \<and> fd_step s t \<and> callers t 1 = FHold 4 \<and> table s ! 3 = FD_STATE_FREE \<and>
     fst (vfs_open [1] 1 (table s)) = Ok 3"
proof -
  let ?c = "(\<lambda>_. FReq [1] 1) :: nat \<Rightarrow> fd_pc"
  let ?b = "\<lparr>table = fd_init, callers = ?c(0 := FClosed (Ok ()), 1 := FScan FD_BIND_UNBACKED 4)\<rparr>"
  let ?t = "\<lparr>table = fd_init[4 := FD_BIND_UNBACKED], callers = ?c(0 := FClosed (Ok ()), 1 := FHold 4)\<rparr>"
  have sz: "3 < FD_TABLE_SIZE" "4 < FD_TABLE_SIZE" by (simp_all add: FD_TABLE_SIZE_def)
  have "fd_step ?b ?t"
    using cas_ok [of ?b 1 FD_BIND_UNBACKED 4] sz by (simp add: fd_move_def fd_init_nth)
  moreover have "fst (vfs_open [1] 1 fd_init) = Ok 3"
    using sz by (simp add: vfs_open_def fd_consts(4) STDERR_FD_def open_scan.simps [of _ 3] fd_init_nth
        MODE_MASK_def O_RDONLY_def O_WRONLY_def O_RDWR_def)
  ultimately show ?thesis using two_opens_race(2) sz
    by (intro exI [of _ ?b] exI [of _ ?t]) (simp add: fd_init_nth)
qed

end
