(* ===== verification/Fork_Concurrent.thy ===== *)
theory Fork_Concurrent
  imports Agent_Runtime
begin

text \<open>
  Concurrent calls of \<open>spawn_child_agent\<close> (\<^verbatim>\<open>kernel/core/src/agent_runtime/mod.rs\<close>, the counter behind
  \<open>sys_fork\<close>), one atomic access at a time: the \<open>fetch_add\<close>, and for a caller that finds the registry
  full the \<open>store\<close> that rolls the counter back. Between the two other callers may run.
\<close>

section \<open>The steps\<close>

datatype fork_pc = CReq | CRollback | CDone "(u64, AgentErr) result"

record fork_sys =
  fork_counter :: u64
  forks :: "fork_pc list"

definition fork_move :: "fork_sys \<Rightarrow> nat \<Rightarrow> fork_pc \<Rightarrow> u64 \<Rightarrow> fork_sys" where
  "fork_move s i p c = s\<lparr>forks := (forks s)[i := p], fork_counter := c\<rparr>"

inductive fork_step :: "fork_sys \<Rightarrow> fork_sys \<Rightarrow> bool" where
  reserve: "i < length (forks s) \<Longrightarrow> forks s ! i = CReq \<Longrightarrow> \<not> unat (fork_counter s) \<ge> AGENT_REGISTRY_MAX \<Longrightarrow>
     fork_step s (fork_move s i (CDone (Ok (fork_counter s + 1))) (fork_counter s + 1))"
| saturated: "i < length (forks s) \<Longrightarrow> forks s ! i = CReq \<Longrightarrow> unat (fork_counter s) \<ge> AGENT_REGISTRY_MAX \<Longrightarrow>
     fork_step s (fork_move s i CRollback (fork_counter s + 1))"
| rollback: "i < length (forks s) \<Longrightarrow> forks s ! i = CRollback \<Longrightarrow>
     fork_step s (fork_move s i (CDone (Err RegistryFull)) (word_of_nat AGENT_REGISTRY_MAX))"

text \<open>\<open>n\<close> callers, none of which has started.\<close>

definition fork_init :: "nat \<Rightarrow> fork_sys" where
  "fork_init n = \<lparr>fork_counter = 0, forks = replicate n CReq\<rparr>"

section \<open>The invariant\<close>

definition granted :: "fork_sys \<Rightarrow> nat set" where
  "granted s = {unat h |h. CDone (Ok h) \<in> set (forks s)}"

definition requests :: "fork_sys \<Rightarrow> nat" where
  "requests s = length (filter (\<lambda>p. p = CReq) (forks s))"

text \<open>The handles granted are the numbers up to the counter or the limit, each granted once. The counter is above
  the limit only while a caller is about to roll it back, and it never falls below the limit again;
  it exceeds it by at most the calls made.\<close>

definition unique_handles :: "fork_pc list \<Rightarrow> bool" where
  "unique_handles xs \<longleftrightarrow> (\<forall>i j h. i < length xs \<and> j < length xs \<and> xs ! i = CDone (Ok h) \<and> xs ! j = CDone (Ok h) \<longrightarrow> i = j)"

definition fork_inv :: "nat \<Rightarrow> fork_sys \<Rightarrow> bool" where
  "fork_inv n s \<longleftrightarrow> length (forks s) = n \<and>
     unat (fork_counter s) + requests s \<le> AGENT_REGISTRY_MAX + n \<and>
     granted s = {1..min (unat (fork_counter s)) AGENT_REGISTRY_MAX} \<and>
     unique_handles (forks s) \<and>
     (CRollback \<in> set (forks s) \<longrightarrow> AGENT_REGISTRY_MAX \<le> unat (fork_counter s)) \<and>
     (AGENT_REGISTRY_MAX < unat (fork_counter s) \<longrightarrow> CRollback \<in> set (forks s))"

lemma fork_move_simps [simp]:
  "fork_counter (fork_move s i p c) = c" "forks (fork_move s i p c) = (forks s)[i := p]"
  by (simp_all add: fork_move_def)

lemma requests_update:
  assumes "i < length xs" and "xs ! i = CReq" and "p \<noteq> CReq"
  shows "Suc (length (filter (\<lambda>p. p = CReq) (xs[i := p]))) = length (filter (\<lambda>p. p = CReq) xs)"
  using assms
proof (induction xs arbitrary: i)
  case (Cons x xs)
  then show ?case by (cases i) auto
qed simp

lemma requests_pos: "i < length (forks s) \<Longrightarrow> forks s ! i = CReq \<Longrightarrow> 0 < requests s"
  by (auto simp: requests_def filter_empty_conv dest: nth_mem)

lemma set_update_other:
  assumes "i < length xs" and "xs ! i \<noteq> x" and "p \<noteq> x"
  shows "x \<in> set (xs[i := p]) \<longleftrightarrow> x \<in> set xs"
  using assms by (auto simp: in_set_conv_nth nth_list_update split: if_splits)

lemma granted_other:
  assumes "i < length (forks s)" and "\<And>h. forks s ! i \<noteq> CDone (Ok h)" and "\<And>h. p \<noteq> CDone (Ok h)"
  shows "granted (fork_move s i p c) = granted s"
  using assms by (simp add: granted_def set_update_other)

lemma granted_new:
  assumes "i < length (forks s)" and "\<And>h. forks s ! i \<noteq> CDone (Ok h)"
  shows "granted (fork_move s i (CDone (Ok h)) c) = insert (unat h) (granted s)"
proof -
  have "CDone (Ok k) \<in> set ((forks s)[i := CDone (Ok h)]) \<longleftrightarrow> k = h \<or> CDone (Ok k) \<in> set (forks s)" for k
    using assms set_update_other [of i "forks s" "CDone (Ok k)" "CDone (Ok h)"]
    by (cases "k = h") (auto simp: set_update_memI)
  then show ?thesis by (auto simp: granted_def)
qed

lemma fork_invI:
  assumes "length (forks t) = n" and "unat (fork_counter t) + requests t \<le> AGENT_REGISTRY_MAX + n"
    and "granted t = {1..min (unat (fork_counter t)) AGENT_REGISTRY_MAX}"
    and "unique_handles (forks t)"
    and "CRollback \<in> set (forks t) \<Longrightarrow> AGENT_REGISTRY_MAX \<le> unat (fork_counter t)"
    and "AGENT_REGISTRY_MAX < unat (fork_counter t) \<Longrightarrow> CRollback \<in> set (forks t)"
  shows "fork_inv n t"
  using assms by (auto simp: fork_inv_def)

lemma fork_invD:
  assumes "fork_inv n s"
  shows "length (forks s) = n" and "unat (fork_counter s) + requests s \<le> AGENT_REGISTRY_MAX + n"
    and "granted s = {1..min (unat (fork_counter s)) AGENT_REGISTRY_MAX}"
    and "unique_handles (forks s)"
    and "CRollback \<in> set (forks s) \<Longrightarrow> AGENT_REGISTRY_MAX \<le> unat (fork_counter s)"
    and "AGENT_REGISTRY_MAX < unat (fork_counter s) \<Longrightarrow> CRollback \<in> set (forks s)"
  using assms unfolding fork_inv_def by blast+

lemma counter_up:
  assumes "fork_inv n s" and "AGENT_REGISTRY_MAX + n < 2 ^ 64" and "i < length (forks s)" and "forks s ! i = CReq"
  shows "unat (fork_counter s + 1) = unat (fork_counter s) + 1"
proof -
  have "unat (fork_counter s) + 1 < 2 ^ 64"
    using fork_invD(2) [OF assms(1)] requests_pos [OF assms(3,4)] assms(2) by linarith
  then show ?thesis by (simp add: unat_word_ariths)
qed

lemma unique_update:
  assumes "unique_handles xs" and "\<And>h. p = CDone (Ok h) \<Longrightarrow> CDone (Ok h) \<notin> set xs"
  shows "unique_handles (xs[i := p])"
  unfolding unique_handles_def
proof (intro allI impI, elim conjE)
  fix a b h assume ab: "a < length (xs[i := p])" "b < length (xs[i := p])"
    "xs[i := p] ! a = CDone (Ok h)" "xs[i := p] ! b = CDone (Ok h)"
  then show "a = b"
    using assms(1) assms(2) [of h] unfolding unique_handles_def
    by (cases "a = i"; cases "b = i") (auto dest: nth_mem)
qed

lemma fork_step_inv:
  assumes "fork_step s t" and "fork_inv n s" and "AGENT_REGISTRY_MAX + n < 2 ^ 64"
  shows "fork_inv n t"
  using assms
proof (induction rule: fork_step.induct)
  case (reserve i s)
  let ?c = "fork_counter s"
  note inv = fork_invD [OF reserve.prems(1)]
  have up: "unat (?c + 1) = unat ?c + 1" using counter_up reserve by blast
  have lim: "unat ?c < AGENT_REGISTRY_MAX" using reserve.hyps(3) by simp
  have "unat (?c + 1) \<notin> granted s" using inv(3) up by simp
  then have new: "CDone (Ok (?c + 1)) \<notin> set (forks s)" by (auto simp: granted_def)
  have "granted (fork_move s i (CDone (Ok (?c + 1))) (?c + 1)) = insert (unat (?c + 1)) (granted s)"
    using reserve.hyps by (intro granted_new) simp_all
  also have "\<dots> = {1..min (unat (?c + 1)) AGENT_REGISTRY_MAX}" using inv(3) up lim by auto
  finally have g: "granted (fork_move s i (CDone (Ok (?c + 1))) (?c + 1)) = {1..min (unat (?c + 1)) AGENT_REGISTRY_MAX}" .
  have no: "CRollback \<notin> set (forks s)" using inv(5) lim by auto
  show ?case
  proof (rule fork_invI)
    show "unat (fork_counter (fork_move s i (CDone (Ok (?c + 1))) (?c + 1))) +
        requests (fork_move s i (CDone (Ok (?c + 1))) (?c + 1)) \<le> AGENT_REGISTRY_MAX + n"
      using requests_update [OF reserve.hyps(1,2), of "CDone (Ok (?c + 1))"] inv(2) up by (simp add: requests_def)
    show "unique_handles (forks (fork_move s i (CDone (Ok (?c + 1))) (?c + 1)))"
      using new by (auto intro: unique_update [OF inv(4)])
  qed (use inv(1) g up lim no in \<open>auto dest: set_update_subset_insert [THEN subsetD]\<close>)
next
  case (saturated i s)
  let ?c = "fork_counter s"
  note inv = fork_invD [OF saturated.prems(1)]
  have up: "unat (?c + 1) = unat ?c + 1" using counter_up saturated by blast
  have "granted (fork_move s i CRollback (?c + 1)) = granted s"
    using saturated.hyps by (intro granted_other) simp_all
  then have g: "granted (fork_move s i CRollback (?c + 1)) = {1..min (unat (?c + 1)) AGENT_REGISTRY_MAX}"
    using inv(3) up saturated.hyps(3) by simp
  show ?case
  proof (rule fork_invI)
    show "unat (fork_counter (fork_move s i CRollback (?c + 1))) + requests (fork_move s i CRollback (?c + 1)) \<le> AGENT_REGISTRY_MAX + n"
      using requests_update [OF saturated.hyps(1,2), of CRollback] inv(2) up by (simp add: requests_def)
    show "unique_handles (forks (fork_move s i CRollback (?c + 1)))"
      by (auto intro: unique_update [OF inv(4)])
  qed (use inv(1) g up saturated.hyps in \<open>auto intro: set_update_memI\<close>)
next
  case (rollback i s)
  let ?t = "fork_move s i (CDone (Err RegistryFull)) (word_of_nat AGENT_REGISTRY_MAX)"
  note inv = fork_invD [OF rollback.prems(1)]
  have m: "unat (word_of_nat AGENT_REGISTRY_MAX :: u64) = AGENT_REGISTRY_MAX" by (simp add: AGENT_REGISTRY_MAX_def)
  have "CRollback \<in> set (forks s)" using rollback.hyps nth_mem by metis
  then have c: "AGENT_REGISTRY_MAX \<le> unat (fork_counter s)" by (rule inv(5))
  have "granted ?t = granted s" using rollback.hyps by (intro granted_other) simp_all
  then have g: "granted ?t = {1..min (unat (fork_counter ?t)) AGENT_REGISTRY_MAX}" using inv(3) c m by simp
  have "requests ?t \<le> n"
    using length_filter_le [of "\<lambda>p. p = CReq" "(forks s)[i := CDone (Err RegistryFull)]"] inv(1) by (simp add: requests_def)
  then show ?case
    using unique_update [OF inv(4)] inv(1) g m by (intro fork_invI) auto
qed

lemma fork_inv_init: "fork_inv n (fork_init n)"
  by (auto simp: fork_inv_def fork_init_def granted_def requests_def unique_handles_def)

lemma fork_steps_inv:
  "fork_step\<^sup>*\<^sup>* s t \<Longrightarrow> fork_inv n s \<Longrightarrow> AGENT_REGISTRY_MAX + n < 2 ^ 64 \<Longrightarrow> fork_inv n t"
  by (induction rule: rtranclp_induct) (auto intro: fork_step_inv)

section \<open>Properties\<close>

text \<open>child handles under concurrency. However the calls of \<open>n\<close> callers interleave, the handles granted are
  exactly the numbers from 1 to the counter or the registry limit, each to one caller; the counter is
  above the limit only while some caller is about to roll it back, and when every call has returned it
  is the number of handles granted, at most the limit.\<close>

theorem fork_concurrent:
  assumes "fork_step\<^sup>*\<^sup>* (fork_init n) s" and "AGENT_REGISTRY_MAX + n < 2 ^ 64"
  shows "granted s = {1..min (unat (fork_counter s)) AGENT_REGISTRY_MAX} \<and>
    (\<forall>i j h. i < n \<and> j < n \<and> forks s ! i = CDone (Ok h) \<and> forks s ! j = CDone (Ok h) \<longrightarrow> i = j) \<and>
    (AGENT_REGISTRY_MAX < unat (fork_counter s) \<longrightarrow> (\<exists>i < n. forks s ! i = CRollback)) \<and>
    ((\<forall>i < n. \<exists>r. forks s ! i = CDone r) \<longrightarrow>
       unat (spawn_child_agent_count (fork_counter s)) = card (granted s) \<and> card (granted s) \<le> AGENT_REGISTRY_MAX)"
proof -
  note inv = fork_invD [OF fork_steps_inv [OF assms(1) fork_inv_init assms(2)]]
  have roll: "AGENT_REGISTRY_MAX < unat (fork_counter s) \<longrightarrow> (\<exists>i < n. forks s ! i = CRollback)"
    using inv(1,6) by (metis in_set_conv_nth)
  moreover have "unat (fork_counter s) \<le> AGENT_REGISTRY_MAX" if "\<forall>i < n. \<exists>r. forks s ! i = CDone r"
    using roll that by (metis fork_pc.distinct(5) not_le)
  ultimately show ?thesis
    using inv(1,3,4) by (auto simp: unique_handles_def spawn_child_agent_count_def min_def)
qed

text \<open>Two callers, one after the other.\<close>

theorem fork_concurrent_witness:
  "\<exists>s. fork_step\<^sup>*\<^sup>* (fork_init 2) s \<and> forks s = [CDone (Ok 1), CDone (Ok 2)] \<and> granted s = {1..2}"
proof -
  let ?a = "\<lparr>fork_counter = 1, forks = [CDone (Ok 1), CReq]\<rparr>" and ?b = "\<lparr>fork_counter = 2, forks = [CDone (Ok 1), CDone (Ok 2)]\<rparr>"
  have ini: "fork_init 2 = \<lparr>fork_counter = 0, forks = [CReq, CReq]\<rparr>" by (simp add: fork_init_def numeral_2_eq_2)
  have "fork_step (fork_init 2) ?a"
    using reserve [of 0 "fork_init 2"] by (simp add: ini fork_move_def AGENT_REGISTRY_MAX_def)
  moreover have "fork_step ?a ?b"
    using reserve [of 1 ?a] by (simp add: fork_move_def AGENT_REGISTRY_MAX_def)
  ultimately have run: "fork_step\<^sup>*\<^sup>* (fork_init 2) ?b" by (meson converse_rtranclp_into_rtranclp rtranclp.rtrancl_refl)
  have "granted ?b = {1..2}" using fork_concurrent [OF run] by (simp add: AGENT_REGISTRY_MAX_def)
  then show ?thesis using run by (intro exI [of _ ?b]) simp
qed

end
