(* ===== verification/Atlas_Codegen.thy ===== *)
theory Atlas_Codegen
  imports Atlas Host_Text
begin

text \<open>
  The build script of the core crate, \<^verbatim>\<open>kernel/core/build.rs\<close>: it reads the atlas file, a text of rows
  of fields separated by bars, and writes a Rust source with three lookup functions. The file system
  and the environment are arguments. The meaning of the generated source is given by \<open>arms_of\<close>, which
  reads the arms of one of its \<open>match\<close> expressions as the compiler does, and \<open>generated_lookup\<close>, the
  first arm that matches.
\<close>

section \<open>The script\<close>

record atlas_row =
  row_cp :: u16
  row_domain :: string
  row_supervisor :: string
  row_lane :: string

definition HBP_PATH :: string where "HBP_PATH = ''C:/HyperBEHCS/store/atlas-canonical-1024.hbp''"

text \<open>One \<open>key=value\<close> part of a row.\<close>

definition row_part :: "string \<Rightarrow> atlas_row \<Rightarrow> atlas_row" where
  "row_part part r =
     (case str_find part ''='' of
        None \<Rightarrow> r
      | Some eq \<Rightarrow>
          let key = take eq part; val = drop (eq + 1) part
          in if key = ''cp'' then r\<lparr>row_cp := (case parse_u16 val of Some n \<Rightarrow> n | None \<Rightarrow> 0)\<rparr>
             else if key = ''domain'' then r\<lparr>row_domain := val\<rparr>
             else if key = ''supervisor'' then r\<lparr>row_supervisor := val\<rparr>
             else if key = ''lane'' then r\<lparr>row_lane := val\<rparr>
             else r)"

definition parse_row :: "string \<Rightarrow> atlas_row" where
  "parse_row line =
     fold row_part (str_split (CHR ''|'') line)
       \<lparr>row_cp = 0, row_domain = [], row_supervisor = [], row_lane = []\<rparr>"

definition parse_rows :: "string \<Rightarrow> atlas_row list" where
  "parse_rows content = map parse_row (filter (prefix ''HATLASCP|'') (str_lines content))"

abbreviation LF :: char where "LF \<equiv> CHR 0x0A"
abbreviation QUOTE :: char where "QUOTE \<equiv> CHR 0x22"

definition emit_arm :: "u16 \<Rightarrow> string \<Rightarrow> string" where
  "emit_arm cp txt = ''        '' @ decimal (unat cp) @ '' => Some('' @ [QUOTE] @ txt @ [QUOTE] @ ''),'' @ [LF]"

definition emit_atlas :: "atlas_row list \<Rightarrow> string" where
  "emit_atlas rows =
     ''// AUTO-GENERATED by build.rs from atlas-canonical-1024.hbp; do not edit by hand.'' @ [LF, LF] @
     ''pub const ATLAS_CP_COUNT_FROM_HBP: u16 = '' @ decimal (length rows) @ '';'' @ [LF, LF] @
     ''pub const fn domain_for_cp_generated(cp: u16) -> Option<&'' @ [CHR 0x27] @ ''static str> {'' @ [LF] @
     ''    match cp {'' @ [LF] @
     concat (map (\<lambda>r. emit_arm (row_cp r) (row_domain r)) rows) @
     ''        _ => None,'' @ [LF] @ ''    }'' @ [LF] @ ''}'' @ [LF, LF] @
     ''pub const fn supervisor_for_cp_generated(cp: u16) -> Option<&'' @ [CHR 0x27] @ ''static str> {'' @ [LF] @
     ''    match cp {'' @ [LF] @
     concat (map (\<lambda>r. emit_arm (row_cp r) (row_supervisor r)) rows) @
     ''        _ => None,'' @ [LF] @ ''    }'' @ [LF] @ ''}'' @ [LF, LF] @
     ''pub const fn lane_for_cp_generated(cp: u16) -> Option<&'' @ [CHR 0x27] @ ''static str> {'' @ [LF] @
     ''    match cp {'' @ [LF] @
     concat (map (\<lambda>r. emit_arm (row_cp r) (row_lane r)) rows) @
     ''        _ => None,'' @ [LF] @ ''    }'' @ [LF] @ ''}'' @ [LF]"

text \<open>The script ends without writing, or with a panic, or having written the text to the path.\<close>

datatype build_outcome = BuildSkipped | BuildPanic | BuildWrote string string

text \<open>\<open>read\<close> is \<open>fs::read_to_string\<close>, \<open>out_dir\<close> the variable \<open>OUT_DIR\<close>, \<open>join\<close> is \<open>Path::join\<close> and
  \<open>write_ok\<close> whether \<open>fs::write\<close> succeeds. The first component is what is printed for cargo.\<close>

definition core_build_main ::
    "(string \<Rightarrow> string option) \<Rightarrow> string option \<Rightarrow> (string \<Rightarrow> string \<Rightarrow> string) \<Rightarrow> (string \<Rightarrow> string \<Rightarrow> bool) \<Rightarrow>
     string list \<times> build_outcome" where
  "core_build_main read out_dir join write_ok =
     (let rerun = ''cargo:rerun-if-changed='' @ HBP_PATH
      in case read HBP_PATH of
           None \<Rightarrow> ([rerun, ''cargo:warning=atlas-canonical-1024.hbp not found; skipping codegen''], BuildSkipped)
         | Some content \<Rightarrow>
             let out = emit_atlas (parse_rows content)
             in ([rerun],
                 case out_dir of
                   None \<Rightarrow> BuildPanic
                 | Some d \<Rightarrow>
                     let path = join d ''atlas_generated.rs''
                     in if write_ok path out then BuildWrote path out else BuildPanic))"

section \<open>The meaning of the generated source\<close>

text \<open>One arm: the pattern's digits and the text of the string literal, which is the text between the
  quotes as long as it has no quote and no backslash.\<close>

definition read_arm :: "string \<Rightarrow> (nat \<times> string) option" where
  "read_arm l =
     (case strip_prefix ''        '' l of
        None \<Rightarrow> None
      | Some l \<Rightarrow>
          let ds = takeWhile is_ascii_digit l; rest = dropWhile is_ascii_digit l
          in case strip_prefix ('' => Some('' @ [QUOTE]) rest of
               None \<Rightarrow> None
             | Some r \<Rightarrow>
                 let body = take (length r - 3) r
                 in if ds \<noteq> [] \<and> r = body @ [QUOTE] @ ''),'' \<and> QUOTE \<notin> set body \<and> CHR 0x5C \<notin> set body
                    then Some (digits_value ds, body) else None)"

text \<open>The arms of the function \<open>name\<close>, from its second line on up to the default arm.\<close>

definition fn_line :: "string \<Rightarrow> string" where
  "fn_line name = ''pub const fn '' @ name @ ''(cp: u16) -> Option<&'' @ [CHR 0x27] @ ''static str> {''"

definition arms_of :: "string \<Rightarrow> string \<Rightarrow> (nat \<times> string) list option" where
  "arms_of name src =
     those (map read_arm (takeWhile (\<lambda>l. l \<noteq> ''        _ => None,'')
       (drop 2 (dropWhile (\<lambda>l. l \<noteq> fn_line name) (str_lines src)))))"

text \<open>A \<open>match\<close> takes the first arm that fits.\<close>

definition generated_lookup :: "string \<Rightarrow> string \<Rightarrow> u16 \<Rightarrow> string option" where
  "generated_lookup name src cp =
     (case arms_of name src of Some arms \<Rightarrow> map_of arms (unat cp) | None \<Rightarrow> None)"

section \<open>Reading the rows\<close>

text \<open>A row of the atlas file, as the script expects it, and the texts that survive the trip: without the
  separators of the file and without what a string literal treats specially.\<close>

definition atlas_line :: "atlas_row \<Rightarrow> string" where
  "atlas_line r = ''HATLASCP|cp='' @ decimal (unat (row_cp r)) @ ''|domain='' @ row_domain r @
     ''|supervisor='' @ row_supervisor r @ ''|lane='' @ row_lane r"

definition plain_text :: "string \<Rightarrow> bool" where
  "plain_text s = list_all (\<lambda>c. c \<noteq> CHR ''|'' \<and> c \<noteq> LF \<and> c \<noteq> CHR 0x0D \<and> c \<noteq> QUOTE \<and> c \<noteq> CHR 0x5C) s"

definition plain_row :: "atlas_row \<Rightarrow> bool" where
  "plain_row r \<longleftrightarrow> plain_text (row_domain r) \<and> plain_text (row_supervisor r) \<and> plain_text (row_lane r)"

lemma plain_text_notin:
  assumes "plain_text s"
  shows "CHR ''|'' \<notin> set s" "LF \<notin> set s" "CHR 0x0D \<notin> set s" "QUOTE \<notin> set s" "CHR 0x5C \<notin> set s"
  using assms by (auto simp: plain_text_def list_all_iff)

lemma decimal_notin [simp]:
  "CHR ''|'' \<notin> set (decimal n)" "LF \<notin> set (decimal n)" "CHR 0x0D \<notin> set (decimal n)"
  by (rule not_digit_decimal, simp add: is_ascii_digit_def byte_of_def)+

lemma row_part_keys [simp]:
  "row_part ''HATLASCP'' r = r"
  "row_part (''cp='' @ v) r = r\<lparr>row_cp := (case parse_u16 v of Some n \<Rightarrow> n | None \<Rightarrow> 0)\<rparr>"
  "row_part (''domain='' @ v) r = r\<lparr>row_domain := v\<rparr>"
  "row_part (''supervisor='' @ v) r = r\<lparr>row_supervisor := v\<rparr>"
  "row_part (''lane='' @ v) r = r\<lparr>row_lane := v\<rparr>"
  by (simp_all add: row_part_def)

lemma atlas_line_parts:
  assumes "plain_row r"
  shows "str_split (CHR ''|'') (atlas_line r) =
     [''HATLASCP'', ''cp='' @ decimal (unat (row_cp r)), ''domain='' @ row_domain r,
      ''supervisor='' @ row_supervisor r, ''lane='' @ row_lane r]"
proof -
  have line: "atlas_line r = ''HATLASCP'' @ CHR ''|'' # (''cp='' @ decimal (unat (row_cp r))) @ CHR ''|'' #
      (''domain='' @ row_domain r) @ CHR ''|'' # (''supervisor='' @ row_supervisor r) @ CHR ''|'' #
      (''lane='' @ row_lane r)"
    by (simp add: atlas_line_def)
  have no_bar: "CHR ''|'' \<notin> set ''HATLASCP''" "CHR ''|'' \<notin> set (''cp='' @ decimal (unat (row_cp r)))"
    "CHR ''|'' \<notin> set (''domain='' @ row_domain r)" "CHR ''|'' \<notin> set (''supervisor='' @ row_supervisor r)"
    "CHR ''|'' \<notin> set (''lane='' @ row_lane r)"
    using assms by (auto simp: plain_row_def dest!: plain_text_notin(1))
  show ?thesis unfolding line
    by (simp only: str_split_append [OF no_bar(1)] str_split_append [OF no_bar(2)] str_split_append [OF no_bar(3)]
        str_split_append [OF no_bar(4)] str_split_no_sep [OF no_bar(5)])
qed

lemma parse_atlas_line: "plain_row r \<Longrightarrow> parse_row (atlas_line r) = r"
  by (simp add: parse_row_def atlas_line_parts del: append.simps)

text \<open>Lines of another kind in the file are passed over.\<close>

lemma parse_rows_printed:
  assumes "list_all plain_row rows"
  shows "parse_rows (concat (map (\<lambda>r. atlas_line r @ [LF]) rows)) = rows"
proof -
  have "list_all (\<lambda>l. LF \<notin> set l \<and> CHR 0x0D \<notin> set l) (map atlas_line rows)"
    using assms plain_text_notin(2,3) by (auto simp: list_all_iff plain_row_def atlas_line_def)
  from str_lines_printed [OF this]
  have "str_lines (concat (map (\<lambda>r. atlas_line r @ [LF]) rows)) = map atlas_line rows"
    by (simp add: comp_def)
  moreover have "filter (prefix ''HATLASCP|'') (map atlas_line rows) = map atlas_line rows"
    by (simp add: filter_id_conv atlas_line_def)
  moreover have "map (parse_row \<circ> atlas_line) rows = rows"
    using assms by (intro map_idI) (simp add: parse_atlas_line list_all_iff)
  ultimately show ?thesis by (simp add: parse_rows_def)
qed

section \<open>Reading the generated source\<close>

definition arm_line :: "u16 \<Rightarrow> string \<Rightarrow> string" where
  "arm_line cp txt = ''        '' @ decimal (unat cp) @ '' => Some('' @ [QUOTE] @ txt @ [QUOTE] @ ''),''"

definition table_lines :: "string \<Rightarrow> string list \<Rightarrow> string list" where
  "table_lines name arms = [fn_line name, ''    match cp {''] @ arms @ [''        _ => None,'', ''    }'', ''}'']"

definition atlas_lines :: "atlas_row list \<Rightarrow> string list" where
  "atlas_lines rows =
     [''// AUTO-GENERATED by build.rs from atlas-canonical-1024.hbp; do not edit by hand.'', [],
      ''pub const ATLAS_CP_COUNT_FROM_HBP: u16 = '' @ decimal (length rows) @ '';'', []] @
     table_lines ''domain_for_cp_generated'' (map (\<lambda>r. arm_line (row_cp r) (row_domain r)) rows) @ [[]] @
     table_lines ''supervisor_for_cp_generated'' (map (\<lambda>r. arm_line (row_cp r) (row_supervisor r)) rows) @ [[]] @
     table_lines ''lane_for_cp_generated'' (map (\<lambda>r. arm_line (row_cp r) (row_lane r)) rows)"

lemma emit_atlas_lines: "emit_atlas rows = concat (map (\<lambda>l. l @ [LF]) (atlas_lines rows))"
  by (simp add: emit_atlas_def atlas_lines_def table_lines_def fn_line_def emit_arm_def arm_line_def comp_def)

lemma read_arm_line:
  assumes "plain_text txt"
  shows "read_arm (arm_line cp txt) = Some (unat cp, txt)"
proof -
  let ?rest = "'' => Some('' @ [QUOTE] @ txt @ [QUOTE] @ ''),''"
  have sp: "strip_prefix ''        '' (arm_line cp txt) = Some (decimal (unat cp) @ ?rest)"
    unfolding arm_line_def by (rule strip_prefix_append)
  have sp2: "strip_prefix ('' => Some('' @ [QUOTE]) ?rest = Some (txt @ [QUOTE] @ ''),'')"
    using strip_prefix_append [of "'' => Some('' @ [QUOTE]" "txt @ [QUOTE] @ ''),''"] by simp
  have no: "\<not> is_ascii_digit (hd ?rest)" by (simp add: is_ascii_digit_def byte_of_def)
  have tw: "takeWhile is_ascii_digit (decimal (unat cp) @ ?rest) = decimal (unat cp)"
    and dw: "dropWhile is_ascii_digit (decimal (unat cp) @ ?rest) = ?rest"
    using no by (simp_all add: takeWhile_append2 [OF decimal_digits] dropWhile_append2 [OF decimal_digits])
  show ?thesis
    unfolding read_arm_def sp option.case tw dw sp2 Let_def using plain_text_notin(4,5) [OF assms] by simp
qed

lemma read_section:
  assumes "list_all (\<lambda>l. l \<noteq> fn_line name) pre" and "list_all (\<lambda>l. l \<noteq> ''        _ => None,'') arms"
  shows "takeWhile (\<lambda>l. l \<noteq> ''        _ => None,'')
           (drop 2 (dropWhile (\<lambda>l. l \<noteq> fn_line name) (pre @ table_lines name arms @ post))) = arms"
proof -
  have "dropWhile (\<lambda>l. l \<noteq> fn_line name) (pre @ table_lines name arms @ post) = table_lines name arms @ post"
    using assms(1) by (subst dropWhile_append2) (auto simp: list_all_iff table_lines_def)
  then show ?thesis
    using assms(2) by (simp add: table_lines_def takeWhile_append2 list_all_iff)
qed

lemma arm_line_distinct: "arm_line cp txt \<noteq> fn_line name" "arm_line cp txt \<noteq> ''        _ => None,''"
proof -
  obtain c cs where d: "decimal (unat cp) = c # cs" by (cases "decimal (unat cp)") auto
  then have "is_ascii_digit c" using decimal_digits [of c "unat cp"] by simp
  then have "c \<noteq> CHR ''_''" by (auto simp: is_ascii_digit_def byte_of_def)
  then show "arm_line cp txt \<noteq> ''        _ => None,''" by (simp add: arm_line_def d)
qed (simp add: arm_line_def fn_line_def)

lemma fn_line_distinct:
  "''    match cp {'' \<noteq> fn_line name" "''        _ => None,'' \<noteq> fn_line name" "''    }'' \<noteq> fn_line name"
  "''}'' \<noteq> fn_line name" "[] \<noteq> fn_line name" "fn_line m = fn_line name \<longleftrightarrow> m = name"
  by (simp_all add: fn_line_def)

lemma other_table:
  "m \<noteq> name \<Longrightarrow> list_all (\<lambda>l. l \<noteq> fn_line name) (table_lines m (map (\<lambda>r. arm_line (row_cp r) (f r)) rows))"
  by (simp add: table_lines_def fn_line_distinct arm_line_distinct list_all_iff image_iff)

lemma those_map_Some: "(\<And>x. x \<in> set xs \<Longrightarrow> f x = Some (g x)) \<Longrightarrow> those (map f xs) = Some (map g xs)"
  by (induction xs) auto

lemma atlas_lines_text: "list_all plain_row rows \<Longrightarrow> str_lines (emit_atlas rows) = atlas_lines rows"
  unfolding emit_atlas_lines
  by (rule str_lines_printed)
    (use plain_text_notin(2,3) in \<open>auto simp: atlas_lines_def table_lines_def fn_line_def arm_line_def
        list_all_iff plain_row_def\<close>)

lemma arms_of_section:
  assumes "str_lines src = pre @ table_lines name (map (\<lambda>r. arm_line (row_cp r) (f r)) rows) @ post"
    and "list_all (\<lambda>l. l \<noteq> fn_line name) pre" and "\<And>r. r \<in> set rows \<Longrightarrow> plain_text (f r)"
  shows "arms_of name src = Some (map (\<lambda>r. (unat (row_cp r), f r)) rows)"
proof -
  have "list_all (\<lambda>l. l \<noteq> ''        _ => None,'') (map (\<lambda>r. arm_line (row_cp r) (f r)) rows)"
    using arm_line_distinct(2) by (auto simp: list_all_iff)
  then show ?thesis
    unfolding arms_of_def assms(1) using assms(2,3)
    by (subst read_section) (auto simp: comp_def read_arm_line intro!: those_map_Some)
qed

lemma arms_of_emitted:
  assumes "list_all plain_row rows"
  shows "arms_of ''domain_for_cp_generated'' (emit_atlas rows) = Some (map (\<lambda>r. (unat (row_cp r), row_domain r)) rows)"
    and "arms_of ''supervisor_for_cp_generated'' (emit_atlas rows) = Some (map (\<lambda>r. (unat (row_cp r), row_supervisor r)) rows)"
    and "arms_of ''lane_for_cp_generated'' (emit_atlas rows) = Some (map (\<lambda>r. (unat (row_cp r), row_lane r)) rows)"
proof -
  have pl: "r \<in> set rows \<Longrightarrow> plain_text (row_domain r)" "r \<in> set rows \<Longrightarrow> plain_text (row_supervisor r)"
    "r \<in> set rows \<Longrightarrow> plain_text (row_lane r)" for r
    using assms by (auto simp: list_all_iff plain_row_def)
  let ?head = "[''// AUTO-GENERATED by build.rs from atlas-canonical-1024.hbp; do not edit by hand.'', [],
      ''pub const ATLAS_CP_COUNT_FROM_HBP: u16 = '' @ decimal (length rows) @ '';'', []]"
  let ?dom = "table_lines ''domain_for_cp_generated'' (map (\<lambda>r. arm_line (row_cp r) (row_domain r)) rows)"
  let ?sup = "table_lines ''supervisor_for_cp_generated'' (map (\<lambda>r. arm_line (row_cp r) (row_supervisor r)) rows)"
  let ?lane = "table_lines ''lane_for_cp_generated'' (map (\<lambda>r. arm_line (row_cp r) (row_lane r)) rows)"
  have text_lines: "str_lines (emit_atlas rows) = ?head @ ?dom @ [[]] @ ?sup @ [[]] @ ?lane"
    using atlas_lines_text [OF assms] by (simp only: atlas_lines_def)
  have head: "list_all (\<lambda>l. l \<noteq> fn_line name) ?head" for name by (simp add: fn_line_def)
  have sep: "list_all (\<lambda>l. l \<noteq> fn_line name) [[]]" for name by (simp add: fn_line_def)
  show "arms_of ''domain_for_cp_generated'' (emit_atlas rows) = Some (map (\<lambda>r. (unat (row_cp r), row_domain r)) rows)"
    using text_lines head pl(1) by (rule arms_of_section)
  show "arms_of ''supervisor_for_cp_generated'' (emit_atlas rows) = Some (map (\<lambda>r. (unat (row_cp r), row_supervisor r)) rows)"
    using text_lines pl(2)
    by (intro arms_of_section [where pre = "?head @ ?dom @ [[]]" and post = "[[]] @ ?lane"])
      (simp_all only: append.assoc append_Nil2 list_all_append head sep, simp_all add: other_table)
  show "arms_of ''lane_for_cp_generated'' (emit_atlas rows) = Some (map (\<lambda>r. (unat (row_cp r), row_lane r)) rows)"
    using text_lines pl(3)
    by (intro arms_of_section [where pre = "?head @ ?dom @ [[]] @ ?sup @ [[]]" and post = "[]"])
      (simp_all only: append.assoc append_Nil2 list_all_append head sep, simp_all add: other_table)
qed

section \<open>Properties\<close>

lemma map_of_unat: "map_of (map (\<lambda>r. (unat (row_cp r), f r)) rows) (unat cp) = map_of (map (\<lambda>r. (row_cp r, f r)) rows) cp"
  by (induction rows) (simp_all add: word_unat_eq_iff)

lemma generated_lookup_emitted:
  assumes "list_all plain_row rows"
  shows "generated_lookup ''domain_for_cp_generated'' (emit_atlas rows) cp = map_of (map (\<lambda>r. (row_cp r, row_domain r)) rows) cp"
    and "generated_lookup ''supervisor_for_cp_generated'' (emit_atlas rows) cp = map_of (map (\<lambda>r. (row_cp r, row_supervisor r)) rows) cp"
    and "generated_lookup ''lane_for_cp_generated'' (emit_atlas rows) cp = map_of (map (\<lambda>r. (row_cp r, row_lane r)) rows) cp"
  using arms_of_emitted [OF assms] by (simp_all add: generated_lookup_def map_of_unat)

text \<open>C29: the generated tables say what the atlas file says. When the file lists rows whose texts contain
  no separator and no character special in a string literal, the build writes a source whose three
  functions, read as the compiler reads a \<open>match\<close>, return for every codepoint the domain, the
  supervisor and the lane of the first row with that codepoint, and nothing for the others.\<close>

theorem atlas_codegen_roundtrip:
  assumes "list_all plain_row rows" and "read HBP_PATH = Some (concat (map (\<lambda>r. atlas_line r @ [LF]) rows))"
    and "\<And>src. write_ok (join d ''atlas_generated.rs'') src"
  shows "\<exists>src. snd (core_build_main read (Some d) join write_ok) = BuildWrote (join d ''atlas_generated.rs'') src \<and>
     (\<forall>cp. generated_lookup ''domain_for_cp_generated'' src cp = map_of (map (\<lambda>r. (row_cp r, row_domain r)) rows) cp \<and>
           generated_lookup ''supervisor_for_cp_generated'' src cp = map_of (map (\<lambda>r. (row_cp r, row_supervisor r)) rows) cp \<and>
           generated_lookup ''lane_for_cp_generated'' src cp = map_of (map (\<lambda>r. (row_cp r, row_lane r)) rows) cp)"
proof -
  have "snd (core_build_main read (Some d) join write_ok) = BuildWrote (join d ''atlas_generated.rs'') (emit_atlas rows)"
    using assms by (simp add: core_build_main_def parse_rows_printed)
  then show ?thesis using generated_lookup_emitted [OF assms(1)] by blast
qed

definition sample_rows :: "atlas_row list" where
  "sample_rows =
     [\<lparr>row_cp = 0, row_domain = ''legacy'', row_supervisor = ''sealer'', row_lane = ''memory''\<rparr>,
      \<lparr>row_cp = 256, row_domain = ''sovereignty'', row_supervisor = ''gaia'', row_lane = ''skeletal''\<rparr>]"

theorem atlas_codegen_roundtrip_witness:
  "\<exists>src. snd (core_build_main (\<lambda>_. Some (concat (map (\<lambda>r. atlas_line r @ [LF]) sample_rows))) (Some ''out'')
            (\<lambda>d f. d @ ''/'' @ f) (\<lambda>_ _. True)) = BuildWrote ''out/atlas_generated.rs'' src \<and>
     generated_lookup ''supervisor_for_cp_generated'' src 256 = Some ''gaia'' \<and>
     generated_lookup ''supervisor_for_cp_generated'' src 7 = None"
proof -
  have "list_all plain_row sample_rows"
    by (simp add: sample_rows_def plain_row_def plain_text_def)
  from atlas_codegen_roundtrip [OF this, of "\<lambda>_. Some (concat (map (\<lambda>r. atlas_line r @ [LF]) sample_rows))"
      "\<lambda>_ _. True" "\<lambda>d f. d @ ''/'' @ f" "''out''"]
  obtain src where "snd (core_build_main (\<lambda>_. Some (concat (map (\<lambda>r. atlas_line r @ [LF]) sample_rows))) (Some ''out'')
      (\<lambda>d f. d @ ''/'' @ f) (\<lambda>_ _. True)) = BuildWrote ''out/atlas_generated.rs'' src"
    and "\<And>cp. generated_lookup ''supervisor_for_cp_generated'' src cp =
      map_of (map (\<lambda>r. (row_cp r, row_supervisor r)) sample_rows) cp"
    by auto
  then show ?thesis by (intro exI [of _ src]) (simp add: sample_rows_def)
qed

text \<open>the drift check: from a file that lists the 1024 codepoints with the names of their hand-coded
  domains, supervisors and lanes, under any plain naming, the generated functions are the hand-coded
  ones on every \<open>u16\<close>.\<close>

definition hand_row :: "(AtlasDomain \<Rightarrow> string) \<Rightarrow> (AtlasSupervisor \<Rightarrow> string) \<Rightarrow> (AtlasLane \<Rightarrow> string) \<Rightarrow> u16 \<Rightarrow> atlas_row" where
  "hand_row dn sn ln cp =
     \<lparr>row_cp = cp, row_domain = dn (the (domain_for_cp cp)), row_supervisor = sn (the (supervisor_for_cp cp)),
      row_lane = ln (the (lane_for_cp cp))\<rparr>"

lemma map_of_codepoints:
  assumes "\<And>cp. t cp \<noteq> None \<longleftrightarrow> is_valid_cp cp"
  shows "map_of (map (\<lambda>cp. (cp, f (the (t cp)))) (map word_of_nat [0..<1024])) cp = map_option f (t cp)"
proof -
  have mem: "cp \<in> set (map word_of_nat [0..<1024]) \<longleftrightarrow> is_valid_cp cp"
  proof
    assume "is_valid_cp cp"
    then have "unat cp < 1024"
      by (simp add: is_valid_cp_def BEHCS_1024_CP_COUNT_def word_less_nat_alt)
    then have "(word_of_nat (unat cp) :: u16) \<in> set (map word_of_nat [0..<1024])"
      unfolding set_map by (intro imageI) simp
    then show "cp \<in> set (map word_of_nat [0..<1024])" by simp
  qed (auto simp: is_valid_cp_def BEHCS_1024_CP_COUNT_def word_less_nat_alt unat_of_nat)
  show ?thesis unfolding map_of_map_restrict restrict_map_def mem
    using assms [of cp] by (cases "t cp") simp_all
qed

theorem atlas_codegen_drift:
  assumes "\<And>d. plain_text (dn d)" and "\<And>v. plain_text (sn v)" and "\<And>l. plain_text (ln l)"
  shows "let src = emit_atlas (map (\<lambda>n. hand_row dn sn ln (word_of_nat n)) [0..<1024])
         in generated_lookup ''domain_for_cp_generated'' src cp = map_option dn (domain_for_cp cp) \<and>
            generated_lookup ''supervisor_for_cp_generated'' src cp = map_option sn (supervisor_for_cp cp) \<and>
            generated_lookup ''lane_for_cp_generated'' src cp = map_option ln (lane_for_cp cp)"
proof -
  let ?rows = "map (\<lambda>n. hand_row dn sn ln (word_of_nat n)) [0..<1024]"
  have pl: "list_all plain_row ?rows"
    using assms by (simp add: list_all_iff plain_row_def hand_row_def)
  have tot: "domain_for_cp c \<noteq> None \<longleftrightarrow> is_valid_cp c" "supervisor_for_cp c \<noteq> None \<longleftrightarrow> is_valid_cp c"
    "lane_for_cp c \<noteq> None \<longleftrightarrow> is_valid_cp c" for c
    using atlas_tables_total [of c] by simp_all
  have eq: "map (\<lambda>r. (row_cp r, row_domain r)) ?rows = map (\<lambda>c. (c, dn (the (domain_for_cp c)))) (map word_of_nat [0..<1024])"
    "map (\<lambda>r. (row_cp r, row_supervisor r)) ?rows = map (\<lambda>c. (c, sn (the (supervisor_for_cp c)))) (map word_of_nat [0..<1024])"
    "map (\<lambda>r. (row_cp r, row_lane r)) ?rows = map (\<lambda>c. (c, ln (the (lane_for_cp c)))) (map word_of_nat [0..<1024])"
    by (simp_all add: hand_row_def comp_def)
  show ?thesis unfolding Let_def generated_lookup_emitted [OF pl] eq
    using map_of_codepoints [of domain_for_cp dn, OF tot(1)] map_of_codepoints [of supervisor_for_cp sn, OF tot(2)]
      map_of_codepoints [of lane_for_cp ln, OF tot(3)] by blast
qed

end
