(* ===== verification/Parity_Vectors.thy ===== *)
theory Parity_Vectors
  imports Sha256 Pid
begin

text \<open>
  The parity vectors of \<^verbatim>\<open>kernel/core/src/triple_runtime_parity.rs\<close>: PIDs with the fingerprints the other
  runtimes of the federation compute. The fingerprint is evaluated in the kernel on the SHA-256 of
  the standard, \<open>fips_sha256\<close>.
\<close>

definition HISTORICAL_VECTORS :: "(string \<times> string) list" where
  "HISTORICAL_VECTORS =
     [(''OP-RAYSSA-PID-G0000-A00-W000'', ''bf5fa7a1a57f384b''),
      (''OPERATOR-PID-H1001-A00-W110'', ''760ba73b84f31861''),
      (''ASOLARIA-FEDERATION-REMAKE-1024-PID-2026-05-11'', ''e00b1a465d6dcb50'')]"

definition AETHER_MIGRATION_VECTOR :: "string \<times> string" where
  "AETHER_MIGRATION_VECTOR = (''AETHER-CLAUDE-PID-G0049-A00-W001'', ''ac28f4ce43d17fea'')"

section \<open>The fingerprints\<close>

lemma fingerprint_op_rayssa:
  "pid_fingerprint_sha16 fips_sha256 ''OP-RAYSSA-PID-G0000-A00-W000'' = ''bf5fa7a1a57f384b''"
  by code_simp

lemma fingerprint_operator:
  "pid_fingerprint_sha16 fips_sha256 ''OPERATOR-PID-H1001-A00-W110'' = ''760ba73b84f31861''"
  by code_simp

lemma fingerprint_federation:
  "pid_fingerprint_sha16 fips_sha256 ''ASOLARIA-FEDERATION-REMAKE-1024-PID-2026-05-11'' = ''e00b1a465d6dcb50''"
  by code_simp

lemma fingerprint_aether:
  "pid_fingerprint_sha16 fips_sha256 ''AETHER-CLAUDE-PID-G0049-A00-W001'' = ''ac28f4ce43d17fea''"
  by code_simp

end
