(* ===== verification/Identities.thy ===== *)
theory Identities
  imports Parity_Vectors Syscall Boot_Identity
begin

text \<open>
  The identities the components use, against the PID grammar of theory \<open>Pid\<close>: the PIDs of the parity
  vectors, of the boot identity and of the federation anchor, and the agent PIDs of the registry,
  which are a namespace of their own.
\<close>

section \<open>Lemmas\<close>

lemmas mint_eval = mint_pid_def mint_pid_extended_def is_valid_region_def is_valid_host_code_def is_valid_hex_n_def
  is_ascii_hexdigit_def is_ascii_digit_def byte_of_def GRAND_def HOST_def FEDERATION_def DATA_def

text \<open>A strictly valid PID, from a minting that gives it.\<close>

lemma validate_minted:
  assumes "rl \<in> set KNOWN_ROLES"
  shows "mint_pid rl g h a w = Ok s \<Longrightarrow> validate_pid s True = Ok () \<and> classify_subclass s = Regular"
    and "mint_pid_extended rl g h a w t n = Ok s \<Longrightarrow> validate_pid s True = Ok () \<and> classify_subclass s = RegularExtended"
    and "mint_anchor_pid rl d = Ok s \<Longrightarrow> validate_pid s True = Ok () \<and> classify_subclass s = Anchored"
  using assms by (auto dest!: parse_mint_short parse_mint_ext parse_mint_anchor
      simp: validate_pid_def classify_subclass_def is_valid_role_def list_ex_iff)

lemma known_roles: "''ACER'' \<in> set KNOWN_ROLES" "''OP-JESSE'' \<in> set KNOWN_ROLES" "''OP-RAYSSA'' \<in> set KNOWN_ROLES"
  "''OPERATOR'' \<in> set KNOWN_ROLES" "''ASOLARIA-FEDERATION-REMAKE-1024'' \<in> set KNOWN_ROLES"
  "''AETHER-CLAUDE'' \<notin> set KNOWN_ROLES"
  by (simp_all add: KNOWN_ROLES_def)

lemma set_hex12: "c \<in> set (hex12 v) \<Longrightarrow> is_ascii_digit c \<or> is_ascii_uppercase c"
proof -
  assume "c \<in> set (hex12 v)"
  then obtain i where c: "c = HEX_UPPER ! unat (drop_bit (4 * i) v AND 0xF)" by (auto simp: hex12_def)
  have "unat (drop_bit (4 * i) v AND 0xF) < 16"
    using word_and_le1 [of "drop_bit (4 * i) v" "0xF"] by (simp add: word_le_nat_alt)
  then have "c \<in> set HEX_UPPER" unfolding c by (intro nth_mem) (simp add: HEX_UPPER_def)
  then show ?thesis by (auto simp: HEX_UPPER_def is_ascii_digit_def is_ascii_uppercase_def byte_of_def)
qed

lemma agent_pid_no_marker: "\<not> str_contains (mint_agent_pid handle rl v t) ''-PID-''"
proof -
  have "CHR ''-'' \<notin> set (hex12 x)" for x
    using set_hex12 [of "CHR ''-''" x] by (auto simp: is_ascii_digit_def is_ascii_uppercase_def byte_of_def)
  from pid_find_skip [OF this, of _ "[]"] have "\<not> str_contains (hex12 x) ''-PID-''" for x by simp
  then show ?thesis
    by (cases v; cases rl) (simp_all add: mint_agent_pid_def Let_def)
qed

lemma fingerprint_bytes:
  assumes "pid_fingerprint_sha16 sha pid = hex_bytes bs" and "length bs = 8" and "length (sha (as_bytes pid)) = 32"
  shows "take 8 (sha (as_bytes pid)) = bs"
  using assms hex_bytes_inj [of "take 8 (sha (as_bytes pid))" bs]
  by (simp add: pid_fingerprint_sha16_def hex_bytes_def)

section \<open>Properties\<close>



end
