(* ===== verification/Surface_Host.thy ===== *)
theory Surface_Host
  imports Surface
begin

text \<open>
  The rest of the surface program (\<^verbatim>\<open>surface/src/main.rs\<close>): the identity of the seat, the probes of the
  local services, the page, the Windows launcher and the accept loop, over a record \<open>os\<close> of what the
  operating system answers. \<open>host_of\<close> fills in the record the router of theory \<open>Surface\<close> takes.
  \<open>INDEX_HTML\<close>, the page compiled into the program, is a field: its text is data.
\<close>

section \<open>The operating system\<close>

text \<open>
  The environment, \<open>fs::read_to_string\<close>, the seconds since the epoch (none when the clock is before it),
  \<open>Path::exists\<close>, the error of starting a program (none when it starts), and a TCP connection: for a
  host, a port and a request, none if connecting, setting the time-out or writing fails, and otherwise
  the results of its reads, none for an error. \<open>str::trim\<close> and \<open>String::from_utf8_lossy\<close> are fields too.
\<close>

record os =
  env_var :: "string \<Rightarrow> string option"
  read_to_string :: "string \<Rightarrow> string option"
  since_epoch :: "u64 option"
  path_exists :: "string \<Rightarrow> bool"
  start_error :: "string \<times> string list \<Rightarrow> string option"
  tcp :: "string \<Rightarrow> u16 \<Rightarrow> string \<Rightarrow> bytes option list option"
  trim :: "string \<Rightarrow> string"
  utf8_lossy :: "bytes \<Rightarrow> string"
  INDEX_HTML :: string

definition env_or :: "os \<Rightarrow> string \<Rightarrow> string \<Rightarrow> string option" where
  "env_or sys a b = (case env_var sys a of Some v \<Rightarrow> Some v | None \<Rightarrow> env_var sys b)"

section \<open>Identity, clock and ports\<close>

definition read_ident :: "os \<Rightarrow> string \<Rightarrow> string \<Rightarrow> string \<Rightarrow> string" where
  "read_ident sys env_key file dflt =
     (let env_value = env_var sys env_key;
          home = env_or sys ''HOME'' ''USERPROFILE''
      in resolve_ident (trim sys) env_value home file dflt (read_to_string sys))"

definition seat_name :: "os \<Rightarrow> string" where
  "seat_name sys = read_ident sys ''ASOLARIA_SEAT'' ''seat.name'' ''ASOLARIA-NODE''"

definition seat_pid :: "os \<Rightarrow> string" where
  "seat_pid sys = read_ident sys ''ASOLARIA_PID'' ''seat.pid'' ''unregistered''"

definition now_unix :: "os \<Rightarrow> u64" where
  "now_unix sys = (case since_epoch sys of Some s \<Rightarrow> s | None \<Rightarrow> 0)"

definition fabric_port_for_local :: "os \<Rightarrow> string \<Rightarrow> u16" where
  "fabric_port_for_local sys seat = fabric_port_for_context seat (env_or sys ''COMPUTERNAME'' ''HOSTNAME'')"

section \<open>Probing a service\<close>

text \<open>The loop ends at an empty read or an error.\<close>

fun read_loop :: "bytes option list \<Rightarrow> bytes \<Rightarrow> bytes" where
  "read_loop [] buf = buf"
| "read_loop (None # rs) buf = buf"
| "read_loop (Some chunk # rs) buf = (if chunk = [] then buf else read_loop rs (buf @ chunk))"

definition http_get :: "os \<Rightarrow> string \<Rightarrow> u16 \<Rightarrow> string \<Rightarrow> string option" where
  "http_get sys hst port path =
     (let req = ''GET '' @ path @ '' HTTP/1.1'' @ CRLF_text @ ''Host: '' @ hst @ CRLF_text @
                ''Connection: close'' @ CRLF_text @ CRLF_text
      in case tcp sys hst port req of
           None \<Rightarrow> None
         | Some reads \<Rightarrow>
             let buf = read_loop reads []
             in if buf = [] then None else Some (http_response_body (utf8_lossy sys buf)))"

section \<open>Launching a desktop\<close>

definition EM_DASH :: string where "EM_DASH = [CHR 0xE2, CHR 0x80, CHR 0x94]"

definition SANDBOX :: string where
  "SANDBOX = ''C:'' @ [CHR 0x5C] @ ''Windows'' @ [CHR 0x5C] @ ''System32'' @ [CHR 0x5C] @ ''WindowsSandbox.exe''"

definition launch_windows_env :: "os \<Rightarrow> string" where
  "launch_windows_env sys =
     (if path_exists sys SANDBOX \<and> start_error sys (SANDBOX, []) = None then
        ''launched Windows Sandbox '' @ EM_DASH @ '' a clean Windows env in its own window''
      else case start_error sys (''explorer.exe'', [''shell:MyComputerFolder'']) of
             None \<Rightarrow> ''launched Windows '' @ EM_DASH @ '' host desktop / Explorer as a window''
           | Some e \<Rightarrow> ''could not launch Windows env: '' @ e)"

section \<open>The page, the router's host and the accept loop\<close>

text \<open>\<open>str::replace\<close> of a pattern that is not empty: every match, from the left, without overlap.\<close>

function str_replace :: "string \<Rightarrow> string \<Rightarrow> string \<Rightarrow> string" where
  "str_replace p r [] = []"
| "str_replace p r (c # cs) =
     (if p \<noteq> [] \<and> prefix p (c # cs) then r @ str_replace p r (drop (length p - 1) cs)
      else c # str_replace p r cs)"
  by pat_completeness auto
termination by (relation "measure (\<lambda>(p, r, s). length s)") auto

definition index_page :: "os \<Rightarrow> string" where
  "index_page sys =
     str_replace ''__ASOLARIA_PID__'' (seat_pid sys) (str_replace ''__ASOLARIA_SEAT__'' (seat_name sys) (INDEX_HTML sys))"

definition live_block :: "os \<Rightarrow> string" where
  "live_block sys =
     live_status (\<lambda>port path. http_get sys ''127.0.0.1'' port path) (now_unix sys) (seat_name sys)
       (fabric_port_for_local sys)"

definition host_of :: "os \<Rightarrow> (string \<Rightarrow> string \<times> string list) \<Rightarrow> host" where
  "host_of sys shell_command =
     \<lparr>page = as_bytes (index_page sys), live = as_bytes (live_block sys), launch = as_bytes (launch_windows_env sys),
      shell_name = (\<lambda>body. trim sys (utf8_lossy sys body)), spawn_error = start_error sys, command_of = shell_command\<rparr>"

text \<open>The connections accepted, in the order in which they are handled, each with what the system
  answers meanwhile; an error of \<open>accept\<close> is skipped. Without the port the program panics.\<close>

fun accept_loop ::
    "(string \<Rightarrow> string \<times> string list) \<Rightarrow> (string \<Rightarrow> string list) \<Rightarrow> (string \<Rightarrow> string) \<Rightarrow> (os \<times> string list \<times> bytes) option list \<Rightarrow>
     surface \<Rightarrow> reply option list \<times> surface" where
  "accept_loop shell_command words trim_end [] st = ([], st)"
| "accept_loop shell_command words trim_end (None # cs) st = accept_loop shell_command words trim_end cs st"
| "accept_loop shell_command words trim_end (Some (sys, lines, rest) # cs) st =
     (case handle (host_of sys shell_command) words trim_end (trim sys) lines rest st of
        (r, st) \<Rightarrow>
          case accept_loop shell_command words trim_end cs st of (rs, st) \<Rightarrow> (r # rs, st))"

definition surface_main ::
    "bool \<Rightarrow> (string \<Rightarrow> string \<times> string list) \<Rightarrow> (string \<Rightarrow> string list) \<Rightarrow> (string \<Rightarrow> string) \<Rightarrow>
     (os \<times> string list \<times> bytes) option list \<Rightarrow> (reply option list \<times> surface) option" where
  "surface_main bind_ok shell_command words trim_end conns =
     (if bind_ok then Some (accept_loop shell_command words trim_end conns surface_start) else None)"

section \<open>Lemmas\<close>

lemma str_split_join:
  "fs \<noteq> [] \<Longrightarrow> list_all (\<lambda>f. d \<notin> set f) fs \<Longrightarrow> str_split d (str_join d fs) = fs"
proof (induction d fs rule: str_join.induct)
  case (3 d s t ts)
  then show ?case by (simp add: str_split_append)
qed (simp_all add: str_split_no_sep)

text \<open>A text that cannot end the field or the row it is printed in.\<close>

definition field_text :: "string \<Rightarrow> bool" where
  "field_text v \<longleftrightarrow> CHR ''|'' \<notin> set v \<and> CHR 0x0A \<notin> set v"

lemma field_text_decimal [simp]: "field_text (decimal n)"
  by (simp add: field_text_def not_digit_decimal is_ascii_digit_def byte_of_def)

lemma strip_prefix_subset: "strip_prefix p s = Some t \<Longrightarrow> set t \<subseteq> set s"
  by (auto simp: strip_prefix_def split: if_splits dest: in_set_dropD)

lemma field_fold:
  assumes "CHR 0x0A \<notin> set rest" and "field_text v"
  shows "field_text (foldl (\<lambda>v f. case strip_prefix key f of Some x \<Rightarrow> x | None \<Rightarrow> v) v (str_split CHR ''|'' rest))"
proof -
  have seg: "field_text f" if "f \<in> set (str_split CHR ''|'' rest)" for f
    using assms(1) that str_split_seg_no_sep [OF that] str_split_seg_subset [OF that] by (auto simp: field_text_def)
  have "(\<And>f. f \<in> set fs \<Longrightarrow> field_text f) \<Longrightarrow> field_text v \<Longrightarrow>
      field_text (foldl (\<lambda>v f. case strip_prefix key f of Some x \<Rightarrow> x | None \<Rightarrow> v) v fs)" for fs
    by (induction fs arbitrary: v) (auto simp: field_text_def split: option.split dest!: strip_prefix_subset)
  then show ?thesis using seg assms(2) by blast
qed

lemma kernel_field_text: "field_text (kernel_field key health)"
proof -
  let ?f = "\<lambda>v line. case strip_prefix ''HOST8KERNEL|'' line of
      Some rest \<Rightarrow> foldl (\<lambda>v f. case strip_prefix key f of Some x \<Rightarrow> x | None \<Rightarrow> v) v (str_split CHR ''|'' rest)
    | None \<Rightarrow> v"
  have step: "CHR 0x0A \<notin> set line \<Longrightarrow> field_text v \<Longrightarrow> field_text (?f v line)" for v line
    by (auto split: option.split intro!: field_fold dest!: strip_prefix_subset)
  have "(\<And>l. l \<in> set ls \<Longrightarrow> CHR 0x0A \<notin> set l) \<Longrightarrow> field_text v \<Longrightarrow> field_text (foldl ?f v ls)" for ls v
    by (induction ls arbitrary: v) (simp_all add: step)
  moreover have "field_text ''-''" by (simp add: field_text_def)
  ultimately show ?thesis unfolding kernel_field_def using str_lines_no_lf by blast
qed

lemma inbox_depth_text: "field_text (inbox_depth bus)"
  by (auto simp: inbox_depth_def field_text_def Let_def is_ascii_digit_def byte_of_def split: option.split dest!: set_takeWhileD)

section \<open>Properties\<close>

text \<open>The rows of a block, each ended by a line feed, as the keys of their fields.\<close>

definition row_keys :: "string \<Rightarrow> string list list" where
  "row_keys txt = map (\<lambda>row. map (takeWhile (\<lambda>c. c \<noteq> CHR ''='')) (str_split CHR ''|'' row))
     (butlast (str_split (CHR 0x0A) txt))"

definition printed_rows :: "string list list \<Rightarrow> string" where
  "printed_rows rows = concat (map (\<lambda>fs. str_join CHR ''|'' fs @ [CHR 0x0A]) rows)"

lemma set_str_join: "set (str_join d fs) \<subseteq> insert d (\<Union>f \<in> set fs. set f)"
  by (induction d fs rule: str_join.induct) auto

lemma row_keys_printed:
  assumes "list_all (\<lambda>fs. fs \<noteq> [] \<and> list_all field_text fs) rows"
  shows "row_keys (printed_rows rows) = map (map (takeWhile (\<lambda>c. c \<noteq> CHR ''=''))) rows"
proof -
  have "list_all (\<lambda>l. CHR 0x0A \<notin> set l) (map (str_join CHR ''|'') rows)"
    using assms set_str_join by (fastforce simp: list_all_iff field_text_def)
  from str_split_lines [OF this]
  have "butlast (str_split (CHR 0x0A) (printed_rows rows)) = map (str_join CHR ''|'') rows"
    by (simp add: printed_rows_def comp_def)
  moreover have "str_split CHR ''|'' (str_join CHR ''|'' fs) = fs" if "fs \<in> set rows" for fs
    using assms that by (intro str_split_join) (auto simp: list_all_iff field_text_def)
  ultimately show ?thesis by (simp add: row_keys_def)
qed

definition up_flag :: "bool \<Rightarrow> string" where "up_flag v = ''up='' @ (if v then ''1'' else ''0'')"

lemma live_status_rows:
  "live_status get now seat port = printed_rows
     [[''ASIOSLIVE'', ''ts_unix='' @ decimal (unat now), ''seat='' @ seat],
      [''KERNEL'', ''port=5088'', up_flag ((case get 5088 ''/health.hbp'' of Some t \<Rightarrow> t | None \<Rightarrow> []) \<noteq> []),
       ''version='' @ kernel_field ''version='' (case get 5088 ''/health.hbp'' of Some t \<Rightarrow> t | None \<Rightarrow> []),
       ''anchor='' @ kernel_field ''anchor_pid='' (case get 5088 ''/health.hbp'' of Some t \<Rightarrow> t | None \<Rightarrow> [])],
      [''RECALL'', ''port=4796'', up_flag (get 4796 ''/api/health'' \<noteq> None), ''role=local-inverted-index-vault''],
      [''BUS'', ''port=4947'', up_flag ((case get 4947 ''/behcs/health'' of Some t \<Rightarrow> t | None \<Rightarrow> []) \<noteq> []),
       ''inbox_depth='' @ inbox_depth (case get 4947 ''/behcs/health'' of Some t \<Rightarrow> t | None \<Rightarrow> [])],
      [''FABRIC'', ''port='' @ decimal (unat (port seat)), up_flag (get (port seat) ''/health'' \<noteq> None), ''role=super-dashboard''],
      [''SOVLINUX'', ''role=local-sovereignty-vault'', ''present=unprobed'', ''evidence=UNVERIFIED'', ''gate=operator-witness'']]"
  by (simp add: live_status_def printed_rows_def up_flag_def Let_def)

lemma field_text_append [simp]: "field_text (a @ b) \<longleftrightarrow> field_text a \<and> field_text b"
  by (auto simp: field_text_def)

lemma field_text_flag [simp]: "field_text (up_flag b)"
  by (simp add: up_flag_def field_text_def)

lemma flag_key: "takeWhile (\<lambda>c. c \<noteq> CHR ''='') (up_flag b) = ''up''"
  by (simp add: up_flag_def)

text \<open>C28: the status block has its documented shape whatever the probed services answer. Unless the seat's own
  name contains a bar or a line feed, the block consists of exactly the six rows, each with its tag
  and its keys in order: no answer of a service, however malformed, can add, remove or forge a row or
  a field.\<close>

theorem live_block_schema:
  assumes "field_text (seat_name sys)"
  shows "row_keys (live_block sys) =
     [[''ASIOSLIVE'', ''ts_unix'', ''seat''], [''KERNEL'', ''port'', ''up'', ''version'', ''anchor''],
      [''RECALL'', ''port'', ''up'', ''role''], [''BUS'', ''port'', ''up'', ''inbox_depth''],
      [''FABRIC'', ''port'', ''up'', ''role''], [''SOVLINUX'', ''role'', ''present'', ''evidence'', ''gate'']]"
proof -
  have const: "list_all field_text [''ASIOSLIVE'', ''ts_unix='', ''seat='', ''KERNEL'', ''port=5088'', ''version='', ''anchor='',
      ''RECALL'', ''port=4796'', ''role=local-inverted-index-vault'', ''BUS'', ''port=4947'', ''inbox_depth='', ''FABRIC'', ''port='',
      ''role=super-dashboard'', ''SOVLINUX'', ''role=local-sovereignty-vault'', ''present=unprobed'', ''evidence=UNVERIFIED'',
      ''gate=operator-witness'']"
    by (simp add: field_text_def)
  show ?thesis unfolding live_block_def live_status_rows
    by (subst row_keys_printed)
      (use assms const in \<open>simp_all only: list.pred_inject field_text_append field_text_flag field_text_decimal
        kernel_field_text inbox_depth_text list.distinct simp_thms\<close>, simp add: flag_key)
qed

text \<open>A kernel that answers with a forged status row.\<close>

definition sample_os :: os where
  "sample_os = \<lparr>env_var = (\<lambda>_. None), read_to_string = (\<lambda>_. None), since_epoch = Some 5, path_exists = (\<lambda>_. False),
     start_error = (\<lambda>_. Some ''no''),
     tcp = (\<lambda>h p r. if p = 5088 then Some [Some (as_bytes (''HOST8KERNEL|version=1'' @ [CHR 0x0A] @ ''BUS|port=4947|up=1''))] else None),
     trim = id, utf8_lossy = map (\<lambda>b. char_of (unat b)), INDEX_HTML = []\<rparr>"

theorem live_block_schema_witness:
  "seat_name sample_os = ''ASOLARIA-NODE'' \<and> length (row_keys (live_block sample_os)) = 6"
proof -
  have n: "seat_name sample_os = ''ASOLARIA-NODE''"
    by (simp add: seat_name_def read_ident_def resolve_ident_def env_or_def sample_os_def)
  then have "field_text (seat_name sample_os)" by (simp add: field_text_def)
  from live_block_schema [OF this] n show ?thesis by simp
qed

section \<open>The accept loop keeps the session table\<close>

lemma surface_inv_mono: "surface_inv n st \<Longrightarrow> surface_inv (n + 1) st"
  by (simp add: surface_inv_def)

lemma surface_inv_handle:
  assumes "surface_inv n st" and "n + 2 < 2 ^ 64"
  shows "surface_inv (n + 1) (snd (handle w words te tr lines rest st))"
  using assms surface_inv_mono [OF assms(1)] surface_inv_route [OF assms]
  by (auto simp: handle_def Let_def split: list.split prod.split) (metis snd_conv)+

lemma accept_loop_inv:
  "surface_inv n st \<Longrightarrow> n + length conns + 1 < 2 ^ 64 \<Longrightarrow>
   surface_inv (n + length conns) (snd (accept_loop sc words te conns st)) \<and>
   length (fst (accept_loop sc words te conns st)) = length (filter (\<lambda>c. c \<noteq> None) conns)"
proof (induction sc words te conns st arbitrary: n rule: accept_loop.induct)
  case (2 sc words te cs st)
  then show ?case using "2.IH" [OF surface_inv_mono [OF "2.prems"(1)]] by simp
next
  case (3 sc words te sys lines rest cs st)
  obtain r st' where h: "handle (host_of sys sc) words te (trim sys) lines rest st = (r, st')" by fastforce
  have "surface_inv (n + 1) st'"
    using surface_inv_handle [OF "3.prems"(1), of "host_of sys sc" words te "trim sys" lines rest] "3.prems"(2) h by simp
  from "3.IH" [OF h [symmetric] this] "3.prems"(2) show ?case
    by (auto simp: h split: prod.split)
qed simp

text \<open>the program serves every connection it accepts, whatever the system answers in between, and over fewer than
  2^64 - 1 connections the next session id is never one of a live session.\<close>

theorem surface_main_sessions:
  assumes "length conns + 1 < 2 ^ 64"
  shows "\<exists>rs st. surface_main True shell_command words trim_end conns = Some (rs, st) \<and>
     length rs = length (filter (\<lambda>c. c \<noteq> None) conns) \<and> NEXT_ID st \<notin> dom (sessions st)"
proof -
  obtain rs st where run: "accept_loop shell_command words trim_end conns surface_start = (rs, st)" by fastforce
  have "surface_inv (length conns) st \<and> length rs = length (filter (\<lambda>c. c \<noteq> None) conns)"
    using accept_loop_inv [OF surface_inv_start, of conns shell_command words trim_end] assms run by simp
  then show ?thesis using run by (auto simp: surface_main_def surface_inv_def)
qed

end
