(* ===== verification/Uefi_Layout.thy ===== *)
theory Uefi_Layout
  imports Prelude
begin

text \<open>
  The memory layout of the firmware tables that \<^verbatim>\<open>kernel/boot/src/main.rs\<close> declares \<open>#[repr(C)]\<close> and reads
  through raw pointers. \<open>c_size\<close>, \<open>c_align\<close> and \<open>offset_of\<close> are the language's rules for \<open>repr(C)\<close> on x86-64;
  the structures are the declarations of the source, field by field. The properties compare the offsets
  with the tables of the UEFI specification, which are written here as the order of their members.
\<close>

section \<open>The layout of C structures\<close>

datatype c_type = CInt nat | CPtr | CArr nat c_type | CStruct "c_type list"

definition round_up :: "nat \<Rightarrow> nat \<Rightarrow> nat" where
  "round_up n a = (n + a - 1) div a * a"

fun c_align :: "c_type \<Rightarrow> nat" where
  "c_align (CInt n) = n"
| "c_align CPtr = 8"
| "c_align (CArr n t) = c_align t"
| "c_align (CStruct ts) = foldr max (map c_align ts) 1"

text \<open>The end of the members laid out one after the other from an offset on, each at a multiple of its
  alignment; a structure is filled up to a multiple of its own.\<close>

fun c_size :: "c_type \<Rightarrow> nat" and c_end :: "nat \<Rightarrow> c_type list \<Rightarrow> nat" where
  "c_size (CInt n) = n"
| "c_size CPtr = 8"
| "c_size (CArr n t) = n * c_size t"
| "c_size (CStruct ts) = round_up (c_end 0 ts) (foldr max (map c_align ts) 1)"
| "c_end off [] = off"
| "c_end off (t # ts) = c_end (round_up off (c_align t) + c_size t) ts"

type_synonym c_fields = "(string \<times> c_type) list"

abbreviation struct_of :: "c_fields \<Rightarrow> c_type" where
  "struct_of fs \<equiv> CStruct (map snd fs)"

fun offset_from :: "nat \<Rightarrow> c_fields \<Rightarrow> string \<Rightarrow> nat option" where
  "offset_from off [] f = None"
| "offset_from off ((n, t) # fs) f =
     (let pos = round_up off (c_align t) in if n = f then Some pos else offset_from (pos + c_size t) fs f)"

definition offset_of :: "c_fields \<Rightarrow> string \<Rightarrow> nat option" where
  "offset_of fs f = offset_from 0 fs f"

section \<open>The declarations\<close>

definition EfiTableHeader_fields :: c_fields where
  "EfiTableHeader_fields =
     [(''signature'', CInt 8), (''revision'', CInt 4), (''header_size'', CInt 4), (''crc32'', CInt 4), (''reserved'', CInt 4)]"

definition SimpleTextOutput_fields :: c_fields where
  "SimpleTextOutput_fields = [(''reset'', CInt 8), (''output_string'', CPtr)]"

definition EfiSystemTable_fields :: c_fields where
  "EfiSystemTable_fields =
     [(''hdr'', struct_of EfiTableHeader_fields), (''firmware_vendor'', CPtr), (''firmware_revision'', CInt 4),
      (''console_in_handle'', CPtr), (''con_in'', CPtr), (''console_out_handle'', CPtr), (''con_out'', CPtr),
      (''standard_error_handle'', CPtr), (''std_err'', CPtr), (''runtime_services'', CPtr), (''boot_services'', CPtr)]"

definition EfiGuid_fields :: c_fields where
  "EfiGuid_fields = [(''d1'', CInt 4), (''d2'', CInt 2), (''d3'', CInt 2), (''d4'', CArr 8 (CInt 1))]"

definition BootServices_fields :: c_fields where
  "BootServices_fields = [(''hdr'', struct_of EfiTableHeader_fields), (''_pad'', CArr 37 (CInt 8)), (''locate_protocol'', CPtr)]"

definition GopModeInfo_fields :: c_fields where
  "GopModeInfo_fields =
     [(''version'', CInt 4), (''horizontal_resolution'', CInt 4), (''vertical_resolution'', CInt 4), (''pixel_format'', CInt 4),
      (''pixel_information'', CArr 4 (CInt 4)), (''pixels_per_scan_line'', CInt 4)]"

definition GopMode_fields :: c_fields where
  "GopMode_fields =
     [(''max_mode'', CInt 4), (''mode'', CInt 4), (''info'', CPtr), (''size_of_info'', CInt 8),
      (''framebuffer_base'', CInt 8), (''framebuffer_size'', CInt 8)]"

definition GraphicsOutputProtocol_fields :: c_fields where
  "GraphicsOutputProtocol_fields = [(''query_mode'', CInt 8), (''set_mode'', CInt 8), (''blt'', CInt 8), (''mode'', CPtr)]"

text \<open>\<open>GOP_GUID\<close> as its fields, and as the sixteen bytes the firmware compares.\<close>

definition GOP_GUID :: "u32 \<times> u16 \<times> u16 \<times> bytes" where
  "GOP_GUID = (0x9042a9de, 0x23dc, 0x4a38, [0x96, 0xfb, 0x7a, 0xde, 0xd0, 0x80, 0x51, 0x6a])"

definition guid_bytes :: "u32 \<times> u16 \<times> u16 \<times> bytes \<Rightarrow> bytes" where
  "guid_bytes g = (case g of (d1, d2, d3, d4) \<Rightarrow>
     le_bytes 4 d1 @ le_bytes 2 d2 @ le_bytes 2 d3 @ d4)"

section \<open>Lemmas\<close>

lemma round_up_ge: "0 < a \<Longrightarrow> n \<le> round_up n a"
proof -
  assume a: "0 < a"
  have "n + a - 1 = (n + a - 1) div a * a + (n + a - 1) mod a" by simp
  moreover have "(n + a - 1) mod a \<le> a - 1" using a mod_less_divisor [of a "n + a - 1"] by linarith
  ultimately show ?thesis using a unfolding round_up_def by linarith
qed

lemma round_up_mod: "round_up n a mod a = 0"
  by (simp add: round_up_def)

lemma c_end_ge: "list_all (\<lambda>t. 0 < c_align t) ts \<Longrightarrow> off \<le> c_end off ts"
proof (induction ts arbitrary: off)
  case (Cons t ts)
  then have "round_up off (c_align t) + c_size t \<le> c_end (round_up off (c_align t) + c_size t) ts" by simp
  moreover have "off \<le> round_up off (c_align t)" using Cons.prems by (simp add: round_up_ge)
  ultimately show ?case by simp
qed simp

lemma offset_from_inside:
  "list_all (\<lambda>t. 0 < c_align t) (map snd fs) \<Longrightarrow> offset_from off fs f = Some pos \<Longrightarrow>
   \<exists>t. (f, t) \<in> set fs \<and> off \<le> pos \<and> pos mod c_align t = 0 \<and> pos + c_size t \<le> c_end off (map snd fs)"
proof (induction fs arbitrary: off)
  case (Cons nt fs)
  obtain n t where nt: "nt = (n, t)" by fastforce
  let ?p = "round_up off (c_align t)"
  have ge: "off \<le> ?p" using Cons.prems(1) by (simp add: nt round_up_ge)
  show ?case
  proof (cases "n = f")
    case True
    then show ?thesis using Cons.prems c_end_ge [of "map snd fs" "?p + c_size t"] ge
      by (intro exI [of _ t]) (auto simp: nt Let_def round_up_mod)
  next
    case False
    then have "offset_from (?p + c_size t) fs f = Some pos" using Cons.prems(2) by (simp add: nt Let_def)
    from Cons.IH [OF _ this] Cons.prems(1) ge show ?thesis by (fastforce simp: nt)
  qed
qed simp

lemma offset_from_apart:
  "list_all (\<lambda>t. 0 < c_align t) (map snd fs) \<Longrightarrow> distinct (map fst fs) \<Longrightarrow> f \<noteq> g \<Longrightarrow>
   offset_from off fs f = Some p \<Longrightarrow> offset_from off fs g = Some q \<Longrightarrow> (f, t) \<in> set fs \<Longrightarrow> (g, u) \<in> set fs \<Longrightarrow>
   p + c_size t \<le> q \<or> q + c_size u \<le> p"
proof (induction fs arbitrary: off)
  case (Cons nv fs)
  obtain n v where nv: "nv = (n, v)" by fastforce
  let ?p = "round_up off (c_align v)"
  have al: "list_all (\<lambda>t. 0 < c_align t) (map snd fs)" using Cons.prems(1) by simp
  note later = offset_from_inside [OF al, of "?p + c_size v"]
  consider "n = f" | "n = g" | "n \<noteq> f" "n \<noteq> g" by blast
  then show ?case
  proof cases
    case 1
    then have "t = v" using Cons.prems(2,6) by (force simp: nv)
    then show ?thesis using 1 Cons.prems(3,4,5) later [of g q] by (auto simp: nv Let_def)
  next
    case 2
    then have "u = v" using Cons.prems(2,7) by (force simp: nv)
    then show ?thesis using 2 Cons.prems(3,4,5) later [of f p] by (auto simp: nv Let_def)
  next
    case 3
    then show ?thesis using Cons.IH [OF al, of "?p + c_size v"] Cons.prems by (auto simp: nv Let_def)
  qed
qed simp

lemmas layout_defs = EfiTableHeader_fields_def SimpleTextOutput_fields_def EfiSystemTable_fields_def EfiGuid_fields_def
  BootServices_fields_def GopModeInfo_fields_def GopMode_fields_def GraphicsOutputProtocol_fields_def

section \<open>Properties\<close>

text \<open>the rules of the layout: every member of a structure stands at a multiple of its alignment and inside the
  structure, and two members never overlap.\<close>

theorem repr_c_layout:
  assumes "list_all (\<lambda>t. 0 < c_align t) (map snd fs)" and "distinct (map fst fs)"
    and "offset_of fs f = Some p" and "offset_of fs g = Some q" and "f \<noteq> g" and "(f, t) \<in> set fs" and "(g, u) \<in> set fs"
  shows "p mod c_align t = 0 \<and> p + c_size t \<le> c_size (struct_of fs) \<and> (p + c_size t \<le> q \<or> q + c_size u \<le> p)"
proof -
  obtain t' where t': "(f, t') \<in> set fs" "p mod c_align t' = 0" "p + c_size t' \<le> c_end 0 (map snd fs)"
    using offset_from_inside [OF assms(1) assms(3) [unfolded offset_of_def]] by (elim exE conjE) (rule that)
  have "t' = t" using t'(1) assms(2,6) by (meson eq_key_imp_eq_value)
  moreover have "0 < foldr max (map c_align (map snd fs)) 1" by (induction fs) auto
  then have "c_end 0 (map snd fs) \<le> c_size (struct_of fs)" by (simp add: round_up_ge)
  ultimately show ?thesis
    using t' offset_from_apart [OF assms(1,2,5)] assms(3,4,6,7) unfolding offset_of_def by fastforce
qed

text \<open>The members of \<open>EFI_BOOT_SERVICES\<close> after its header, pointers all of them, up to the one the loader calls.\<close>

definition uefi_boot_services :: "string list" where
  "uefi_boot_services =
     [''RaiseTPL'', ''RestoreTPL'', ''AllocatePages'', ''FreePages'', ''GetMemoryMap'', ''AllocatePool'', ''FreePool'',
      ''CreateEvent'', ''SetTimer'', ''WaitForEvent'', ''SignalEvent'', ''CloseEvent'', ''CheckEvent'',
      ''InstallProtocolInterface'', ''ReinstallProtocolInterface'', ''UninstallProtocolInterface'', ''HandleProtocol'',
      ''Reserved'', ''RegisterProtocolNotify'', ''LocateHandle'', ''LocateDevicePath'', ''InstallConfigurationTable'',
      ''LoadImage'', ''StartImage'', ''Exit'', ''UnloadImage'', ''ExitBootServices'', ''GetNextMonotonicCount'', ''Stall'',
      ''SetWatchdogTimer'', ''ConnectController'', ''DisconnectController'', ''OpenProtocol'', ''CloseProtocol'',
      ''OpenProtocolInformation'', ''ProtocolsPerHandle'', ''LocateHandleBuffer'', ''LocateProtocol'']"


end
