(* ===== verification/Serial_Port.thy ===== *)
theory Serial_Port
  imports Boot_Main
begin

text \<open>
  The serial line of the boot loader at the level of its port accesses (\<^verbatim>\<open>kernel/boot/src/main.rs\<close>,
  \<open>serial_init\<close> and \<open>serial_print\<close>). The port instructions \<open>inb\<close> and \<open>outb\<close> are parameters on a device
  state. \<open>uart\<close> is the reference device, a 16550 as documented: a divisor latch behind a bit of the line
  control register, a transmitter that is busy for any finite number of polls after each byte, and a
  byte written while it is busy is lost. The last property joins the ports to the byte log that theory
  \<open>Boot_Main\<close> uses for the serial line.
\<close>

section \<open>The driver\<close>

definition COM1 :: u16 where "COM1 = 0x3F8"

definition serial_init :: "(u16 \<Rightarrow> u8 \<Rightarrow> 'd \<Rightarrow> 'd) \<Rightarrow> 'd \<Rightarrow> 'd" where
  "serial_init outb d =
     (let d = outb (COM1 + 1) 0x00 d;
          d = outb (COM1 + 3) 0x80 d;
          d = outb COM1 0x03 d;
          d = outb (COM1 + 1) 0x00 d;
          d = outb (COM1 + 3) 0x03 d;
          d = outb (COM1 + 2) 0xC7 d;
          d = outb (COM1 + 4) 0x0B d
      in d)"

text \<open>The polling loop \<open>while inb(COM1 + 5) & 0x20 == 0 {}\<close>: it need not end on every device.\<close>

partial_function (option) wait_thr :: "(u16 \<Rightarrow> 'd \<Rightarrow> u8 \<times> 'd) \<Rightarrow> 'd \<Rightarrow> 'd option" where
  "wait_thr inb d = (case inb (COM1 + 5) d of (lsr, d) \<Rightarrow> if and lsr 0x20 = 0 then wait_thr inb d else Some d)"

fun port_print :: "(u16 \<Rightarrow> 'd \<Rightarrow> u8 \<times> 'd) \<Rightarrow> (u16 \<Rightarrow> u8 \<Rightarrow> 'd \<Rightarrow> 'd) \<Rightarrow> bytes \<Rightarrow> 'd \<Rightarrow> 'd option" where
  "port_print inb outb [] d = Some d"
| "port_print inb outb (b # msg) d =
     (case wait_thr inb d of None \<Rightarrow> None | Some d \<Rightarrow> port_print inb outb msg (outb COM1 b d))"

section \<open>The reference device\<close>

record uart =
  u_ier :: u8
  u_fcr :: u8
  u_lcr :: u8
  u_mcr :: u8
  u_dll :: u8
  u_dlm :: u8
  u_busy :: nat
  u_delay :: "nat \<Rightarrow> nat"
  u_sent :: bytes

definition dlab :: "uart \<Rightarrow> bool" where
  "dlab u = (and (u_lcr u) 0x80 \<noteq> 0)"

definition uart_write :: "u16 \<Rightarrow> u8 \<Rightarrow> uart \<Rightarrow> uart" where
  "uart_write port v u =
     (if port = COM1 then
        if dlab u then u\<lparr>u_dll := v\<rparr>
        else if u_busy u = 0 then u\<lparr>u_sent := u_sent u @ [v], u_busy := u_delay u (length (u_sent u))\<rparr>
        else u
      else if port = COM1 + 1 then if dlab u then u\<lparr>u_dlm := v\<rparr> else u\<lparr>u_ier := v\<rparr>
      else if port = COM1 + 2 then u\<lparr>u_fcr := v\<rparr>
      else if port = COM1 + 3 then u\<lparr>u_lcr := v\<rparr>
      else if port = COM1 + 4 then u\<lparr>u_mcr := v\<rparr>
      else u)"

definition uart_read :: "u16 \<Rightarrow> uart \<Rightarrow> u8 \<times> uart" where
  "uart_read port u =
     (if port = COM1 + 5 then (if u_busy u = 0 then 0x60 else 0, u\<lparr>u_busy := u_busy u - 1\<rparr>) else (0, u))"

text \<open>38400 baud, eight data bits, no parity, one stop bit, the latch closed.\<close>

definition uart_ready :: "uart \<Rightarrow> bool" where
  "uart_ready u \<longleftrightarrow> u_lcr u = 0x03 \<and> u_dll u = 3 \<and> u_dlm u = 0"

section \<open>Lemmas\<close>

lemma dlab_closed: "u_lcr u = 3 \<Longrightarrow> \<not> dlab u"
  by (simp add: dlab_def)

lemma uart_init:
  "uart_ready (serial_init uart_write u) \<and> u_sent (serial_init uart_write u) = u_sent u \<and>
   u_fcr (serial_init uart_write u) = 0xC7 \<and> u_mcr (serial_init uart_write u) = 0x0B"
  by (simp add: serial_init_def uart_write_def uart_ready_def dlab_def COM1_def Let_def)

lemma wait_thr_uart: "wait_thr uart_read u = Some (u\<lparr>u_busy := 0\<rparr>)"
proof (induction "u_busy u" arbitrary: u)
  case 0
  then show ?case by (subst wait_thr.simps) (simp add: uart_read_def)
next
  case (Suc n)
  then have "wait_thr uart_read u = wait_thr uart_read (u\<lparr>u_busy := n\<rparr>)"
    by (subst wait_thr.simps) (simp add: uart_read_def flip: Suc.hyps(2))
  also have "\<dots> = Some (u\<lparr>u_busy := 0\<rparr>)" using Suc.hyps(1) [of "u\<lparr>u_busy := n\<rparr>"] by simp
  finally show ?case .
qed

lemma port_print_uart:
  "uart_ready u \<Longrightarrow> \<exists>u'. port_print uart_read uart_write msg u = Some u' \<and> uart_ready u' \<and> u_sent u' = u_sent u @ msg"
proof (induction msg arbitrary: u)
  case (Cons b msg)
  let ?v = "uart_write COM1 b (u\<lparr>u_busy := 0\<rparr>)"
  have "uart_ready ?v" and sent: "u_sent ?v = u_sent u @ [b]"
    using Cons.prems by (simp_all add: uart_write_def uart_ready_def dlab_def)
  from Cons.IH [OF this(1)] sent show ?case by (auto simp: wait_thr_uart)
qed simp

section \<open>Properties\<close>

text \<open>C25: the serial driver puts every byte on the line. After \<open>serial_init\<close> the UART runs at divisor 3 with eight data
  bits, no parity, one stop bit and the divisor latch closed, and nothing was sent; from such a state, however
  long the transmitter is busy after each byte, \<open>serial_print\<close> returns and has sent exactly the message, in
  order and without a loss, which is what the loader's serial log records.\<close>

theorem serial_refines_log:
  "uart_ready (serial_init uart_write u) \<and> u_sent (serial_init uart_write u) = u_sent u \<and>
   (uart_ready u \<and> serial io = u_sent u \<longrightarrow>
     (\<exists>u'. port_print uart_read uart_write msg u = Some u' \<and> uart_ready u' \<and>
           u_sent u' = u_sent u @ msg \<and> serial (serial_print msg io) = u_sent u'))"
  using uart_init [of u] port_print_uart [of u msg] by (auto simp: serial_print_def)

definition uart_reset :: uart where
  "uart_reset = \<lparr>u_ier = 0, u_fcr = 0, u_lcr = 0, u_mcr = 0, u_dll = 0, u_dlm = 0, u_busy = 0, u_delay = (\<lambda>n. n + 3), u_sent = []\<rparr>"

theorem serial_refines_log_witness:
  "\<exists>u'. port_print uart_read uart_write (as_bytes ''OK'') (serial_init uart_write uart_reset) = Some u' \<and>
     u_sent u' = as_bytes ''OK''"
proof -
  let ?u = "serial_init uart_write uart_reset" and ?io = "\<lparr>serial = [], console = [], pixels = []\<rparr>"
  have "u_sent ?u = []" and "uart_ready ?u"
    using serial_refines_log [of uart_reset ?io "[]"] by (simp_all add: uart_reset_def)
  then show ?thesis using serial_refines_log [of ?u ?io "as_bytes ''OK''"] by auto
qed

end
