(* ===== verification/Release_Acquire.thy ===== *)
theory Release_Acquire
  imports Prelude
begin

text \<open>
  Rust's atomics with the orders the kernel uses. A memory keeps every store of a location with a
  timestamp and the view it releases: for each location the latest store that is known to have happened
  before it. A load may return any store that its thread has not seen overwritten; a \<open>Relaxed\<close> store
  releases nothing but itself, a \<open>Release\<close> store everything its thread has seen, and an \<open>Acquire\<close> load takes
  over what the store it reads releases. This is the release/acquire fragment of the C11 model that
  \<^verbatim>\<open>core::sync::atomic\<close> refers to, without load buffering. A store may be placed anywhere in the order of
  its location after what its thread has seen. A read-modify-write is placed right after the store it
  read; a failing \<open>compare_exchange\<close> is a load, and may read a store that is no longer the latest.

  A program is a pair of functions: the access a thread makes next and where it goes with the outcome.
  The locale \<open>rmw_program\<close> is the interface for programs that change shared locations with
  read-modify-writes only: what they keep on a sequentially consistent memory, they keep on this one.
\<close>

section \<open>Accesses\<close>

text \<open>\<open>load(Relaxed)\<close>, \<open>store(Relaxed)\<close>, \<open>store(Release)\<close>, \<open>compare_exchange(AcqRel, Acquire)\<close>,
  \<open>swap(AcqRel)\<close>, \<open>fetch_add(Relaxed)\<close>; \<open>Local\<close> is a step that touches no atomic.\<close>

datatype 'l access =
    Local
  | Load 'l
  | Store 'l nat
  | StoreRelease 'l nat
  | CompareExchange 'l nat nat
  | Swap 'l nat
  | FetchAdd 'l nat

datatype reply = Done | Value nat | Swapped | Failed nat

type_synonym 'l view = "'l \<Rightarrow> nat"

type_synonym 'l memory = "'l \<Rightarrow> nat \<Rightarrow> (nat \<times> 'l view) option"

definition vjoin :: "'l view \<Rightarrow> 'l view \<Rightarrow> 'l view" where
  "vjoin V W = (\<lambda>l. max (V l) (W l))"

definition put_msg :: "'l memory \<Rightarrow> 'l \<Rightarrow> nat \<Rightarrow> nat \<times> 'l view \<Rightarrow> 'l memory" where
  "put_msg M l t m = M(l := (M l)(t \<mapsto> m))"

inductive ra_access :: "'l access \<Rightarrow> 'l memory \<Rightarrow> 'l view \<Rightarrow> reply \<Rightarrow> 'l memory \<Rightarrow> 'l view \<Rightarrow> bool" where
  local: "ra_access Local M V Done M V"
| load: "M l t = Some (v, W) \<Longrightarrow> V l \<le> t \<Longrightarrow> ra_access (Load l) M V (Value v) M (V(l := t))"
| store: "V l < t \<Longrightarrow> M l t = None \<Longrightarrow>
     ra_access (Store l v) M V Done (put_msg M l t (v, (\<lambda>_. 0)(l := t))) (V(l := t))"
| store_release: "V l < t \<Longrightarrow> M l t = None \<Longrightarrow>
     ra_access (StoreRelease l v) M V Done (put_msg M l t (v, V(l := t))) (V(l := t))"
| swapped: "M l t = Some (old, W) \<Longrightarrow> V l \<le> t \<Longrightarrow> M l (t + 1) = None \<Longrightarrow> V' = (vjoin V W)(l := t + 1) \<Longrightarrow>
     ra_access (CompareExchange l old new) M V Swapped (put_msg M l (t + 1) (new, V')) V'"
| failed: "M l t = Some (v, W) \<Longrightarrow> V l \<le> t \<Longrightarrow> v \<noteq> old \<Longrightarrow>
     ra_access (CompareExchange l old new) M V (Failed v) M ((vjoin V W)(l := t))"
| swap: "M l t = Some (v, W) \<Longrightarrow> V l \<le> t \<Longrightarrow> M l (t + 1) = None \<Longrightarrow> V' = (vjoin V W)(l := t + 1) \<Longrightarrow>
     ra_access (Swap l new) M V (Value v) (put_msg M l (t + 1) (new, V')) V'"
| fetch_add: "M l t = Some (v, W) \<Longrightarrow> V l \<le> t \<Longrightarrow> M l (t + 1) = None \<Longrightarrow>
     ra_access (FetchAdd l n) M V (Value v)
       (put_msg M l (t + 1) ((v + n) mod 2 ^ 64, W(l := t + 1))) (V(l := t + 1))"

lemma put_msg_apply: "put_msg M l t m l' t' = (if l' = l \<and> t' = t then Some m else M l' t')"
  by (simp add: put_msg_def)

text \<open>\<open>latest M T l\<close> is the value of the store of \<open>l\<close> at timestamp \<open>T l\<close>.\<close>

definition latest :: "'l memory \<Rightarrow> 'l view \<Rightarrow> 'l \<Rightarrow> nat" where
  "latest M T l = fst (the (M l (T l)))"

lemma latest_put: "latest (put_msg M l t (v, W)) (T(l := t)) = (latest M T)(l := v)"
  by (rule ext) (simp add: latest_def put_msg_def)

text \<open>At the start every location holds its initial value, in a store that every thread has seen.\<close>

definition mem_init :: "('l \<Rightarrow> nat) \<Rightarrow> 'l memory" where
  "mem_init m0 = (\<lambda>l. Map.empty(0 \<mapsto> (m0 l, \<lambda>_. 0)))"

lemma mem_init_Some: "mem_init m0 l t = Some (v, W) \<longleftrightarrow> t = 0 \<and> v = m0 l \<and> W = (\<lambda>_. 0)"
  by (auto simp: mem_init_def)

lemma mem_init_None: "mem_init m0 l t = None \<longleftrightarrow> t \<noteq> 0"
  by (simp add: mem_init_def)

lemma latest_init [simp]: "latest (mem_init m0) (\<lambda>_. 0) = m0"
  by (rule ext) (simp add: latest_def mem_init_def)

section \<open>Systems of threads\<close>

record ('l, 'p) ra_threads =
  memory :: "'l memory"
  views :: "nat \<Rightarrow> 'l view"
  at :: "nat \<Rightarrow> 'p"

inductive ra_run :: "('p \<Rightarrow> 'l access option) \<Rightarrow> ('p \<Rightarrow> reply \<Rightarrow> 'p) \<Rightarrow> ('l \<Rightarrow> nat) \<Rightarrow> (nat \<Rightarrow> 'p) \<Rightarrow>
    ('l, 'p) ra_threads \<Rightarrow> bool"
  for nxt aft m0 ps where
  start: "ra_run nxt aft m0 ps \<lparr>memory = mem_init m0, views = (\<lambda>_ _. 0), at = ps\<rparr>"
| step: "ra_run nxt aft m0 ps s \<Longrightarrow> nxt (at s i) = Some a \<Longrightarrow> ra_access a (memory s) (views s i) x M V \<Longrightarrow>
     ra_run nxt aft m0 ps \<lparr>memory = M, views = (views s)(i := V), at = (at s)(i := aft (at s i) x)\<rparr>"

lemma ra_run_stepI:
  "ra_run nxt aft m0 ps \<lparr>memory = M, views = Vs, at = p\<rparr> \<Longrightarrow> nxt (p i) = Some a \<Longrightarrow> ra_access a M (Vs i) x M' V \<Longrightarrow>
   p' = p(i := aft (p i) x) \<Longrightarrow> ra_run nxt aft m0 ps \<lparr>memory = M', views = Vs(i := V), at = p'\<rparr>"
  using ra_run.step [of nxt aft m0 ps "\<lparr>memory = M, views = Vs, at = p\<rparr>" i a x M' V] by (simp add: fun_upd_def)

section \<open>Programs of read-modify-writes\<close>

text \<open>\<open>inv m ps\<close> is what the program keeps of the latest values \<open>m\<close> and the threads' positions \<open>ps\<close>; \<open>older l v w\<close>
  says that \<open>v\<close> may be a former value of \<open>l\<close> when \<open>w\<close> is the latest.\<close>

locale rmw_program =
  fixes nxt :: "'p \<Rightarrow> 'l access option"
    and aft :: "'p \<Rightarrow> reply \<Rightarrow> 'p"
    and inv :: "('l \<Rightarrow> nat) \<Rightarrow> (nat \<Rightarrow> 'p) \<Rightarrow> bool"
    and older :: "'l \<Rightarrow> nat \<Rightarrow> nat \<Rightarrow> bool"
  assumes no_store: "nxt p \<noteq> Some (Store l v)" and no_release: "nxt p \<noteq> Some (StoreRelease l v)"
    and no_add: "nxt p \<noteq> Some (FetchAdd l n)"
    and older_refl: "older l v v"
    and inv_local: "inv m ps \<Longrightarrow> nxt (ps i) = Some Local \<Longrightarrow> inv m (ps(i := aft (ps i) Done))"
    and inv_load: "inv m ps \<Longrightarrow> nxt (ps i) = Some (Load l) \<Longrightarrow> older l v (m l) \<Longrightarrow>
          inv m (ps(i := aft (ps i) (Value v)))"
    and inv_failed: "inv m ps \<Longrightarrow> nxt (ps i) = Some (CompareExchange l old new) \<Longrightarrow> older l v (m l) \<Longrightarrow> v \<noteq> old \<Longrightarrow>
          inv m (ps(i := aft (ps i) (Failed v)))"
    and inv_swapped: "inv m ps \<Longrightarrow> nxt (ps i) = Some (CompareExchange l old new) \<Longrightarrow> m l = old \<Longrightarrow>
          inv (m(l := new)) (ps(i := aft (ps i) Swapped)) \<and> (\<forall>v. older l v old \<longrightarrow> older l v new)"
    and inv_swap: "inv m ps \<Longrightarrow> nxt (ps i) = Some (Swap l new) \<Longrightarrow>
          inv (m(l := new)) (ps(i := aft (ps i) (Value (m l)))) \<and> (\<forall>v. older l v (m l) \<longrightarrow> older l v new)"
begin

text \<open>The stores of each location fill the timestamps up to the latest, so a read-modify-write can only have
  read the latest.\<close>

definition filled :: "'l memory \<Rightarrow> 'l view \<Rightarrow> bool" where
  "filled M T \<longleftrightarrow> (\<forall>l t. M l t \<noteq> None \<longleftrightarrow> t \<le> T l) \<and> (\<forall>l t v W. M l t = Some (v, W) \<longrightarrow> older l v (latest M T l))"

lemma filled_latest:
  assumes "filled M T" and "M l t = Some (v, W)" and "M l (t + 1) = None"
  shows "t = T l" and "latest M T l = v"
proof -
  have iff: "M l u \<noteq> None \<longleftrightarrow> u \<le> T l" for u using assms(1) by (simp add: filled_def)
  have "t \<le> T l" using assms(2) iff [of t] by simp
  moreover have "\<not> t + 1 \<le> T l" using assms(3) iff [of "t + 1"] by simp
  ultimately show "t = T l" by simp
  then show "latest M T l = v" using assms(2) by (simp add: latest_def)
qed

lemma filled_put:
  assumes "filled M T" and "\<And>v. older l v (latest M T l) \<Longrightarrow> older l v new"
  shows "filled (put_msg M l (T l + 1) (new, W)) (T(l := T l + 1))"
  unfolding filled_def latest_put
proof (intro conjI allI impI)
  show "put_msg M l (T l + 1) (new, W) l' t \<noteq> None \<longleftrightarrow> t \<le> (T(l := T l + 1)) l'" for l' t
    using assms(1) by (auto simp: filled_def put_msg_apply)
  show "older l' v (((latest M T)(l := new)) l')" if "put_msg M l (T l + 1) (new, W) l' t = Some (v, W')" for l' t v W'
  proof -
    have old: "M k u = Some (v, W') \<Longrightarrow> older k v (latest M T k)" for k u using assms(1) unfolding filled_def by blast
    then show ?thesis using that assms(2) older_refl by (auto simp: put_msg_apply split: if_splits)
  qed
qed

lemma access_inv:
  assumes "filled M T" and "inv (latest M T) ps" and "nxt (ps i) = Some a" and "ra_access a M V x M' V'"
  shows "\<exists>T'. filled M' T' \<and> inv (latest M' T') (ps(i := aft (ps i) x))"
proof -
  have old: "M l t = Some (v, W) \<Longrightarrow> older l v (latest M T l)" for l t v W using assms(1) unfolding filled_def by blast
  show ?thesis
    using assms(4)
  proof cases
    case local
    then show ?thesis using assms(1-3) inv_local by blast
  next
    case (load l t v W)
    then show ?thesis using assms(1-3) inv_load old by blast
  next
    case (store l t v)
    then show ?thesis using assms(3) no_store by blast
  next
    case (store_release l t v)
    then show ?thesis using assms(3) no_release by blast
  next
    case (swapped l t old' W new)
    then show ?thesis
      using filled_latest [OF assms(1), of l t old' W] filled_put [OF assms(1)] inv_swapped [OF assms(2)] assms(3)
      by (metis latest_put)
  next
    case (failed l t v W old' new)
    then show ?thesis using assms(1-3) inv_failed old by blast
  next
    case (swap l t v W new)
    then show ?thesis
      using filled_latest [OF assms(1), of l t v W] filled_put [OF assms(1)] inv_swap [OF assms(2)] assms(3)
      by (metis latest_put)
  next
    case (fetch_add l t v W n)
    then show ?thesis using assms(3) no_add by blast
  qed
qed

lemma run_inv:
  assumes "ra_run nxt aft m0 ps s" and "inv m0 ps"
  shows "\<exists>T. filled (memory s) T \<and> inv (latest (memory s) T) (at s)"
  using assms(1)
proof (induction rule: ra_run.induct)
  case start
  have "filled (mem_init m0) (\<lambda>_. 0)" using older_refl by (simp add: filled_def mem_init_None mem_init_Some)
  then show ?case using assms(2) by (intro exI [of _ "\<lambda>_. 0"]) simp
next
  case (step s i a x M V)
  then obtain T where "filled (memory s) T" "inv (latest (memory s) T) (at s)" by blast
  then show ?case using access_inv [of "memory s" T "at s" i a "views s i" x M V] step.hyps(2,3) by (simp add: fun_upd_def)
qed

end

end
