(* ===== verification/Slot_Memory.thy ===== *)
theory Slot_Memory
  imports Envelope Release_Acquire
begin

text \<open>
  The envelope slot of \<^verbatim>\<open>kernel/core/src/envelope/mod.rs\<close> under the memory orders the code writes. Theory
  \<open>Envelope\<close> runs its accesses on one memory that every thread sees at once; here the same program
  (\<open>next_access\<close>, \<open>after\<close>: which atomic access comes next and where the thread goes with its outcome) runs
  on the release/acquire memory of theory \<open>Release_Acquire\<close>. The accesses of \<open>Envelope\<close> are this program on a
  sequentially consistent memory (\<open>slot_step_iff\<close>), and every such run is also a run of the weaker memory
  (\<open>sc_run_is_ra_run\<close>).
\<close>

section \<open>The program, one access at a time\<close>

datatype loc = LState | LLen | LRoute | LDepth | LByte nat

fun next_access :: "slot_pc \<Rightarrow> loc access option" where
  "next_access (EReq env r) =
     Some (if length env > ENVELOPE_SLOT_BYTES then Local
           else CompareExchange LState (unat STATE_EMPTY) (unat STATE_WRITING))"
| "next_access (EByte env r j) =
     Some (if j < length env then Store (LByte j) (unat (env ! j)) else Local)"
| "next_access (ELen env r) = Some (Store LLen (length env))"
| "next_access (ERoute env r) = Some (Store LRoute (unat r))"
| "next_access (EDepth env r) = Some (Store LDepth 1)"
| "next_access (EPublish env r) = Some (StoreRelease LState (unat STATE_FULL))"
| "next_access (DReq budget tries k) =
     Some (CompareExchange LState (unat STATE_FULL) (unat STATE_READING))"
| "next_access (DLen k) = Some (Load LLen)"
| "next_access DRestore = Some (StoreRelease LState (unat STATE_FULL))"
| "next_access (DByte n acc) = Some (if length acc < n then Load (LByte (length acc)) else Local)"
| "next_access (DClearLen acc) = Some (Store LLen 0)"
| "next_access (DClearDepth acc) = Some (Store LDepth 0)"
| "next_access (DRelease acc) = Some (StoreRelease LState (unat STATE_EMPTY))"
| "next_access (EDone res) = None"
| "next_access (DDone res) = None"

fun after :: "slot_pc \<Rightarrow> reply \<Rightarrow> slot_pc" where
  "after (EReq env r) x =
     (if length env > ENVELOPE_SLOT_BYTES then EDone (Err EnvelopeErr.PayloadOversize)
      else if x = Swapped then EByte env r 0 else EDone (Err EnvelopeErr.QueueFull))"
| "after (EByte env r j) x = (if j < length env then EByte env r (Suc j) else ELen env r)"
| "after (ELen env r) x = ERoute env r"
| "after (ERoute env r) x = EDepth env r"
| "after (EDepth env r) x = EPublish env r"
| "after (EPublish env r) x = EDone (Ok ())"
| "after (DReq budget tries k) x =
     (if x = Swapped then DLen k
      else if tries + 1 \<ge> budget then DDone (Err EnvelopeErr.QueueEmpty)
      else DReq budget (tries + 1) k)"
| "after (DLen k) x = (case x of Value n \<Rightarrow> if n > k then DRestore else DByte n [] | _ \<Rightarrow> DLen k)"
| "after DRestore x = DDone (Err EnvelopeErr.PayloadOversize)"
| "after (DByte n acc) x =
     (if length acc < n then case x of Value v \<Rightarrow> DByte n (acc @ [word_of_nat v]) | _ \<Rightarrow> DByte n acc
      else DClearLen acc)"
| "after (DClearLen acc) x = DClearDepth acc"
| "after (DClearDepth acc) x = DRelease acc"
| "after (DRelease acc) x = DDone (Ok acc)"
| "after (EDone res) x = EDone res"
| "after (DDone res) x = DDone res"

text \<open>The ghost logs: a message is published, and handed out, by the store that ends the ownership.\<close>

fun publishes :: "slot_pc \<Rightarrow> bytes list" where
  "publishes (EPublish env r) = [env]"
| "publishes _ = []"

fun consumes :: "slot_pc \<Rightarrow> bytes list" where
  "consumes (DRelease acc) = [acc]"
| "consumes _ = []"

section \<open>Sequentially consistent memory\<close>

fun sc_load :: "slot_st \<Rightarrow> loc \<Rightarrow> nat" where
  "sc_load sl LState = unat (SLOT_STATE sl)"
| "sc_load sl LLen = SLOT_LEN sl"
| "sc_load sl LRoute = unat (SLOT_ROUTE sl)"
| "sc_load sl LDepth = SLOT_DEPTH sl"
| "sc_load sl (LByte j) = unat (SLOT_BYTES sl ! j)"

fun sc_store :: "loc \<Rightarrow> nat \<Rightarrow> slot_st \<Rightarrow> slot_st" where
  "sc_store LState v sl = sl\<lparr>SLOT_STATE := word_of_nat v\<rparr>"
| "sc_store LLen v sl = sl\<lparr>SLOT_LEN := v\<rparr>"
| "sc_store LRoute v sl = sl\<lparr>SLOT_ROUTE := word_of_nat v\<rparr>"
| "sc_store LDepth v sl = sl\<lparr>SLOT_DEPTH := v\<rparr>"
| "sc_store (LByte j) v sl = sl\<lparr>SLOT_BYTES := (SLOT_BYTES sl)[j := word_of_nat v]\<rparr>"

fun sc_access :: "loc access \<Rightarrow> slot_st \<Rightarrow> reply \<times> slot_st" where
  "sc_access Local sl = (Done, sl)"
| "sc_access (Load l) sl = (Value (sc_load sl l), sl)"
| "sc_access (Store l v) sl = (Done, sc_store l v sl)"
| "sc_access (StoreRelease l v) sl = (Done, sc_store l v sl)"
| "sc_access (Swap l new) sl = (Value (sc_load sl l), sc_store l new sl)"
| "sc_access (FetchAdd l n) sl = (Value (sc_load sl l), sc_store l ((sc_load sl l + n) mod 2 ^ 64) sl)"
| "sc_access (CompareExchange l old new) sl =
     (if sc_load sl l = old then (Swapped, sc_store l new sl) else (Failed (sc_load sl l), sl))"

definition sc_next :: "slot_sys \<Rightarrow> nat \<Rightarrow> loc access \<Rightarrow> slot_sys" where
  "sc_next s i a =
     (let (x, sl) = sc_access a (slot s)
      in (slot_move s i (after (pcs s i) x) sl)
           \<lparr>published := published s @ publishes (pcs s i), consumed := consumed s @ consumes (pcs s i)\<rparr>)"

section \<open>Release/acquire memory\<close>

record ra_sys =
  ra_mem :: "loc memory"
  ra_views :: "nat \<Rightarrow> loc view"
  ra_pcs :: "nat \<Rightarrow> slot_pc"
  ra_published :: "bytes list"
  ra_consumed :: "bytes list"

inductive ra_step :: "ra_sys \<Rightarrow> ra_sys \<Rightarrow> bool" where
  ra_step: "next_access (ra_pcs s i) = Some a \<Longrightarrow>
     ra_access a (ra_mem s) (ra_views s i) x M V \<Longrightarrow>
     ra_step s \<lparr>ra_mem = M, ra_views = (ra_views s)(i := V), ra_pcs = (ra_pcs s)(i := after (ra_pcs s i) x),
                ra_published = ra_published s @ publishes (ra_pcs s i),
                ra_consumed = ra_consumed s @ consumes (ra_pcs s i)\<rparr>"

text \<open>All five statics start as zero.\<close>

definition ra_start :: "(nat \<Rightarrow> slot_pc) \<Rightarrow> ra_sys" where
  "ra_start ps = \<lparr>ra_mem = mem_init (\<lambda>_. 0), ra_views = (\<lambda>_ _. 0), ra_pcs = ps, ra_published = [], ra_consumed = []\<rparr>"

inductive ra_reachable :: "ra_sys \<Rightarrow> bool" where
  start: "\<forall>i. (\<exists>env r. ps i = EReq env r) \<or> (\<exists>w k. ps i = DReq (spin_budget w) 0 k) \<Longrightarrow>
     ra_reachable (ra_start ps)"
| step: "ra_reachable s \<Longrightarrow> ra_step s t \<Longrightarrow> ra_reachable t"

section \<open>The accesses of the sequential model are this program\<close>

lemma unat_state_eq [simp]: "unat w = unat w' \<longleftrightarrow> w = w'" for w w' :: u8
  by (simp add: word_unat_eq_iff)

lemma move_logs [simp]:
  "(slot_move s i p sl)\<lparr>published := published s, consumed := consumed s\<rparr> = slot_move s i p sl"
  "(slot_move s i p sl)\<lparr>published := X, consumed := consumed s\<rparr> = (slot_move s i p sl)\<lparr>published := X\<rparr>"
  "(slot_move s i p sl)\<lparr>published := published s, consumed := Y\<rparr> = (slot_move s i p sl)\<lparr>consumed := Y\<rparr>"
  by (simp_all add: slot_move_def)

lemma programI:
  "pcs s i = p \<Longrightarrow> next_access p = Some a \<Longrightarrow> sc_access a (slot s) = (x, sl) \<Longrightarrow>
   t = (slot_move s i (after p x) sl)\<lparr>published := published s @ publishes p, consumed := consumed s @ consumes p\<rparr> \<Longrightarrow>
   \<exists>i a. next_access (pcs s i) = Some a \<and> t = sc_next s i a"
  by (rule exI [of _ i], rule exI [of _ a]) (simp add: sc_next_def)

lemma slot_step_program: "slot_step s t \<Longrightarrow> \<exists>i a. next_access (pcs s i) = Some a \<and> t = sc_next s i a"
proof (induction rule: slot_step.induct)
qed (rule programI, assumption, simp, simp, simp)+

lemma program_slot_step:
  assumes "next_access (pcs s i) = Some a"
  shows "slot_step s (sc_next s i a)"
proof (cases "pcs s i")
  case (EReq env r)
  then show ?thesis using assms slot_step.intros(1-3) [OF EReq]
    by (auto simp: sc_next_def split: if_splits)
next
  case (EByte env r j)
  then show ?thesis using assms slot_step.intros(4,5) [OF EByte]
    by (auto simp: sc_next_def split: if_splits)
next
  case (DReq b n k)
  then show ?thesis using assms slot_step.intros(10-12) [OF DReq]
    by (auto simp: sc_next_def split: if_splits)
next
  case (DLen k)
  then show ?thesis using assms slot_step.intros(13,15) [OF DLen]
    by (auto simp: sc_next_def split: if_splits)
next
  case (DByte n acc)
  then show ?thesis using assms slot_step.intros(16,17) [OF DByte]
    by (auto simp: sc_next_def split: if_splits)
qed (use assms in \<open>auto simp: sc_next_def simp del: One_nat_def intro: slot_step.intros\<close>)

lemma slot_step_iff: "slot_step s t \<longleftrightarrow> (\<exists>i a. next_access (pcs s i) = Some a \<and> t = sc_next s i a)"
  using slot_step_program program_slot_step by blast

section \<open>What the latest stores show\<close>

text \<open>\<open>T l\<close> is the timestamp of the latest store of \<open>l\<close>. The snapshot of the latest stores is a state of the
  sequential model.\<close>

definition snap_slot :: "loc memory \<Rightarrow> loc view \<Rightarrow> slot_st" where
  "snap_slot M T = \<lparr>SLOT_STATE = word_of_nat (latest M T LState), SLOT_LEN = latest M T LLen,
     SLOT_ROUTE = word_of_nat (latest M T LRoute),
     SLOT_BYTES = map (\<lambda>j. word_of_nat (latest M T (LByte j))) [0..<ENVELOPE_SLOT_BYTES],
     SLOT_DEPTH = latest M T LDepth\<rparr>"

definition snap :: "ra_sys \<Rightarrow> loc view \<Rightarrow> slot_sys" where
  "snap s T = \<lparr>slot = snap_slot (ra_mem s) T, pcs = ra_pcs s, published = ra_published s,
               consumed = ra_consumed s\<rparr>"

lemma snap_put: "snap_slot (put_msg M l t (v, W)) (T(l := t)) = sc_store l v (snap_slot M T)"
  by (cases l) (auto simp: snap_slot_def latest_put list_eq_iff_nth_eq nth_list_update)

abbreviation free_states :: "nat set" where
  "free_states \<equiv> {unat STATE_EMPTY, unat STATE_FULL}"

abbreviation owns_slot :: "slot_pc \<Rightarrow> bool" where
  "owns_slot p \<equiv> is_writer p \<or> is_reader p"

text \<open>
  The view invariant: timestamps and views stay below \<open>T\<close>; the owner of the slot has seen every latest
  store; a latest state byte that leaves the slot free releases all of them; and a store that left the
  slot free and is not the latest is followed at once by the claim that took it.
\<close>

definition view_inv :: "loc memory \<Rightarrow> (nat \<Rightarrow> loc view) \<Rightarrow> (nat \<Rightarrow> slot_pc) \<Rightarrow> loc view \<Rightarrow> bool" where
  "view_inv M Vs ps T \<longleftrightarrow>
     (\<forall>l. M l (T l) \<noteq> None) \<and>
     (\<forall>l t v W. M l t = Some (v, W) \<longrightarrow> t \<le> T l \<and> W \<le> T) \<and>
     (\<forall>i. Vs i \<le> T) \<and>
     (\<forall>i. owns_slot (ps i) \<longrightarrow> Vs i = T) \<and>
     (\<forall>v W. M LState (T LState) = Some (v, W) \<longrightarrow> v \<in> free_states \<longrightarrow> W = T) \<and>
     (\<forall>t v W. M LState t = Some (v, W) \<longrightarrow> v \<in> free_states \<longrightarrow> t \<noteq> T LState \<longrightarrow> M LState (t + 1) \<noteq> None) \<and>
     latest M T LState < 256"

lemma view_invD:
  assumes "view_inv M Vs ps T"
  shows "M l t = Some (v, W) \<Longrightarrow> t \<le> T l" and "M l t = Some (v, W) \<Longrightarrow> W \<le> T" and "Vs i \<le> T"
    and "owns_slot (ps i) \<Longrightarrow> Vs i = T" and "\<exists>v W. M l (T l) = Some (v, W)"
    and "M LState (T LState) = Some (v, W) \<Longrightarrow> v \<in> free_states \<Longrightarrow> W = T"
    and "M LState t = Some (v, W) \<Longrightarrow> v \<in> free_states \<Longrightarrow> M LState (t + 1) = None \<Longrightarrow> t = T LState"
    and "latest M T LState < 256"
  using assms unfolding view_inv_def by (blast, blast, blast, blast, fast, blast, blast, blast)

text \<open>A step that stores nothing.\<close>

lemma view_inv_keep:
  "view_inv M Vs ps T \<Longrightarrow> V \<le> T \<Longrightarrow> (owns_slot p \<Longrightarrow> V = T) \<Longrightarrow> view_inv M (Vs(i := V)) (ps(i := p)) T"
  unfolding view_inv_def by (auto split: if_splits)

lemma upd_mono: "(V :: loc view) \<le> T \<Longrightarrow> T l \<le> t \<Longrightarrow> V \<le> T(l := t)"
  by (auto simp: le_fun_def intro: order_trans)

text \<open>A store after all others, by the only owner.\<close>

lemma view_inv_store:
  assumes inv: "view_inv M Vs ps T" and others: "\<And>j. j \<noteq> i \<Longrightarrow> \<not> owns_slot (ps j)"
    and t: "T l < t" and W: "W \<le> T(l := t)" and st: "l = LState \<Longrightarrow> v \<in> free_states \<Longrightarrow> W = T(l := t)"
    and old: "latest M T LState \<notin> free_states \<or> l = LState \<and> t = T LState + 1"
    and byte: "l = LState \<Longrightarrow> v < 256"
  shows "view_inv (put_msg M l t (v, W)) (Vs(i := T(l := t))) (ps(i := p)) (T(l := t))"
  unfolding view_inv_def
proof (intro conjI allI impI)
  have up: "T \<le> T(l := t)" using t by (simp add: upd_mono)
  note d = view_invD [OF inv]
  show "latest (put_msg M l t (v, W)) (T(l := t)) LState < 256"
    using d(8) byte by (simp add: latest_put)
  show "put_msg M l t (v, W) l' ((T(l := t)) l') \<noteq> None" for l'
    using d(5) [of l'] by (auto simp: put_msg_apply)
  show "W' \<le> T(l := t)" if "put_msg M l t (v, W) l' t' = Some (v', W')" for l' t' v' W'
    using that W order_trans [OF d(2) up] by (auto simp: put_msg_apply split: if_splits)
  show "t' \<le> (T(l := t)) l'" if "put_msg M l t (v, W) l' t' = Some (v', W')" for l' t' v' W'
    using that d(1) [of l' t' v' W'] t by (auto simp: put_msg_apply split: if_splits)
  show "(Vs(i := T(l := t))) j \<le> T(l := t)" for j
    using order_trans [OF d(3) [of j] up] by auto
  show "(Vs(i := T(l := t))) j = T(l := t)" if "owns_slot ((ps(i := p)) j)" for j
    using that others [of j] by (auto split: if_splits)
  show "W' = T(l := t)"
    if "put_msg M l t (v, W) LState ((T(l := t)) LState) = Some (v', W')" "v' \<in> free_states" for v' W'
  proof (cases "l = LState")
    case True
    then show ?thesis using that st by (simp add: put_msg_apply)
  next
    case False
    then have "M LState (T LState) = Some (v', W')" using that(1) by (simp add: put_msg_apply)
    then show ?thesis using old False that(2) by (simp add: latest_def)
  qed
  show "put_msg M l t (v, W) LState (t' + 1) \<noteq> None"
    if "put_msg M l t (v, W) LState t' = Some (v', W')" "v' \<in> free_states" "t' \<noteq> (T(l := t)) LState" for t' v' W'
  proof -
    have m: "M LState t' = Some (v', W')" using that by (auto simp: put_msg_apply split: if_splits)
    show ?thesis
    proof (cases "t' = T LState")
      case True
      then have "latest M T LState \<in> free_states" using m that(2) by (simp add: latest_def)
      then show ?thesis using old True by (auto simp: put_msg_apply)
    next
      case False
      then have "M LState (t' + 1) \<noteq> None" using d(7) [OF m that(2)] by blast
      then show ?thesis by (simp add: put_msg_apply)
    qed
  qed
qed

text \<open>A successful \<open>compare_exchange\<close> on a free slot reads the latest store and so takes over every view.\<close>

lemma swap_latest:
  assumes "view_inv M Vs ps T" and "M LState t = Some (v, W)" and "v \<in> free_states" and "M LState (t + 1) = None"
  shows "t = T LState" and "vjoin (Vs i) W = T" and "latest M T LState = v"
proof -
  note d = view_invD [OF assms(1)]
  show t: "t = T LState" by (rule d(7) [OF assms(2-4)])
  then have "W = T" using d(6) assms(2,3) by blast
  moreover have "Vs i \<le> T" by (rule d(3))
  ultimately show "vjoin (Vs i) W = T" by (auto simp: vjoin_def le_fun_def max_def)
  show "latest M T LState = v" using t assms(2) by (simp add: latest_def)
qed

section \<open>Every step of the weak memory\<close>

text \<open>The invariant: the views are in order, and the snapshot satisfies the invariant of the sequential
  model.\<close>

definition ra_inv :: "ra_sys \<Rightarrow> loc view \<Rightarrow> bool" where
  "ra_inv s T \<longleftrightarrow> view_inv (ra_mem s) (ra_views s) (ra_pcs s) T \<and> slot_sys_inv (snap s T)"

abbreviation ra_move :: "ra_sys \<Rightarrow> nat \<Rightarrow> reply \<Rightarrow> loc memory \<Rightarrow> loc view \<Rightarrow> ra_sys" where
  "ra_move s i x M V \<equiv>
     \<lparr>ra_mem = M, ra_views = (ra_views s)(i := V), ra_pcs = (ra_pcs s)(i := after (ra_pcs s i) x),
      ra_published = ra_published s @ publishes (ra_pcs s i),
      ra_consumed = ra_consumed s @ consumes (ra_pcs s i)\<rparr>"

text \<open>A step that agrees with the sequential model on the snapshots keeps the invariant.\<close>

lemma ra_inv_sc:
  assumes "ra_inv s T" and "next_access (ra_pcs s i) = Some a"
    and "view_inv M ((ra_views s)(i := V)) ((ra_pcs s)(i := after (ra_pcs s i) x)) T'"
    and "sc_access a (snap_slot (ra_mem s) T) = (x', snap_slot M T')"
    and "after (ra_pcs s i) x' = after (ra_pcs s i) x"
  shows "ra_inv (ra_move s i x M V) T' \<and> snap (ra_move s i x M V) T' = sc_next (snap s T) i a"
proof -
  have eq: "snap (ra_move s i x M V) T' = sc_next (snap s T) i a"
    using assms(4,5) by (simp add: snap_def sc_next_def slot_move_def)
  have "slot_step (snap s T) (sc_next (snap s T) i a)"
    using assms(2) by (intro program_slot_step) (simp add: snap_def)
  then have "slot_sys_inv (sc_next (snap s T) i a)"
    using assms(1) slot_step_inv_ms by (auto simp: ra_inv_def slot_sys_inv_def)
  then show ?thesis using assms(3) eq by (simp add: ra_inv_def)
qed

lemma owner_alone:
  assumes "slot_sys_inv (snap s T)" and "owns_slot (ra_pcs s i)"
  shows "j \<noteq> i \<Longrightarrow> \<not> owns_slot (ra_pcs s j)" and "latest (ra_mem s) T LState \<notin> free_states"
proof -
  obtain ms where inv: "slot_sys_inv_ms ms (snap s T)" using assms(1) by (auto simp: slot_sys_inv_def)
  show "j \<noteq> i \<Longrightarrow> \<not> owns_slot (ra_pcs s j)"
    using inv assms(2) unfolding slot_sys_inv_ms_def by (auto simp: snap_def)
  have "\<not> SLOT_STATE (snap_slot (ra_mem s) T) \<in> {STATE_EMPTY, STATE_FULL}"
    using slot_idle [OF inv, of i] assms(2) by (auto simp: snap_def)
  then show "latest (ra_mem s) T LState \<notin> free_states" by (auto simp: snap_slot_def)
qed

lemma free_no_owner:
  assumes "slot_sys_inv (snap s T)" and "latest (ra_mem s) T LState \<in> free_states"
  shows "\<not> owns_slot (ra_pcs s j)"
  using owner_alone(2) [OF assms(1), of j] assms(2) by blast

lemma next_access_swap:
  "next_access p = Some (CompareExchange l old new) \<Longrightarrow>
   l = LState \<and> old \<in> free_states \<and> new \<notin> free_states \<and> new < 256 \<and> \<not> owns_slot p \<and> \<not> owns_slot (after p (Failed v)) \<and>
   publishes p = [] \<and> consumes p = []"
  by (cases p) (auto simp: slot_states split: if_splits)

lemma next_access_rmw: "next_access p \<noteq> Some (Swap l v)" "next_access p \<noteq> Some (FetchAdd l v)"
  by (cases p; simp)+

lemma next_access_owner:
  "next_access p = Some (Store l v) \<Longrightarrow> owns_slot p \<and> l \<noteq> LState"
  "next_access p = Some (StoreRelease l v) \<Longrightarrow> owns_slot p \<and> l = LState \<and> v < 256"
  "next_access p = Some (Load l) \<Longrightarrow> owns_slot p \<and> (l = LLen \<or> (\<exists>n acc. p = DByte n acc \<and> length acc < n \<and> l = LByte (length acc)))"
  "next_access p = Some Local \<Longrightarrow> owns_slot (after p x) \<Longrightarrow> owns_slot p"
  by (cases p; auto simp: slot_states split: if_splits)+

lemma byte_in_range:
  assumes "slot_sys_inv (snap s T)" and "ra_pcs s i = DByte n acc" and "length acc < n"
  shows "length acc < ENVELOPE_SLOT_BYTES"
proof -
  obtain ms where inv: "slot_sys_inv_ms ms (snap s T)" using assms(1) by (auto simp: slot_sys_inv_def)
  obtain m where "holds (snap_slot (ra_mem s) T) m" "n = length m"
    using slot_sys_inv_msD(1) [OF inv, of i] assms(2) by (auto simp: snap_def)
  moreover have "length (take n (SLOT_BYTES (snap_slot (ra_mem s) T))) \<le> ENVELOPE_SLOT_BYTES"
    by (simp add: snap_slot_def)
  ultimately show ?thesis using assms(3) by (simp add: holds_def)
qed

text \<open>An owner's load returns the latest store.\<close>

lemma load_latest:
  assumes inv: "ra_inv s T" and acc: "next_access (ra_pcs s i) = Some (Load l)"
    and m: "ra_mem s l t = Some (v, W)" "ra_views s i l \<le> t"
  shows "(ra_views s i)(l := t) = T \<and>
    after (ra_pcs s i) (Value (sc_load (snap_slot (ra_mem s) T) l)) = after (ra_pcs s i) (Value v)"
proof -
  have vi: "view_inv (ra_mem s) (ra_views s) (ra_pcs s) T" and si: "slot_sys_inv (snap s T)"
    using inv by (simp_all add: ra_inv_def)
  have V: "ra_views s i = T" using view_invD(4) [OF vi] next_access_owner(3) [OF acc] by blast
  then have t: "t = T l" using view_invD(1) [OF vi m(1)] m(2) by simp
  then have "latest (ra_mem s) T l = v" using m(1) by (simp add: latest_def)
  then have "after (ra_pcs s i) (Value (sc_load (snap_slot (ra_mem s) T) l)) = after (ra_pcs s i) (Value v)"
    using next_access_owner(3) [OF acc] byte_in_range [OF si, of i] by (auto simp: snap_slot_def)
  then show ?thesis using V t by auto
qed

lemma ra_inv_local:
  assumes "ra_inv s T" and "next_access (ra_pcs s i) = Some Local"
  shows "ra_inv (ra_move s i Done (ra_mem s) (ra_views s i)) T \<and>
    snap (ra_move s i Done (ra_mem s) (ra_views s i)) T = sc_next (snap s T) i Local"
proof (rule ra_inv_sc [OF assms])
  have vi: "view_inv (ra_mem s) (ra_views s) (ra_pcs s) T" using assms(1) by (simp add: ra_inv_def)
  show "view_inv (ra_mem s) ((ra_views s)(i := ra_views s i)) ((ra_pcs s)(i := after (ra_pcs s i) Done)) T"
    using next_access_owner(4) [OF assms(2)] view_invD(3,4) [OF vi] by (intro view_inv_keep [OF vi]) blast+
qed simp_all

lemma ra_inv_load:
  assumes inv: "ra_inv s T" and acc: "next_access (ra_pcs s i) = Some (Load l)"
    and m: "ra_mem s l t = Some (v, W)" "ra_views s i l \<le> t"
  shows "ra_inv (ra_move s i (Value v) (ra_mem s) ((ra_views s i)(l := t))) T \<and>
    snap (ra_move s i (Value v) (ra_mem s) ((ra_views s i)(l := t))) T = sc_next (snap s T) i (Load l)"
proof (rule ra_inv_sc [OF inv acc])
  note top = load_latest [OF inv acc m]
  have vi: "view_inv (ra_mem s) (ra_views s) (ra_pcs s) T" using inv by (simp add: ra_inv_def)
  show "view_inv (ra_mem s) ((ra_views s)(i := (ra_views s i)(l := t)))
    ((ra_pcs s)(i := after (ra_pcs s i) (Value v))) T"
    using top by (intro view_inv_keep [OF vi]) simp_all
  show "after (ra_pcs s i) (Value (sc_load (snap_slot (ra_mem s) T) l)) = after (ra_pcs s i) (Value v)"
    using top by simp
qed simp

lemma ra_inv_store:
  assumes inv: "ra_inv s T" and acc: "next_access (ra_pcs s i) = Some a"
    and a: "a = Store l v \<and> W = (\<lambda>_. 0)(l := t) \<or> a = StoreRelease l v \<and> W = (ra_views s i)(l := t)"
    and t: "ra_views s i l < t"
  shows "ra_inv (ra_move s i Done (put_msg (ra_mem s) l t (v, W)) ((ra_views s i)(l := t))) (T(l := t)) \<and>
    snap (ra_move s i Done (put_msg (ra_mem s) l t (v, W)) ((ra_views s i)(l := t))) (T(l := t)) =
      sc_next (snap s T) i a"
proof (rule ra_inv_sc [OF inv acc])
  have vi: "view_inv (ra_mem s) (ra_views s) (ra_pcs s) T" and si: "slot_sys_inv (snap s T)"
    using inv by (simp_all add: ra_inv_def)
  have own: "owns_slot (ra_pcs s i)" and st: "l = LState \<Longrightarrow> a = StoreRelease l v" "l = LState \<Longrightarrow> v < 256"
    using a acc next_access_owner(1,2) by blast+
  have V: "ra_views s i = T" by (rule view_invD(4) [OF vi own])
  show "view_inv (put_msg (ra_mem s) l t (v, W)) ((ra_views s)(i := (ra_views s i)(l := t)))
    ((ra_pcs s)(i := after (ra_pcs s i) Done)) (T(l := t))"
    unfolding V using a t V st owner_alone [OF si own]
    by (intro view_inv_store [OF vi]) (auto simp: le_fun_def)
  show "sc_access a (snap_slot (ra_mem s) T) = (Done, snap_slot (put_msg (ra_mem s) l t (v, W)) (T(l := t)))"
    using a by (auto simp: snap_put)
qed simp

lemma ra_inv_swap:
  assumes inv: "ra_inv s T" and acc: "next_access (ra_pcs s i) = Some (CompareExchange l old new)"
    and m: "ra_mem s l t = Some (old, W)" "ra_mem s l (t + 1) = None"
    and V: "V = (vjoin (ra_views s i) W)(l := t + 1)"
  shows "ra_inv (ra_move s i Swapped (put_msg (ra_mem s) l (t + 1) (new, V)) V) (T(l := t + 1)) \<and>
    snap (ra_move s i Swapped (put_msg (ra_mem s) l (t + 1) (new, V)) V) (T(l := t + 1)) =
      sc_next (snap s T) i (CompareExchange l old new)"
proof (rule ra_inv_sc [OF inv acc])
  have vi: "view_inv (ra_mem s) (ra_views s) (ra_pcs s) T" and si: "slot_sys_inv (snap s T)"
    using inv by (simp_all add: ra_inv_def)
  note p = next_access_swap [OF acc, of 0]
  have l: "l = LState" and free: "old \<in> free_states" using p by simp_all
  note top = swap_latest [OF vi m(1) [unfolded l] free m(2) [unfolded l]]
  have V': "V = T(l := t + 1)" using V top(2) by simp
  have "\<not> owns_slot (ra_pcs s j)" for j using free_no_owner [OF si] top(3) free by simp
  then show "view_inv (put_msg (ra_mem s) l (t + 1) (new, V)) ((ra_views s)(i := V))
    ((ra_pcs s)(i := after (ra_pcs s i) Swapped)) (T(l := t + 1))"
    unfolding V' using p top(1) by (intro view_inv_store [OF vi]) simp_all
  show "sc_access (CompareExchange l old new) (snap_slot (ra_mem s) T) =
      (Swapped, snap_slot (put_msg (ra_mem s) l (t + 1) (new, V)) (T(l := t + 1)))"
    using p top(3) free by (auto simp: snap_put) (auto simp: snap_slot_def)
qed simp

text \<open>A failing \<open>compare_exchange\<close> may have read an old store; it changes nothing but the thread.\<close>

lemma ra_inv_fail:
  assumes inv: "ra_inv s T" and acc: "next_access (ra_pcs s i) = Some (CompareExchange l old new)"
    and m: "ra_mem s l t = Some (v, W)" and V: "V = (vjoin (ra_views s i) W)(l := t)"
  shows "ra_inv (ra_move s i (Failed v) (ra_mem s) V) T \<and>
    snap (ra_move s i (Failed v) (ra_mem s) V) T =
      slot_move (snap s T) i (after (ra_pcs s i) (Failed v)) (slot (snap s T))"
proof -
  have vi: "view_inv (ra_mem s) (ra_views s) (ra_pcs s) T" and si: "slot_sys_inv (snap s T)"
    using inv by (simp_all add: ra_inv_def)
  note p = next_access_swap [OF acc]
  have "V \<le> T"
    unfolding V using view_invD(1,2) [OF vi m] view_invD(3) [OF vi, of i] by (simp add: le_fun_def vjoin_def)
  then have "view_inv (ra_mem s) ((ra_views s)(i := V)) ((ra_pcs s)(i := after (ra_pcs s i) (Failed v))) T"
    using p by (intro view_inv_keep [OF vi]) simp_all
  moreover have eq: "snap (ra_move s i (Failed v) (ra_mem s) V) T =
      slot_move (snap s T) i (after (ra_pcs s i) (Failed v)) (slot (snap s T))"
    using p by (simp add: snap_def slot_move_def)
  moreover have "slot_sys_inv (slot_move (snap s T) i (after (ra_pcs s i) (Failed v)) (slot (snap s T)))"
    using si p idle_stepI by (auto simp: slot_sys_inv_def)
  ultimately show ?thesis by (simp add: ra_inv_def)
qed

lemma ra_step_inv:
  assumes "ra_step s s'" and inv: "ra_inv s T"
  shows "\<exists>T'. ra_inv s' T'"
  using assms(1)
proof cases
  case (ra_step i a x M V)
  note acc = ra_step(2)
  from ra_step(3) show ?thesis unfolding ra_step(1)
  proof cases
    case local
    then show "\<exists>T'. ra_inv (ra_move s i x M V) T'" using ra_inv_local [OF inv] acc by blast
  next
    case (load l t v W)
    then show "\<exists>T'. ra_inv (ra_move s i x M V) T'" using ra_inv_load [OF inv] acc by blast
  next
    case (store l t v)
    then show "\<exists>T'. ra_inv (ra_move s i x M V) T'" using ra_inv_store [OF inv acc] by blast
  next
    case (store_release l t v)
    then show "\<exists>T'. ra_inv (ra_move s i x M V) T'" using ra_inv_store [OF inv acc] by blast
  next
    case (swapped l t old W new)
    then show "\<exists>T'. ra_inv (ra_move s i x M V) T'" using ra_inv_swap [OF inv] acc by blast
  next
    case (failed l t v W old new)
    then show "\<exists>T'. ra_inv (ra_move s i x M V) T'" using ra_inv_fail [OF inv] acc by blast
  qed (use acc next_access_rmw in blast)+
qed

lemma snap_init: "snap_slot (mem_init (\<lambda>_. 0)) (\<lambda>_. 0) = slot_init"
  by (simp add: snap_slot_def slot_init_def STATE_EMPTY_def map_replicate_const)

lemma snap_start: "snap (ra_start ps) (\<lambda>_. 0) = \<lparr>slot = slot_init, pcs = ps, published = [], consumed = []\<rparr>"
  by (simp add: snap_def ra_start_def snap_init)

lemma ra_start_inv:
  assumes "slot_sys_init \<lparr>slot = slot_init, pcs = ps, published = [], consumed = []\<rparr>"
  shows "ra_inv (ra_start ps) (\<lambda>_. 0)"
proof -
  have "slot_sys_inv (snap (ra_start ps) (\<lambda>_. 0))"
    using slot_sys_init_inv [OF assms] by (auto simp: snap_start slot_sys_inv_def)
  moreover have "view_inv (mem_init (\<lambda>_. 0)) (\<lambda>_ _. 0) ps (\<lambda>_. 0)"
    by (simp add: view_inv_def mem_init_None mem_init_Some)
  ultimately show ?thesis by (simp add: ra_inv_def ra_start_def)
qed

lemma ra_reachable_inv: "ra_reachable s \<Longrightarrow> \<exists>T. ra_inv s T"
proof (induction rule: ra_reachable.induct)
  case (start ps)
  then show ?case using ra_start_inv [of ps] by (auto simp: slot_sys_init_def)
next
  case (step s t)
  then show ?case using ra_step_inv by blast
qed

lemma after_done: "after p x = DDone (Ok acc) \<Longrightarrow> next_access p \<noteq> None \<Longrightarrow> consumes p = [acc]"
  by (cases p) (auto split: if_splits reply.splits)

lemma ra_reachable_done: "ra_reachable s \<Longrightarrow> ra_pcs s i = DDone (Ok acc) \<Longrightarrow> acc \<in> set (ra_consumed s)"
proof (induction arbitrary: i acc rule: ra_reachable.induct)
  case (start ps)
  from start.hyps have "(\<exists>env r. ps i = EReq env r) \<or> (\<exists>w k. ps i = DReq (spin_budget w) 0 k)" by simp
  then show ?case using start.prems by (auto simp: ra_start_def)
next
  case (step s t)
  from step.hyps(2) show ?case
  proof cases
    case (ra_step j a x M V)
    then show ?thesis using step.prems step.IH [of i acc] after_done [of "ra_pcs s j" x acc]
      by (auto split: if_splits)
  qed
qed

section \<open>Sequentially consistent runs are runs of the weak memory\<close>

lemma sc_step_ra:
  assumes "ra_inv u T" and "slot_step (snap u T) t"
  shows "\<exists>u' T'. ra_step u u' \<and> ra_inv u' T' \<and> snap u' T' = t"
proof -
  obtain i a where acc: "next_access (ra_pcs u i) = Some a" and t: "t = sc_next (snap u T) i a"
    using slot_step_program [OF assms(2)] by (auto simp: snap_def)
  have vi: "view_inv (ra_mem u) (ra_views u) (ra_pcs u) T" using assms(1) by (simp add: ra_inv_def)
  note d = view_invD [OF vi]
  have V: "ra_views u i l \<le> T l" for l using d(3) [of i] by (simp add: le_fun_def)
  have free: "ra_mem u l (T l + 1) = None" for l
    using d(1) [of l "T l + 1"] by (cases "ra_mem u l (T l + 1)") auto
  note go = ra_step.intros [OF acc]
  show ?thesis
  proof (cases a)
    case Local
    then show ?thesis using go ra_access.local ra_inv_local [OF assms(1)] acc t by blast
  next
    case (Load l)
    obtain v W where m: "ra_mem u l (T l) = Some (v, W)" using d(5) by blast
    show ?thesis
      using go ra_access.load [of "ra_mem u" l "T l" v W "ra_views u i", OF m V] ra_inv_load [OF assms(1) _ m V] acc t Load by blast
  next
    case (Store l v)
    have "ra_views u i l < T l + 1" using V [of l] by simp
    then show ?thesis
      using go ra_access.store [of "ra_views u i" l "T l + 1" "ra_mem u" v, OF _ free] ra_inv_store [OF assms(1) acc] acc t Store by blast
  next
    case (StoreRelease l v)
    have "ra_views u i l < T l + 1" using V [of l] by simp
    then show ?thesis
      using go ra_access.store_release [of "ra_views u i" l "T l + 1" "ra_mem u" v, OF _ free] ra_inv_store [OF assms(1) acc] acc t StoreRelease by blast
  next
    case (CompareExchange l old new)
    note p = next_access_swap [OF acc [unfolded CompareExchange]]
    obtain v W where m: "ra_mem u l (T l) = Some (v, W)" using d(5) by blast
    then have v: "sc_load (snap_slot (ra_mem u) T) l = v"
      using d(8) p by (simp add: snap_slot_def latest_def unat_of_nat)
    show ?thesis
    proof (cases "v = old")
      case True
      show ?thesis
        using go ra_access.swapped [of "ra_mem u" l "T l" old W "ra_views u i" _ new, OF m [unfolded True] V free refl]
          ra_inv_swap [OF assms(1) _ m [unfolded True] free refl] acc t CompareExchange by blast
    next
      case False
      have "sc_next (snap u T) i a = slot_move (snap u T) i (after (ra_pcs u i) (Failed v)) (slot (snap u T))"
        using False v p by (simp add: CompareExchange sc_next_def snap_def slot_move_def)
      then show ?thesis
        using go ra_access.failed [of "ra_mem u" l "T l" v W "ra_views u i" old new, OF m V False] ra_inv_fail [OF assms(1) _ m refl] acc t CompareExchange
        by metis
    qed
  qed (use acc next_access_rmw in blast)+
qed

lemma sc_run_is_ra_run: "slot_reachable s \<Longrightarrow> \<exists>u T. ra_reachable u \<and> ra_inv u T \<and> snap u T = s"
proof (induction rule: slot_reachable.induct)
  case (start s)
  then have s: "s = \<lparr>slot = slot_init, pcs = pcs s, published = [], consumed = []\<rparr>"
    by (simp add: slot_sys_init_def)
  then have "ra_inv (ra_start (pcs s)) (\<lambda>_. 0)" using start ra_start_inv by metis
  moreover have "ra_reachable (ra_start (pcs s))"
    using start by (intro ra_reachable.start) (simp add: slot_sys_init_def)
  ultimately show ?case using s by (metis snap_start)
next
  case (step s t)
  then show ?case using sc_step_ra ra_reachable.step by blast
qed

section \<open>Properties\<close>

text \<open>C6: the memory orders the code writes are enough. In every run of any number of concurrent senders and
  receivers on a release/acquire memory, where a thread may read old values of a byte, of the length or
  of the state, at most one thread owns the slot, the byte strings handed out are the envelopes
  published, whole and in publication order, with at most one outstanding, and a receive that returned
  \<open>Ok\<close> returned one of them. No \<open>Relaxed\<close> load of an owner reads a stale byte or length.\<close>

theorem envelope_release_acquire:
  assumes "ra_reachable s"
  shows "(\<exists>rest. ra_published s = ra_consumed s @ rest \<and> length rest \<le> 1) \<and>
         list_all (\<lambda>m. length m \<le> ENVELOPE_SLOT_BYTES) (ra_published s) \<and>
         (\<forall>i acc. ra_pcs s i = DDone (Ok acc) \<longrightarrow> acc \<in> set (ra_published s)) \<and>
         (\<forall>i j. owns_slot (ra_pcs s i) \<longrightarrow> owns_slot (ra_pcs s j) \<longrightarrow> i = j) \<and>
         (\<forall>i l t t'. owns_slot (ra_pcs s i) \<longrightarrow> ra_mem s l t \<noteq> None \<longrightarrow> ra_views s i l \<le> t \<longrightarrow>
            ra_mem s l t' \<noteq> None \<longrightarrow> t' \<le> t)"
proof -
  obtain T where inv: "ra_inv s T" using ra_reachable_inv [OF assms] by blast
  then obtain ms where ms: "slot_sys_inv_ms ms (snap s T)" by (auto simp: ra_inv_def slot_sys_inv_def)
  have "ra_published s = ra_consumed s @ ms" "list_all (\<lambda>m. length m \<le> ENVELOPE_SLOT_BYTES) (ra_published s)"
    using slot_sys_inv_msD(3,4) [OF ms] by (simp_all add: snap_def)
  moreover have "length ms \<le> 1" using ms unfolding slot_sys_inv_ms_def by blast
  moreover have "i = j" if "owns_slot (ra_pcs s i)" "owns_slot (ra_pcs s j)" for i j
    using owner_alone(1) that inv by (auto simp: ra_inv_def)
  moreover have "acc \<in> set (ra_published s)" if "ra_pcs s i = DDone (Ok acc)" for i acc
    using ra_reachable_done [OF assms that] calculation(1) by simp
  moreover have "t' \<le> t" if own: "owns_slot (ra_pcs s i)" and m: "ra_mem s l t' \<noteq> None" and V: "ra_views s i l \<le> t" for i l t t'
  proof -
    have vi: "view_inv (ra_mem s) (ra_views s) (ra_pcs s) T" using inv by (simp add: ra_inv_def)
    obtain v W where "ra_mem s l t' = Some (v, W)" using m by auto
    then show ?thesis using view_invD(1) [OF vi] view_invD(4) [OF vi own] V by fastforce
  qed
  ultimately show ?thesis by blast
qed

theorem envelope_release_acquire_witness:
  "\<exists>s. ra_reachable s \<and> ra_pcs s 1 = DDone (Ok [42]) \<and> [42] \<in> set (ra_published s)"
proof -
  obtain s where s: "slot_reachable s" "pcs s 1 = DDone (Ok [42])" using relay_reachable by blast
  obtain u T where u: "ra_reachable u" "snap u T = s" using sc_run_is_ra_run [OF s(1)] by blast
  then have "ra_pcs u 1 = DDone (Ok [42])" using s(2) by (auto simp: snap_def)
  then show ?thesis using envelope_release_acquire [OF u(1)] u(1) by blast
qed

end
