(* ===== verification/Atomics_Memory.thy ===== *)
theory Atomics_Memory
  imports Release_Acquire Frame_Alloc Vfs_Concurrent
begin

text \<open>
  The frame allocator and the descriptor table on the release/acquire memory: the loops of \<open>alloc_pages\<close>,
  \<open>vfs_open\<close> and \<open>vfs_close\<close> as programs of atomic accesses. Both change their statics with
  read-modify-writes only, so they are interpretations of \<open>rmw_program\<close>, with the invariants of the
  sequentially consistent models (theories \<open>Frame_Alloc\<close>, \<open>Vfs_Concurrent\<close>); a load and a failing exchange
  may see any former value.
\<close>

section \<open>The frame allocator\<close>

fun alloc_access :: "alloc_pc \<Rightarrow> unit access option" where
  "alloc_access (AReq len) = Some (if len = 0 then Local else Load ())"
| "alloc_access (ALoop b cur) =
     Some (if saturating_add cur b > VIRTUAL_BASE_END then Local
           else CompareExchange () (unat cur) (unat (saturating_add cur b)))"
| "alloc_access (ADone b r) = None"

fun alloc_after :: "alloc_pc \<Rightarrow> reply \<Rightarrow> alloc_pc" where
  "alloc_after (AReq len) x =
     (if len = 0 then ADone 0 (Err FrameErr.InvalidLen)
      else case x of Value v \<Rightarrow> ALoop (bytes_needed len) (word_of_nat v) | _ \<Rightarrow> AReq len)"
| "alloc_after (ALoop b cur) x =
     (if saturating_add cur b > VIRTUAL_BASE_END then ADone b (Err FrameErr.PoolExhausted)
      else case x of
             Swapped \<Rightarrow> ADone b (Ok cur)
           | Failed v \<Rightarrow> ALoop b (word_of_nat v)
           | _ \<Rightarrow> ALoop b cur)"
| "alloc_after (ADone b r) x = ADone b r"

text \<open>The invariant of \<open>Frame_Alloc\<close> for the latest watermark; a thread's watermark may be old but is never above
  the latest, so \<open>PoolExhausted\<close> is never returned for an old one that was too high.\<close>

definition alloc_mem_inv :: "(unit \<Rightarrow> nat) \<Rightarrow> (nat \<Rightarrow> alloc_pc) \<Rightarrow> bool" where
  "alloc_mem_inv m ps \<longleftrightarrow> m () < 2 ^ 64 \<and> alloc_sys_inv \<lparr>watermark = word_of_nat (m ()), threads = ps\<rparr> \<and>
     (\<forall>i b cur. ps i = ALoop b cur \<longrightarrow> unat cur \<le> m ()) \<and>
     (\<forall>i b. ps i = ADone b (Err FrameErr.PoolExhausted) \<longrightarrow> unat VIRTUAL_BASE_END < m () + unat b)"

lemma alloc_sys_eq:
  "\<lparr>watermark = w, threads = ps(i := p)\<rparr> = set_pc \<lparr>watermark = w, threads = ps\<rparr> i p"
  by (simp add: set_pc_def)

lemma alloc_mem_invD:
  assumes "alloc_mem_inv m ps"
  shows "m () < 2 ^ 64" and "alloc_sys_inv \<lparr>watermark = word_of_nat (m ()), threads = ps\<rparr>"
    and "ps i = ALoop b cur \<Longrightarrow> unat cur \<le> m ()"
    and "ps i = ADone b (Err FrameErr.PoolExhausted) \<Longrightarrow> unat VIRTUAL_BASE_END < m () + unat b"
    and "ps i = ALoop b cur \<Longrightarrow> unat b mod 4096 = 0"
proof -
  show "ps i = ALoop b cur \<Longrightarrow> unat b mod 4096 = 0"
    using assms by (auto simp: alloc_mem_inv_def alloc_sys_inv_def pc_ok_def dest: spec [of _ i])
qed (use assms in \<open>auto simp: alloc_mem_inv_def\<close>)

text \<open>A thread moves on without changing the watermark.\<close>

lemma alloc_mem_local:
  assumes "alloc_mem_inv m ps" and "\<And>w. pc_ok w p" and "\<And>y. blocks_apart p y"
    and "\<And>b cur. p = ALoop b cur \<Longrightarrow> unat cur \<le> m ()"
    and "\<And>b. p = ADone b (Err FrameErr.PoolExhausted) \<Longrightarrow> unat VIRTUAL_BASE_END < m () + unat b"
  shows "alloc_mem_inv m (ps(i := p))"
  using alloc_sys_inv_local [OF alloc_mem_invD(2) [OF assms(1)]] assms alloc_mem_invD(1,3,4) [OF assms(1)]
  by (auto simp: alloc_mem_inv_def alloc_sys_eq)

text \<open>A refused request is above the end of the pool, also for the latest watermark.\<close>

lemma refused_above:
  assumes "saturating_add cur b > VIRTUAL_BASE_END" and "unat cur \<le> w"
  shows "unat VIRTUAL_BASE_END < w + unat b"
proof -
  have "unat (saturating_add cur b) \<le> unat cur + unat b"
  proof (cases "unat cur + unat b < 2 ^ 64")
    case False
    then show ?thesis using unsigned_less [of "saturating_add cur b", where 'a = nat] by simp
  qed (simp add: saturating_add_def unat_word_ariths)
  then show ?thesis using assms by (simp add: word_less_nat_alt)
qed

lemma alloc_mem_swapped:
  assumes inv: "alloc_mem_inv m ps" and pc: "ps i = ALoop b cur"
    and fits: "\<not> saturating_add cur b > VIRTUAL_BASE_END" and m: "m () = unat cur"
  shows "alloc_mem_inv (m(() := unat (saturating_add cur b))) (ps(i := ADone b (Ok cur))) \<and>
    unat cur \<le> unat (saturating_add cur b)"
proof -
  let ?s = "\<lparr>watermark = cur, threads = ps\<rparr>"
  have inv': "alloc_sys_inv ?s" using alloc_mem_invD(2) [OF inv] m by simp
  have up: "unat cur \<le> unat (saturating_add cur b)" using saturating_add_in_pool [OF fits] by simp
  have "alloc_step ?s ((set_pc ?s i (ADone b (Ok cur)))\<lparr>watermark := saturating_add cur b\<rparr>)"
    by (rule alloc_step.cas_ok) (use pc fits in simp_all)
  then have "alloc_sys_inv ((set_pc ?s i (ADone b (Ok cur)))\<lparr>watermark := saturating_add cur b\<rparr>)"
    using inv' by (rule alloc_step_inv)
  then have "alloc_mem_inv (m(() := unat (saturating_add cur b))) (ps(i := ADone b (Ok cur)))"
    unfolding alloc_mem_inv_def
    using order_trans [OF alloc_mem_invD(3) [OF inv, unfolded m] up]
      less_le_trans [OF alloc_mem_invD(4) [OF inv, unfolded m] add_right_mono [OF up]]
      unsigned_less [of "saturating_add cur b", where 'a = nat]
    by (auto simp: set_pc_def)
  then show ?thesis using up by simp
qed

interpretation alloc_mem: rmw_program alloc_access alloc_after alloc_mem_inv "\<lambda>_ v w. v \<le> w"
proof
  fix p :: alloc_pc and l :: unit and v n :: nat
  show "alloc_access p \<noteq> Some (Store l v)" "alloc_access p \<noteq> Some (StoreRelease l v)" "alloc_access p \<noteq> Some (FetchAdd l n)"
    by (cases p; simp)+
next
  fix m ps i and l :: unit and v old new :: nat
  assume inv: "alloc_mem_inv m ps"
  note d = alloc_mem_invD [OF inv]
  show "alloc_access (ps i) = Some Local \<Longrightarrow> alloc_mem_inv m (ps(i := alloc_after (ps i) Done))"
    using refused_above d(3)
    by (cases "ps i") (auto intro!: alloc_mem_local [OF inv] simp: pc_ok_def split: if_splits)
  show "alloc_access (ps i) = Some (Load l) \<Longrightarrow> v \<le> m l \<Longrightarrow> alloc_mem_inv m (ps(i := alloc_after (ps i) (Value v)))"
    using d(1)
    by (cases "ps i") (auto intro!: alloc_mem_local [OF inv] simp: pc_ok_def bytes_needed_aligned unat_of_nat split: if_splits)
  show "alloc_mem_inv m (ps(i := alloc_after (ps i) (Failed v)))"
    if "alloc_access (ps i) = Some (CompareExchange l old new)" "v \<le> m l" "v \<noteq> old"
    using that d(1,5)
    by (cases "ps i") (auto intro!: alloc_mem_local [OF inv] simp: pc_ok_def unat_of_nat split: if_splits)
  show "alloc_mem_inv (m(l := new)) (ps(i := alloc_after (ps i) Swapped)) \<and> (\<forall>v. v \<le> old \<longrightarrow> v \<le> new)"
    if "alloc_access (ps i) = Some (CompareExchange l old new)" "m l = old"
    using that alloc_mem_swapped [OF inv, of i] by (cases "ps i") (fastforce split: if_splits)+
  show "alloc_mem_inv (m(l := new)) (ps(i := alloc_after (ps i) (Value (m l)))) \<and> (\<forall>v. v \<le> m l \<longrightarrow> v \<le> new)"
    if "alloc_access (ps i) = Some (Swap l new)"
    using that by (cases "ps i") (auto split: if_splits)
qed simp

lemma alloc_mem_start:
  assumes "\<forall>i. \<exists>len. ps i = AReq len"
  shows "alloc_mem_inv (\<lambda>_. unat VIRTUAL_BASE_START) ps"
proof -
  let ?s = "\<lparr>watermark = VIRTUAL_BASE_START, threads = ps\<rparr>"
  have "alloc_sys_inv ?s"
    using assms by (intro alloc_reachable_inv alloc_reachable.start) (simp add: alloc_init_def)
  moreover have "ps i \<noteq> ALoop b cur" "ps i \<noteq> ADone b r" for i b cur r using assms by (metis alloc_pc.distinct)+
  ultimately show ?thesis by (simp add: alloc_mem_inv_def frame_consts)
qed


text \<open>Thread 0 is given two pages; thread 1 then loads the watermark of before, fails once and retries.\<close>

lemma stale_alloc_run:
  defines "m \<equiv> \<lambda>_ :: unit. unat VIRTUAL_BASE_START" and "ps \<equiv> \<lambda>i :: nat. AReq (if i = 0 then 5000 else 1)"
  shows "\<exists>M Vs. ra_run alloc_access alloc_after m ps
     \<lparr>memory = M, views = Vs, at = ps(0 := ADone 8192 (Ok 4096), 1 := ADone 4096 (Ok 12288))\<rparr>"
proof -
  let ?run = "\<lambda>M Vs p. ra_run alloc_access alloc_after m ps \<lparr>memory = M, views = Vs, at = p\<rparr>"
  let ?z = "\<lambda>_ :: unit. 0 :: nat"
  have m0: "mem_init m () 0 = Some (4096, ?z)" "mem_init m () (0 + 1) = None"
    by (simp_all add: mem_init_def m_def frame_consts)
  have ev: "bytes_needed 5000 = 8192" "bytes_needed 1 = 4096" "saturating_add 4096 8192 = (12288 :: usize)"
    "saturating_add 4096 4096 = (8192 :: usize)" "saturating_add 12288 4096 = (16384 :: usize)"
    "\<not> VIRTUAL_BASE_END < 12288" "\<not> VIRTUAL_BASE_END < 8192" "\<not> VIRTUAL_BASE_END < 16384"
    by (simp_all add: bytes_needed_def saturating_add_def frame_consts)
  have r0: "?run (mem_init m) (\<lambda>_. ?z) ps" by (rule ra_run.start)
  have r1: "?run (mem_init m) ((\<lambda>_. ?z)(0 := ?z(() := 0))) (ps(0 := ALoop 8192 4096))"
    by (rule ra_run_stepI [OF r0, of 0, OF _ ra_access.load [of "mem_init m" "()" 0 4096 ?z ?z, OF m0(1)]])
      (simp_all add: ps_def ev)
  define V1 where "V1 = (vjoin (?z(() := 0)) ?z)(() := 0 + 1)"
  define M1 where "M1 = put_msg (mem_init m) () (0 + 1) (12288, V1)"
  define Vs where "Vs = (\<lambda>_ :: nat. ?z)(0 := ?z(() := 0), 0 := V1)"
  have m1: "M1 () 0 = Some (4096, ?z)" "M1 () 1 = Some (12288, V1)" "M1 () (1 + 1) = None"
    using m0(1) by (simp_all add: M1_def put_msg_apply mem_init_None)
  have r2: "?run M1 Vs (ps(0 := ADone 8192 (Ok 4096)))"
    unfolding M1_def Vs_def
    by (rule ra_run_stepI [OF r1, of 0, OF _ ra_access.swapped [of "mem_init m" "()" 0 4096 ?z _ V1 12288, OF m0(1) _ m0(2)]])
      (simp_all add: ev V1_def)
  have r3: "?run M1 (Vs(1 := (Vs 1)(() := 0))) (ps(0 := ADone 8192 (Ok 4096), 1 := ALoop 4096 4096))"
    by (rule ra_run_stepI [OF r2, of 1, OF _ ra_access.load [of M1 "()" 0 4096 ?z "Vs 1", OF m1(1)]])
      (simp_all add: ps_def ev Vs_def)
  have r4: "\<exists>V. ?run M1 V (ps(0 := ADone 8192 (Ok 4096), 1 := ALoop 4096 12288)) \<and> V 1 () = 1"
    by (rule exI, rule conjI, rule ra_run_stepI [OF r3, of 1, OF _ ra_access.failed [of M1 "()" 1 12288 V1 _ 4096 8192, OF m1(2)]])
      (simp_all add: ev)
  then obtain V where V: "?run M1 V (ps(0 := ADone 8192 (Ok 4096), 1 := ALoop 4096 12288))" "V 1 () = 1" by blast
  show ?thesis
    by (rule exI, rule exI, rule ra_run_stepI [OF V(1), of 1, OF _ ra_access.swapped [of M1 "()" 1 12288 V1 _ _ 16384, OF m1(2) _ m1(3) refl]])
      (simp_all add: ev V(2) [simplified])
qed


section \<open>The descriptor table\<close>

text \<open>The location is the index of the slot.\<close>

fun fd_access :: "fd_pc \<Rightarrow> nat access option" where
  "fd_access (FReq path mode) = Some Local"
| "fd_access (FScan kind fd) =
     Some (if fd < FD_TABLE_SIZE then CompareExchange fd (unat FD_STATE_FREE) (unat kind) else Local)"
| "fd_access (FHold fd) =
     Some (if fd \<le> RESERVED_FD_MAX \<or> unat fd \<ge> FD_TABLE_SIZE then Local else Swap (unat fd) (unat FD_STATE_FREE))"
| "fd_access (FRefused e) = None"
| "fd_access (FClosed r) = None"

fun fd_after :: "fd_pc \<Rightarrow> reply \<Rightarrow> fd_pc" where
  "fd_after (FReq path mode) x =
     (if path = [] then FRefused VfsErr.InvalidPath
      else if mode = 0 \<or> mode AND NOT MODE_MASK \<noteq> 0 then FRefused VfsErr.InvalidMode
      else FScan (binding_kind_for_path path) (unat RESERVED_FD_MAX + 1))"
| "fd_after (FScan kind fd) x =
     (if fd < FD_TABLE_SIZE then if x = Swapped then FHold (word_of_nat fd) else FScan kind (fd + 1)
      else FRefused VfsErr.TableFull)"
| "fd_after (FHold fd) x =
     (if fd \<le> RESERVED_FD_MAX then FClosed (Err VfsErr.InvalidOpForFd)
      else if unat fd \<ge> FD_TABLE_SIZE then FClosed (Err VfsErr.InvalidFd)
      else case x of
             Value old \<Rightarrow> if old = unat FD_STATE_FREE then FClosed (Err VfsErr.InvalidFd) else FClosed (Ok ())
           | _ \<Rightarrow> FHold fd)"
| "fd_after (FRefused e) x = FRefused e"
| "fd_after (FClosed r) x = FClosed r"

definition fd_snap :: "(nat \<Rightarrow> nat) \<Rightarrow> fd_table" where
  "fd_snap m = map (\<lambda>n. word_of_nat (m n)) [0..<FD_TABLE_SIZE]"

definition fd_mem_inv :: "(nat \<Rightarrow> nat) \<Rightarrow> (nat \<Rightarrow> fd_pc) \<Rightarrow> bool" where
  "fd_mem_inv m ps \<longleftrightarrow> (\<forall>n. m n < 256) \<and> fd_sys_inv \<lparr>table = fd_snap m, callers = ps\<rparr>"

lemma fd_snap_upd: "fd_snap (m(n := v)) = (fd_snap m)[n := word_of_nat v]"
  by (auto simp: fd_snap_def list_eq_iff_nth_eq nth_list_update)

lemma fd_snap_nth: "n < FD_TABLE_SIZE \<Longrightarrow> fd_snap m ! n = word_of_nat (m n)"
  by (simp add: fd_snap_def)

lemma byte_zero_iff: "v < 256 \<Longrightarrow> (word_of_nat v :: u8) = w \<longleftrightarrow> v = unat w"
  by (auto simp: word_unat_eq_iff unat_of_nat)

lemma fd_mem_invD:
  assumes "fd_mem_inv m ps"
  shows "m n < 256" and "fd_sys_inv \<lparr>table = fd_snap m, callers = ps\<rparr>" and "pc_fine (ps i)"
  using assms fd_sys_invD(2) [of "\<lparr>table = fd_snap m, callers = ps\<rparr>" i] by (simp_all add: fd_mem_inv_def)

lemma held_range:
  assumes "pc_fine (FHold fd)"
  shows "\<not> fd \<le> RESERVED_FD_MAX" and "unat fd < FD_TABLE_SIZE" and "3 \<le> unat fd"
  using assms by (auto simp: fd_consts unat_of_nat word_le_nat_alt)

text \<open>A caller moves on without changing the table.\<close>

lemma fd_mem_local:
  assumes "fd_mem_inv m ps" and "\<And>fd. ps i \<noteq> FHold fd" and "\<And>fd. p \<noteq> FHold fd" and "pc_fine p"
  shows "fd_mem_inv m (ps(i := p))"
  using local_step [OF fd_mem_invD(2) [OF assms(1)], of i p] assms fd_mem_invD(1) [OF assms(1)]
  by (simp add: fd_mem_inv_def fd_move_def)

lemma fd_mem_quiet:
  assumes inv: "fd_mem_inv m ps" and "fd_access (ps i) = Some Local"
  shows "fd_mem_inv m (ps(i := fd_after (ps i) Done))"
proof (cases "ps i")
  case (FReq path mode)
  then show ?thesis using binding_kind_range [of path] by (auto intro!: fd_mem_local [OF inv] simp: fd_consts)
next
  case (FHold fd)
  then show ?thesis using assms(2) held_range [of fd] fd_mem_invD(3) [OF inv, of i] by (auto split: if_splits)
qed (use assms(2) in \<open>auto intro!: fd_mem_local [OF inv] split: if_splits\<close>)

lemma fd_mem_take:
  assumes inv: "fd_mem_inv m ps" and acc: "fd_access (ps i) = Some (CompareExchange l old new)" and m: "m l = old"
  shows "fd_mem_inv (m(l := new)) (ps(i := fd_after (ps i) Swapped))"
proof -
  let ?s = "\<lparr>table = fd_snap m, callers = ps\<rparr>"
  obtain kind where pc: "ps i = FScan kind l" and l: "l < FD_TABLE_SIZE" and old: "old = unat FD_STATE_FREE" "new = unat kind"
    using acc by (cases "ps i") (auto split: if_splits)
  have free: "table ?s ! l = FD_STATE_FREE" using m l old by (simp add: fd_snap_nth)
  have "fd_sys_inv ((fd_move ?s i (FHold (word_of_nat l)))\<lparr>table := (table ?s)[l := kind]\<rparr>)"
    by (rule take_step [OF fd_mem_invD(2) [OF inv] _ l free]) (simp add: pc)
  moreover have "new < 256" using old(2) unsigned_less [of kind, where 'a = nat] by simp
  ultimately show ?thesis
    using pc l old fd_mem_invD(1) [OF inv] by (simp add: fd_mem_inv_def fd_move_def fd_snap_upd)
qed

lemma fd_mem_close:
  assumes inv: "fd_mem_inv m ps" and acc: "fd_access (ps i) = Some (Swap l new)"
  shows "fd_mem_inv (m(l := new)) (ps(i := fd_after (ps i) (Value (m l))))"
proof -
  let ?s = "\<lparr>table = fd_snap m, callers = ps\<rparr>"
  have sys: "fd_sys_inv ?s" by (rule fd_mem_invD(2) [OF inv])
  obtain fd where pc: "ps i = FHold fd" and l: "l = unat fd" and new: "new = unat FD_STATE_FREE"
    using acc by (cases "ps i") (auto split: if_splits)
  note r = held_range [OF fd_mem_invD(3) [OF inv, of i, unfolded pc]]
  obtain n where n: "fd = word_of_nat n" "holds_fd ?s i n" "vfs_close fd (fd_snap m) = (Ok (), (fd_snap m)[n := FD_STATE_FREE])"
    using held_close [OF sys, of i fd] pc by auto
  then have nl: "n = l" using l by (simp add: holds_fd_def unat_of_nat FD_TABLE_SIZE_def)
  have "fd_sys_inv ((fd_move ?s i (FClosed (Ok ())))\<lparr>table := (fd_snap m)[n := FD_STATE_FREE]\<rparr>)"
    by (rule close_step [OF sys]) (use pc n(3) in simp_all)
  moreover have "m l \<noteq> unat FD_STATE_FREE"
    using fd_sys_invD(3) [OF sys, of l] n(2) nl r l fd_mem_invD(1) [OF inv, of l]
    by (auto simp: fd_snap_nth byte_zero_iff)
  ultimately show ?thesis
    using pc r l nl new fd_mem_invD(1) [OF inv] by (simp add: fd_mem_inv_def fd_move_def fd_snap_upd FD_STATE_FREE_def)
qed

interpretation fd_mem: rmw_program fd_access fd_after fd_mem_inv "\<lambda>_ _ _. True"
proof
  fix p :: fd_pc and l v n :: nat
  show "fd_access p \<noteq> Some (Store l v)" "fd_access p \<noteq> Some (StoreRelease l v)" "fd_access p \<noteq> Some (FetchAdd l n)"
    by (cases p; simp)+
next
  fix m ps i and l v old new :: nat
  assume inv: "fd_mem_inv m ps"
  show "fd_access (ps i) = Some Local \<Longrightarrow> fd_mem_inv m (ps(i := fd_after (ps i) Done))" by (rule fd_mem_quiet [OF inv])
  show "fd_access (ps i) = Some (Load l) \<Longrightarrow> True \<Longrightarrow> fd_mem_inv m (ps(i := fd_after (ps i) (Value v)))"
    by (cases "ps i") (auto split: if_splits)
  show "fd_mem_inv m (ps(i := fd_after (ps i) (Failed v)))"
    if "fd_access (ps i) = Some (CompareExchange l old new)"
    using that fd_mem_invD(3) [OF inv, of i] by (cases "ps i") (auto intro!: fd_mem_local [OF inv] split: if_splits)
  show "fd_mem_inv (m(l := new)) (ps(i := fd_after (ps i) Swapped)) \<and> (\<forall>v. True \<longrightarrow> True)"
    if "fd_access (ps i) = Some (CompareExchange l old new)" "m l = old"
    using fd_mem_take [OF inv that] by simp
  show "fd_mem_inv (m(l := new)) (ps(i := fd_after (ps i) (Value (m l)))) \<and> (\<forall>v. True \<longrightarrow> True)"
    if "fd_access (ps i) = Some (Swap l new)"
    using fd_mem_close [OF inv that] by simp
qed simp

lemma fd_mem_start:
  assumes "\<forall>i. \<exists>path mode. ps i = FReq path mode"
  shows "fd_mem_inv (\<lambda>_. unat FD_STATE_FREE) ps"
proof -
  have "fd_snap (\<lambda>_. unat FD_STATE_FREE) = fd_init"
    by (simp add: fd_snap_def fd_init_def map_replicate_const)
  then have "fd_sys_inv \<lparr>table = fd_snap (\<lambda>_. unat FD_STATE_FREE), callers = ps\<rparr>"
    using assms by (intro fd_reachable_inv fd_reachable.start) (simp add: fd_sys_init_def)
  then show ?thesis by (simp add: fd_mem_inv_def FD_STATE_FREE_def)
qed

text \<open>C8: descriptors on a release/acquire memory. However the opens and closes of any number of callers interleave
  and whatever former state of a slot a failing exchange reads, no descriptor is held by two callers,
  every held descriptor is in the range above the reserved ones, whoever has closed its descriptor was
  told so, and the latest state of a slot is in use exactly while a caller holds it, so none leaks.\<close>

theorem vfs_release_acquire:
  assumes "ra_run fd_access fd_after (\<lambda>_. unat FD_STATE_FREE) ps s" and "\<forall>i. \<exists>path mode. ps i = FReq path mode"
  shows "(\<forall>i j fd. at s i = FHold fd \<and> at s j = FHold fd \<longrightarrow> i = j) \<and>
    (\<forall>i fd. at s i = FHold fd \<longrightarrow> 3 \<le> unat fd \<and> unat fd < FD_TABLE_SIZE) \<and>
    (\<forall>i r. at s i = FClosed r \<longrightarrow> r = Ok ()) \<and>
    (\<forall>n t v W. 3 \<le> n \<and> n < FD_TABLE_SIZE \<and> memory s n t = Some (v, W) \<and> memory s n (t + 1) = None \<longrightarrow>
       (v \<noteq> unat FD_STATE_FREE \<longleftrightarrow> (\<exists>i. at s i = FHold (word_of_nat n))))"
proof -
  obtain T where fill: "fd_mem.filled (memory s) T" and inv: "fd_mem_inv (latest (memory s) T) (at s)"
    using fd_mem.run_inv [OF assms(1) fd_mem_start [OF assms(2)]] by blast
  let ?s = "\<lparr>table = fd_snap (latest (memory s) T), callers = at s\<rparr>"
  have sys: "fd_sys_inv ?s" by (rule fd_mem_invD(2) [OF inv])
  have held: "holds_fd ?s i (unat fd) \<and> 3 \<le> unat fd \<and> unat fd < FD_TABLE_SIZE" if "at s i = FHold fd" for i fd
    using held_range [of fd] fd_mem_invD(3) [OF inv, of i] that by (simp add: holds_fd_def)
  show ?thesis
  proof (intro conjI allI impI, goal_cases)
    case (1 i j fd)
    then show ?case using held [of i fd] held [of j fd] fd_sys_invD(4) [OF sys] by blast
  next
    case (4 i r)
    then show ?case using fd_mem_invD(3) [OF inv, of i] by simp
  next
    case (5 n t v W)
    then have v: "latest (memory s) T n = v" using fd_mem.filled_latest(2) [OF fill] by blast
    then have "v \<noteq> unat FD_STATE_FREE \<longleftrightarrow> table ?s ! n \<noteq> FD_STATE_FREE"
      using 5 fd_mem_invD(1) [OF inv, of n] by (simp add: fd_snap_nth byte_zero_iff)
    then show ?case using 5 fd_sys_invD(3) [OF sys, of n] by (simp add: holds_fd_def)
  qed (use held in blast)+
qed

theorem vfs_release_acquire_witness:
  "\<exists>s. ra_run fd_access fd_after (\<lambda>_. unat FD_STATE_FREE) (\<lambda>_. FReq [1] 1) s \<and> at s 0 = FHold 3 \<and>
     3 \<le> unat (3 :: u64) \<and> unat (3 :: u64) < FD_TABLE_SIZE"
proof -
  let ?m = "\<lambda>_ :: nat. unat FD_STATE_FREE" and ?ps = "(\<lambda>_. FReq [1] 1) :: nat \<Rightarrow> fd_pc" and ?z = "\<lambda>_ :: nat. 0 :: nat"
  let ?run = "\<lambda>M Vs p. ra_run fd_access fd_after ?m ?ps \<lparr>memory = M, views = Vs, at = p\<rparr>"
  have ev: "binding_kind_for_path [1] = FD_BIND_UNBACKED" "1 AND NOT MODE_MASK = (0 :: u32)" "unat RESERVED_FD_MAX = 2"
    "3 < FD_TABLE_SIZE"
    by (simp_all add: binding_kind_for_path_def as_bytes_def MODE_MASK_def O_RDONLY_def O_WRONLY_def O_RDWR_def fd_consts)
  have m0: "mem_init ?m 3 0 = Some (unat FD_STATE_FREE, ?z)" "mem_init ?m 3 (0 + 1) = None" by (simp_all add: mem_init_def)
  have r0: "?run (mem_init ?m) (\<lambda>_. ?z) ?ps" by (rule ra_run.start)
  have r1: "?run (mem_init ?m) ((\<lambda>_. ?z)(0 := ?z)) (?ps(0 := FScan FD_BIND_UNBACKED 3))"
    by (rule ra_run_stepI [OF r0, where i = 0, OF _ ra_access.local]) (simp_all add: ev)
  have "\<exists>M Vs. ?run M Vs (?ps(0 := FHold 3))"
    by (rule exI, rule exI, rule ra_run_stepI [OF r1, of 0, OF _ ra_access.swapped
          [of "mem_init ?m" 3 0 "unat FD_STATE_FREE" ?z _ _ "unat FD_BIND_UNBACKED", OF m0(1) _ m0(2) refl]])
      (simp_all add: ev)
  then obtain M Vs where r: "?run M Vs (?ps(0 := FHold 3))" by blast
  note th = vfs_release_acquire [OF r, THEN conjunct2, THEN conjunct1]
  have h: "at \<lparr>memory = M, views = Vs, at = ?ps(0 := FHold 3)\<rparr> 0 = FHold 3" by simp
  have "3 \<le> unat (3 :: u64) \<and> unat (3 :: u64) < FD_TABLE_SIZE" by (rule th [rule_format, OF _ h]) simp
  with r h show ?thesis by blast
qed

end
