(* ===== verification/Fork_Memory.thy ===== *)
theory Fork_Memory
  imports Release_Acquire Fork_Concurrent
begin

text \<open>
  \<open>spawn_child_agent\<close> (\<^verbatim>\<open>kernel/core/src/agent_runtime/mod.rs\<close>) on the release/acquire memory. Its accesses are
  all \<open>Relaxed\<close>, and the rollback of a full registry is a plain store: it may be placed before additions of
  other callers that it has not seen. The handles are safe all the same, because the additions below the
  limit form an unbroken chain of read-modify-writes and the stores come after it.
\<close>

section \<open>The program\<close>

fun fork_access :: "fork_pc \<Rightarrow> unit access option" where
  "fork_access CReq = Some (FetchAdd () 1)"
| "fork_access CRollback = Some (Store () AGENT_REGISTRY_MAX)"
| "fork_access (CDone r) = None"

fun fork_after :: "fork_pc \<Rightarrow> reply \<Rightarrow> fork_pc" where
  "fork_after CReq x =
     (case x of
        Value prev \<Rightarrow> if prev \<ge> AGENT_REGISTRY_MAX then CRollback else CDone (Ok (word_of_nat prev + 1))
      | _ \<Rightarrow> CReq)"
| "fork_after CRollback x = CDone (Err RegistryFull)"
| "fork_after (CDone r) x = CDone r"

text \<open>\<open>n\<close> callers; the other threads make no call.\<close>

definition fork_callers :: "nat \<Rightarrow> nat \<Rightarrow> fork_pc" where
  "fork_callers n i = (if i < n then CReq else CDone (Err RegistryFull))"

section \<open>The chain of additions\<close>

abbreviation cell :: "(unit, fork_pc) ra_threads \<Rightarrow> nat \<Rightarrow> (nat \<times> unit view) option" where
  "cell s \<equiv> memory s ()"

definition waiting :: "nat \<Rightarrow> (nat \<Rightarrow> fork_pc) \<Rightarrow> nat" where
  "waiting n ps = card {i. i < n \<and> ps i = CReq}"

text \<open>Timestamps and values agree up to \<open>N\<close>, the number of handles granted. There are stores beyond only when \<open>N\<close>
  is the limit; their values are at least the limit, and one that is above it is followed by another or
  belongs to a caller that is about to roll back.\<close>

definition chain :: "nat \<Rightarrow> nat \<Rightarrow> (unit, fork_pc) ra_threads \<Rightarrow> bool" where
  "chain n N s \<longleftrightarrow> N \<le> AGENT_REGISTRY_MAX \<and>
     (\<forall>t \<le> N. \<exists>W. cell s t = Some (t, W)) \<and>
     (\<forall>t v W. N < t \<longrightarrow> cell s t = Some (v, W) \<longrightarrow>
        N = AGENT_REGISTRY_MAX \<and> AGENT_REGISTRY_MAX \<le> v \<and> v + waiting n (at s) \<le> AGENT_REGISTRY_MAX + n \<and>
        (v \<noteq> AGENT_REGISTRY_MAX \<longrightarrow>
           (\<exists>u. t < u \<and> cell s u \<noteq> None) \<or> (\<exists>i. at s i = CRollback \<and> views s i () = t)))"

definition granted_upto :: "nat \<Rightarrow> (nat \<Rightarrow> fork_pc) \<Rightarrow> bool" where
  "granted_upto N ps \<longleftrightarrow> {unat h |h. \<exists>i. ps i = CDone (Ok h)} = {1..N} \<and>
     (\<forall>i j h. ps i = CDone (Ok h) \<and> ps j = CDone (Ok h) \<longrightarrow> i = j)"

definition fork_mem_inv :: "nat \<Rightarrow> nat \<Rightarrow> (unit, fork_pc) ra_threads \<Rightarrow> bool" where
  "fork_mem_inv n N s \<longleftrightarrow> chain n N s \<and> granted_upto N (at s) \<and>
     (\<forall>i. at s i = CRollback \<longrightarrow> N = AGENT_REGISTRY_MAX \<and> AGENT_REGISTRY_MAX < views s i ()) \<and>
     (\<forall>i. at s i \<noteq> CDone (Err RegistryFull) \<longrightarrow> i < n)"

lemma waiting_le: "waiting n ps \<le> n"
  unfolding waiting_def by (rule order_trans [OF card_mono [of "{..<n}"]]) auto

lemma waiting_drop:
  assumes "i < n" and "ps i = CReq" and "p \<noteq> CReq"
  shows "Suc (waiting n (ps(i := p))) = waiting n ps"
proof -
  have "{j. j < n \<and> (ps(i := p)) j = CReq} = {j. j < n \<and> ps j = CReq} - {i}" using assms(3) by auto
  then show ?thesis unfolding waiting_def using assms(1,2) by (simp only:) (rule card_Suc_Diff1, auto)
qed

lemma waiting_same: "ps i \<noteq> CReq \<Longrightarrow> p \<noteq> CReq \<Longrightarrow> waiting n (ps(i := p)) = waiting n ps"
  by (auto simp: waiting_def intro!: arg_cong [of _ _ card])

lemma granted_same:
  "granted_upto N ps \<Longrightarrow> (\<And>h. ps i \<noteq> CDone (Ok h)) \<Longrightarrow> (\<And>h. p \<noteq> CDone (Ok h)) \<Longrightarrow> granted_upto N (ps(i := p))"
proof -
  assume a: "granted_upto N ps" "\<And>h. ps i \<noteq> CDone (Ok h)" "\<And>h. p \<noteq> CDone (Ok h)"
  have "(ps(i := p)) j = CDone (Ok h) \<longleftrightarrow> ps j = CDone (Ok h)" for j h using a(2,3) by auto
  then show ?thesis using a(1) unfolding granted_upto_def by presburger
qed

lemma granted_next:
  assumes "granted_upto N ps" and "\<And>h. ps i \<noteq> CDone (Ok h)" and "N < AGENT_REGISTRY_MAX"
  shows "granted_upto (N + 1) (ps(i := CDone (Ok (word_of_nat N + 1))))"
proof -
  let ?h = "word_of_nat N + 1 :: u64"
  have h: "unat ?h = N + 1" using assms(3) by (simp add: unat_word_ariths unat_of_nat AGENT_REGISTRY_MAX_def)
  have iff: "(ps(i := CDone (Ok ?h))) j = CDone (Ok k) \<longleftrightarrow> ps j = CDone (Ok k) \<or> j = i \<and> k = ?h" for j k
    using assms(2) by auto
  have old: "{unat h |h. \<exists>i. ps i = CDone (Ok h)} = {1..N}" using assms(1) by (simp add: granted_upto_def)
  then have new: "ps j \<noteq> CDone (Ok ?h)" for j using h by (auto simp: set_eq_iff) (metis Suc_n_not_le_n)
  have "{unat h |h. \<exists>j. (ps(i := CDone (Ok ?h))) j = CDone (Ok h)} = insert (unat ?h) {unat h |h. \<exists>i. ps i = CDone (Ok h)}"
    by (auto simp only: iff)
  then have "{unat h |h. \<exists>j. (ps(i := CDone (Ok ?h))) j = CDone (Ok h)} = {1..N + 1}" using old h by auto
  then show ?thesis using assms(1) new by (auto simp: granted_upto_def iff)
qed

lemma chain_end:
  assumes "chain n N s" and "cell s t = Some (v, W)" and "cell s (t + 1) = None"
  shows "t = N \<and> v = N \<and> N < AGENT_REGISTRY_MAX \<or>
    N = AGENT_REGISTRY_MAX \<and> N \<le> t \<and> AGENT_REGISTRY_MAX \<le> v \<and> v + waiting n (at s) \<le> AGENT_REGISTRY_MAX + n"
proof -
  have N: "N \<le> AGENT_REGISTRY_MAX" and low: "u \<le> N \<Longrightarrow> \<exists>W. cell s u = Some (u, W)" for u
    using assms(1) by (simp_all add: chain_def)
  consider "t < N" | "t = N" | "N < t" by linarith
  then show ?thesis
  proof cases
    case 1
    then show ?thesis using low [of "t + 1"] assms(3) by auto
  next
    case 2
    then show ?thesis using low [of t] assms(2) N waiting_le [of n "at s"] by auto
  next
    case 3
    then show ?thesis using assms(1,2) unfolding chain_def by auto
  qed
qed

lemma chain_beyond:
  assumes "chain n N s" and "N < t" and "cell s t = Some (v, W)"
  shows "N = AGENT_REGISTRY_MAX" and "AGENT_REGISTRY_MAX \<le> v" and "v + waiting n (at s) \<le> AGENT_REGISTRY_MAX + n"
    and "v \<noteq> AGENT_REGISTRY_MAX \<Longrightarrow>
      (\<exists>u. t < u \<and> cell s u \<noteq> None) \<or> (\<exists>i. at s i = CRollback \<and> views s i () = t)"
  using assms unfolding chain_def by blast+

text \<open>An addition below the limit extends the chain.\<close>

lemma reserve_inv:
  assumes inv: "fork_mem_inv n N s" and pc: "at s i = CReq" and N: "N < AGENT_REGISTRY_MAX"
  shows "fork_mem_inv n (N + 1)
    \<lparr>memory = put_msg (memory s) () (N + 1) (N + 1, W), views = (views s)(i := V),
     at = (at s)(i := CDone (Ok (word_of_nat N + 1)))\<rparr>" (is "fork_mem_inv n (N + 1) ?t")
proof -
  have ch: "chain n N s" and gr: "granted_upto N (at s)" and lt: "\<And>j. at s j \<noteq> CDone (Err RegistryFull) \<Longrightarrow> j < n"
    and roll: "\<And>j. at s j \<noteq> CRollback" using inv N by (auto simp: fork_mem_inv_def)
  have none: "cell s t = None" if "N < t" for t using chain_beyond(1) [OF ch that] N by (cases "cell s t") auto
  have "\<exists>W. cell ?t t = Some (t, W)" if "t \<le> N + 1" for t
    using ch that unfolding chain_def by (auto simp: put_msg_apply le_Suc_eq)
  then have "chain n (N + 1) ?t" using N none by (auto simp: chain_def put_msg_apply)
  moreover have "granted_upto (N + 1) (at ?t)" using granted_next [OF gr _ N, of i] pc by simp
  ultimately show ?thesis using roll lt pc by (auto simp: fork_mem_inv_def)
qed

text \<open>Beyond the limit: a store that is above it is the last step of a caller that will roll back.\<close>

lemma beyond_inv:
  assumes inv: "fork_mem_inv n AGENT_REGISTRY_MAX s" and t: "AGENT_REGISTRY_MAX < t" "cell s t = None"
    and v: "AGENT_REGISTRY_MAX \<le> v" "v + waiting n ((at s)(i := p)) \<le> AGENT_REGISTRY_MAX + n"
    and pc: "\<And>h. at s i \<noteq> CDone (Ok h)" "\<And>h. p \<noteq> CDone (Ok h)" "p \<noteq> CReq" "i < n"
    and roll: "p = CRollback \<or> v = AGENT_REGISTRY_MAX" "at s i = CRollback \<Longrightarrow> views s i () < t"
  shows "fork_mem_inv n AGENT_REGISTRY_MAX
    \<lparr>memory = put_msg (memory s) () t (v, W), views = (views s)(i := V(() := t)), at = (at s)(i := p)\<rparr>" (is "fork_mem_inv _ _ ?t")
proof -
  have ch: "chain n AGENT_REGISTRY_MAX s" and gr: "granted_upto AGENT_REGISTRY_MAX (at s)"
    using inv by (simp_all add: fork_mem_inv_def)
  have w: "waiting n ((at s)(i := p)) \<le> waiting n (at s)"
    unfolding waiting_def using pc(3) by (intro card_mono) auto
  have "(\<exists>u. t' < u \<and> cell ?t u \<noteq> None) \<or> (\<exists>j. at ?t j = CRollback \<and> views ?t j () = t')"
    if "AGENT_REGISTRY_MAX < t'" "cell ?t t' = Some (v', W')" "v' \<noteq> AGENT_REGISTRY_MAX" for t' v' W'
  proof (cases "t' = t")
    case True
    then show ?thesis using that roll(1) by (intro disjI2 exI [of _ i]) (auto simp: put_msg_apply)
  next
    case False
    then have "(\<exists>u. t' < u \<and> cell s u \<noteq> None) \<or> (\<exists>j. at s j = CRollback \<and> views s j () = t')"
      using chain_beyond(4) [OF ch that(1) _ that(3)] that(2) by (simp add: put_msg_apply)
    then consider u where "t' < u" "cell s u \<noteq> None" | j where "at s j = CRollback" "views s j () = t'" by blast
    then show ?thesis
    proof cases
      case (1 u)
      then show ?thesis by (intro disjI1 exI [of _ u]) (auto simp: put_msg_apply)
    next
      case (2 j)
      then show ?thesis using roll(2)
        by (cases "j = i") (auto simp: put_msg_apply intro: exI [of _ t] exI [of _ j])
    qed
  qed
  moreover have "AGENT_REGISTRY_MAX \<le> v' \<and> v' + waiting n (at ?t) \<le> AGENT_REGISTRY_MAX + n"
    if "AGENT_REGISTRY_MAX < t'" "cell ?t t' = Some (v', W')" for t' v' W'
    using that v w chain_beyond(2,3) [OF ch that(1), of v' W'] by (cases "t' = t") (auto simp: put_msg_apply)
  moreover have "\<exists>W. cell ?t t' = Some (t', W)" if "t' \<le> AGENT_REGISTRY_MAX" for t'
    using ch that t unfolding chain_def by (auto simp: put_msg_apply)
  ultimately have "chain n AGENT_REGISTRY_MAX ?t" unfolding chain_def by blast
  moreover have "granted_upto AGENT_REGISTRY_MAX (at ?t)" using granted_same [OF gr, of i p] pc by simp
  ultimately show ?thesis using inv t(1) pc(4) by (auto simp: fork_mem_inv_def)
qed

lemma fork_mem_step:
  assumes inv: "fork_mem_inv n N s" and small: "AGENT_REGISTRY_MAX + n < 2 ^ 64"
    and acc: "fork_access (at s i) = Some a" "ra_access a (memory s) (views s i) x M V"
  shows "\<exists>N'. fork_mem_inv n N' \<lparr>memory = M, views = (views s)(i := V), at = (at s)(i := fork_after (at s i) x)\<rparr>"
proof (cases "at s i")
  case CReq
  have ch: "chain n N s" and i: "i < n" using inv CReq by (auto simp: fork_mem_inv_def)
  from acc(2) obtain t v W where m: "cell s t = Some (v, W)" "cell s (t + 1) = None" and x: "x = Value v"
    and M: "M = put_msg (memory s) () (t + 1) ((v + 1) mod 2 ^ 64, W(() := t + 1))" "V = (views s i)(() := t + 1)"
    using acc(1) by cases (auto simp: CReq)
  from chain_end [OF ch m] show ?thesis
  proof (elim disjE conjE)
    assume "t = N" "v = N" "N < AGENT_REGISTRY_MAX"
    then show ?thesis
      using reserve_inv [OF inv CReq, of "W(() := N + 1)" V] CReq x M
      by (intro exI [of _ "N + 1"]) (simp add: AGENT_REGISTRY_MAX_def)
  next
    assume N: "N = AGENT_REGISTRY_MAX" "N \<le> t" "AGENT_REGISTRY_MAX \<le> v" "v + waiting n (at s) \<le> AGENT_REGISTRY_MAX + n"
    note w = waiting_drop [of i n "at s" CRollback, OF i CReq, simplified]
    have mod: "(v + 1) mod 2 ^ 64 = v + 1" using N(4) w small by (intro mod_less) linarith
    have "fork_mem_inv n AGENT_REGISTRY_MAX
      \<lparr>memory = put_msg (memory s) () (t + 1) (v + 1, W(() := t + 1)), views = (views s)(i := (views s i)(() := t + 1)),
       at = (at s)(i := CRollback)\<rparr>"
      using N m w i CReq inv by (intro beyond_inv) auto
    then show ?thesis using CReq x M N(3) mod by (intro exI [of _ AGENT_REGISTRY_MAX]) simp
  qed
next
  case CRollback
  have N: "N = AGENT_REGISTRY_MAX" "AGENT_REGISTRY_MAX < views s i ()" "i < n"
    using inv CRollback by (auto simp: fork_mem_inv_def)
  from acc(2) obtain t where t: "views s i () < t" "cell s t = None"
    and M: "M = put_msg (memory s) () t (AGENT_REGISTRY_MAX, (\<lambda>_. 0)(() := t))" "V = (views s i)(() := t)"
    using acc(1) by cases (auto simp: CRollback)
  have "fork_mem_inv n AGENT_REGISTRY_MAX
    \<lparr>memory = put_msg (memory s) () t (AGENT_REGISTRY_MAX, (\<lambda>_. 0)(() := t)), views = (views s)(i := (views s i)(() := t)),
     at = (at s)(i := CDone (Err RegistryFull))\<rparr>"
    using N t CRollback inv waiting_le by (intro beyond_inv) auto
  then show ?thesis using CRollback M by (intro exI [of _ AGENT_REGISTRY_MAX]) simp
qed (use acc(1) in simp)

lemma fork_mem_start: "fork_mem_inv n 0 \<lparr>memory = mem_init (\<lambda>_. 0), views = (\<lambda>_ _. 0), at = fork_callers n\<rparr>"
  by (auto simp: fork_mem_inv_def chain_def granted_upto_def fork_callers_def mem_init_Some split: if_splits)

lemma fork_mem_run:
  assumes "ra_run fork_access fork_after (\<lambda>_. 0) (fork_callers n) s" and "AGENT_REGISTRY_MAX + n < 2 ^ 64"
  shows "\<exists>N. fork_mem_inv n N s"
  using assms(1)
proof (induction rule: ra_run.induct)
  case start
  then show ?case using fork_mem_start by blast
next
  case (step s i a x M V)
  then show ?case using fork_mem_step [OF _ assms(2)] by blast
qed

section \<open>Properties\<close>

text \<open>C9: child handles under the relaxed orders the code uses. However the calls of \<open>n\<close> callers interleave and
  wherever the rollback stores are placed among the additions, the handles granted are the numbers from 1
  to some \<open>N\<close> of at most the registry limit, each to one caller; and when every call has returned, the
  latest value of the counter is \<open>N\<close>.\<close>

theorem fork_release_acquire:
  assumes "ra_run fork_access fork_after (\<lambda>_. 0) (fork_callers n) s" and "AGENT_REGISTRY_MAX + n < 2 ^ 64"
  shows "\<exists>N \<le> AGENT_REGISTRY_MAX. {unat h |h. \<exists>i. at s i = CDone (Ok h)} = {1..N} \<and>
    (\<forall>i j h. at s i = CDone (Ok h) \<and> at s j = CDone (Ok h) \<longrightarrow> i = j) \<and>
    ((\<forall>i. \<exists>r. at s i = CDone r) \<longrightarrow>
       (\<forall>t v W. memory s () t = Some (v, W) \<and> (\<forall>u > t. memory s () u = None) \<longrightarrow> v = N))"
proof -
  obtain N where inv: "fork_mem_inv n N s" using fork_mem_run [OF assms] by blast
  then have ch: "chain n N s" and gr: "granted_upto N (at s)" by (simp_all add: fork_mem_inv_def)
  have "v = N" if ret: "\<forall>i. \<exists>r. at s i = CDone r" and top: "memory s () t = Some (v, W)" "\<forall>u > t. memory s () u = None" for t v W
  proof -
    have no: "at s i \<noteq> CRollback" for i using ret by (metis fork_pc.distinct(5))
    have e: "cell s (t + 1) = None" using top(2) by simp
    show ?thesis
    proof (cases "N < t")
      case True
      have "v = AGENT_REGISTRY_MAX" using chain_beyond(4) [OF ch True top(1)] no top(2) by (cases "v = AGENT_REGISTRY_MAX") auto
      then show ?thesis using chain_beyond(1) [OF ch True top(1)] by simp
    next
      case False
      then have "t = N" using chain_end [OF ch top(1) e] by auto
      then show ?thesis using ch top(1) by (auto simp: chain_def)
    qed
  qed
  moreover have "N \<le> AGENT_REGISTRY_MAX" using ch by (simp add: chain_def)
  moreover have "{unat h |h. \<exists>i. at s i = CDone (Ok h)} = {1..N}"
    and "\<forall>i j h. at s i = CDone (Ok h) \<and> at s j = CDone (Ok h) \<longrightarrow> i = j"
    using gr unfolding granted_upto_def by (rule conjunct1, rule conjunct2)
  ultimately show ?thesis by (intro exI [of _ N] conjI allI impI) (simp, simp, blast, blast)
qed

text \<open>Two callers; the second one's addition is relaxed and reads the first one's.\<close>

theorem fork_release_acquire_witness:
  "\<exists>s. ra_run fork_access fork_after (\<lambda>_. 0) (fork_callers 2) s \<and> at s 0 = CDone (Ok 1) \<and> at s 1 = CDone (Ok 2) \<and>
     (\<exists>N \<le> AGENT_REGISTRY_MAX. {unat h |h. \<exists>i. at s i = CDone (Ok h)} = {1..N})"
proof -
  let ?run = "\<lambda>M Vs p. ra_run fork_access fork_after (\<lambda>_. 0) (fork_callers 2) \<lparr>memory = M, views = Vs, at = p\<rparr>"
  let ?z = "\<lambda>_ :: unit. 0 :: nat"
  let ?M1 = "put_msg (mem_init (\<lambda>_. 0)) () (0 + 1) ((0 + 1) mod 2 ^ 64, ?z(() := 0 + 1))"
  have m0: "mem_init (\<lambda>_. 0) () 0 = Some (0, ?z)" "mem_init (\<lambda>_. 0) () (0 + 1) = None" by (simp_all add: mem_init_def)
  have m1: "?M1 () 1 = Some (1, ?z(() := 0 + 1))" "?M1 () (1 + 1) = None" by (simp_all add: put_msg_apply mem_init_def)
  have r0: "?run (mem_init (\<lambda>_. 0)) (\<lambda>_. ?z) (fork_callers 2)" by (rule ra_run.start)
  have r1: "?run ?M1 ((\<lambda>_. ?z)(0 := ?z(() := 0 + 1))) ((fork_callers 2)(0 := CDone (Ok 1)))"
    by (rule ra_run_stepI [OF r0, where i = 0, OF _ ra_access.fetch_add [of "mem_init (\<lambda>_. 0)" "()" 0 0 ?z ?z 1, OF m0(1) _ m0(2)]])
      (simp_all add: fork_callers_def AGENT_REGISTRY_MAX_def)
  have "\<exists>M Vs. ?run M Vs ((fork_callers 2)(0 := CDone (Ok 1), 1 := CDone (Ok 2)))"
    by (rule exI, rule exI, rule ra_run_stepI [OF r1, where i = 1, OF _ ra_access.fetch_add [of ?M1 "()" 1 1 _ _ 1, OF m1(1) _ m1(2)]])
      (simp_all add: fork_callers_def AGENT_REGISTRY_MAX_def)
  then obtain M Vs where r: "?run M Vs ((fork_callers 2)(0 := CDone (Ok 1), 1 := CDone (Ok 2)))" by blast
  have h: "at \<lparr>memory = M, views = Vs, at = (fork_callers 2)(0 := CDone (Ok 1), 1 := CDone (Ok 2))\<rparr> 0 = CDone (Ok 1)"
    "at \<lparr>memory = M, views = Vs, at = (fork_callers 2)(0 := CDone (Ok 1), 1 := CDone (Ok 2))\<rparr> 1 = CDone (Ok 2)" by simp_all
  have "AGENT_REGISTRY_MAX + 2 < 2 ^ 64" by (simp add: AGENT_REGISTRY_MAX_def)
  from fork_release_acquire [OF r this] r h show ?thesis by blast
qed

end
