(* ===== verification/Machine.thy ===== *)
theory Machine
  imports Boot_Main Init
begin

text \<open>
  The whole machine: \<open>efi_main\<close> of \<^verbatim>\<open>kernel/boot/src/main.rs\<close> and its tail call \<open>init::run()\<close>, which enters
  the receive loop of \<^verbatim>\<open>kernel/boot/src/init.rs\<close> on the statics of the kernel as the image has them. No code
  of the repository starts another process, so the machine as it is built is this run with no calls in
  between (\<open>css = replicate n []\<close>); the general form allows calls of processes yet to come.
\<close>

section \<open>From the firmware to the receive loop\<close>

definition machine_run ::
    "(bytes \<Rightarrow> bytes) \<Rightarrow> (string \<Rightarrow> string) \<Rightarrow> Firmware \<Rightarrow> (u32 \<Rightarrow> u32) \<Rightarrow> (nat \<Rightarrow> u8 \<Rightarrow> u8) \<Rightarrow> u32 \<Rightarrow> u32 \<Rightarrow> bytes \<Rightarrow> bytes \<Rightarrow>
     usize \<Rightarrow> syscall list list \<Rightarrow> boot_io \<Rightarrow> (boot_io \<times> BumpAllocator \<times> init_flow) option" where
  "machine_run sha lc fw pci cmos hi lo seat seat_row heap css io = do {
     (io, h) \<leftarrow> efi_main fw pci cmos hi lo seat seat_row heap io;
     Some (io, h, init_run sha lc css (init_start sha kernel_boot))
   }"

section \<open>init alone\<close>

text \<open>The receive loop with nobody else on the bus: init answers the message it finds, and then its own answers.\<close>

lemma init_alone:
  assumes "kernel_inv (kern st)" and "length (recv_buf st) = 512" and "bus (kern st) = Some (env, r)" and "own env"
  shows "\<exists>st'. init_run sha lc (replicate (Suc n) []) st = Running st' \<and> seq st' = seq st + word_of_nat (Suc n) \<and>
    kern st' = (kern st)\<lparr>SLOT := SLOT (kern st')\<rparr> \<and>
    bus (kern st') = Some (emit_bytes (as_bytes ''BLOK'') (seq st' - 1) (if n = 0 then take 4 env else as_bytes ''BLOK''), 0)"
  using assms
proof (induction n arbitrary: st env r)
  case 0
  show ?case by (rule init_step_own [OF 0, of sha]) auto
next
  case (Suc n)
  obtain s where s: "init_step sha st = Running s" "kernel_inv (kern s)" "length (recv_buf s) = 512" "seq s = seq st + 1"
    "bus (kern s) = Some (emit_bytes (as_bytes ''BLOK'') (seq st) (take 4 env), 0)" "kern s = (kern st)\<lparr>SLOT := SLOT (kern s)\<rparr>"
    using init_step_own [OF Suc.prems, of sha] .
  have o: "own (emit_bytes (as_bytes ''BLOK'') (seq st) (take 4 env))" by (rule own_emit) (simp_all add: as_bytes_def)
  have pre: "take 4 (emit_bytes (as_bytes ''BLOK'') (seq st) (take 4 env)) = as_bytes ''BLOK''"
    by (simp add: emit_bytes_eq)
  from Suc.IH [OF s(2,3,5) o] obtain s' where s': "init_run sha lc (replicate (Suc n) []) s = Running s'"
    "seq s' = seq s + word_of_nat (Suc n)" "kern s' = (kern s)\<lparr>SLOT := SLOT (kern s')\<rparr>"
    "bus (kern s') = Some (emit_bytes (as_bytes ''BLOK'') (seq s' - 1) (as_bytes ''BLOK''), 0)"
    using pre by auto
  have "kern s' = (kern st)\<lparr>SLOT := SLOT (kern s')\<rparr>"
    using s'(3) arg_cong [OF s(6), of "\<lambda>x. x\<lparr>SLOT := SLOT (kern s')\<rparr>"] by simp
  then show ?case using s(1,4) s' by (intro exI [of _ s']) simp
qed

section \<open>Properties\<close>

text \<open>C10: what the machine does. For every seat the build script accepts, whatever the PCI bus and the clock answer
  and whatever display the firmware offers (as long as its pixels are mapped), the machine boots through
  the firmware entry, hands over an empty 16 KiB heap and enters the receive loop, and after every number
  \<open>n \<ge> 1\<close> of iterations init is still running and has answered only its own messages: the message on the bus
  is its \<open>n\<close>-th \<open>BLOK\<close>, to the ready message for \<open>n = 1\<close> and to its own previous \<open>BLOK\<close> afterwards. No static of
  the kernel but the slot has changed, so no cosign row has ever been appended, no memory mapped and no
  descriptor opened.\<close>

theorem machine_behaviour:
  assumes "build_seat trim env = Some (seat, seat_row)" and "framebuffer_mapped fw io" and "0 < n"
  shows "\<exists>io' st rows.
    machine_run sha lc fw pci cmos hi lo seat seat_row heap (replicate n []) io =
      Some (io', \<lparr>heap_start = heap, heap_end = heap + 16384, heap_next = heap\<rparr>, Running st) \<and>
    serial io' = serial io @ BANNER1 @ BANNER2 @ rows \<and> length (pixels io') = length (pixels io) \<and>
    seq st = 1 + word_of_nat n \<and>
    bus (kern st) = Some (emit_bytes (as_bytes ''BLOK'') (word_of_nat n) (as_bytes (if n = 1 then ''INIT'' else ''BLOK'')), 0) \<and>
    kern st = kernel_boot\<lparr>SLOT := SLOT (kern st)\<rparr> \<and> APPEND_SEQ_COUNTER (kern st) = 0"
proof -
  obtain io' h rows where boot: "efi_main fw pci cmos hi lo seat seat_row heap io = Some (io', h)"
    "serial io' = serial io @ BANNER1 @ BANNER2 @ rows" "length (pixels io') = length (pixels io)"
    "h = \<lparr>heap_start = heap, heap_end = heap + 16384, heap_next = heap\<rparr>"
    using efi_main_run [OF assms(1,2), of pci cmos hi lo heap] by blast
  let ?st = "init_start sha kernel_boot"
  obtain env where e: "bus (kern ?st) = Some (env, 0)" "own env" "kernel_inv (kern ?st)" "take 4 env = as_bytes ''INIT''"
    "kern ?st = kernel_boot\<lparr>SLOT := SLOT (kern ?st)\<rparr>"
    using init_start_own [of sha] .
  have st: "length (recv_buf ?st) = 512" "seq ?st = 1" by (simp_all add: init_start_def INIT_ENVELOPE_MAX_def Let_def)
  obtain k where n: "n = Suc k" using assms(3) by (cases n) auto
  from init_alone [OF e(3) st(1) e(1,2), of sha lc k] obtain st where
    run: "init_run sha lc (replicate n []) ?st = Running st" "seq st = 1 + word_of_nat n" "kern st = (kern ?st)\<lparr>SLOT := SLOT (kern st)\<rparr>"
    "bus (kern st) = Some (emit_bytes (as_bytes ''BLOK'') (word_of_nat n) (as_bytes (if n = 1 then ''INIT'' else ''BLOK'')), 0)"
    using e(4) st(2) n by (auto split: if_splits)
  have k: "kern st = kernel_boot\<lparr>SLOT := SLOT (kern st)\<rparr>"
    using run(3) arg_cong [OF e(5), of "\<lambda>x. x\<lparr>SLOT := SLOT (kern st)\<rparr>"] by simp
  have "APPEND_SEQ_COUNTER (kern st) = 0"
    using arg_cong [OF k, of APPEND_SEQ_COUNTER] by (simp add: kernel_boot_def)
  moreover have "machine_run sha lc fw pci cmos hi lo seat seat_row heap (replicate n []) io = Some (io', h, Running st)"
    by (simp add: machine_run_def boot(1) run(1))
  ultimately show ?thesis using boot(2-4) run(2,4) k by blast
qed

theorem machine_behaviour_witness:
  "\<exists>io' h st. machine_run (\<lambda>_. []) id \<lparr>fw_table = True, fw_con_out = True, fw_boot_services = True, fw_gop = Some None\<rparr>
     (\<lambda>_. 0xFFFFFFFF) (\<lambda>_ _. 0) 0 1 (as_bytes ''liris'') (snd (the (build_seat id None))) 4096 (replicate 3 [])
     \<lparr>serial = [], console = [], pixels = []\<rparr> = Some (io', h, Running st) \<and> seq st = 4"
proof -
  have seat: "build_seat id None = Some (as_bytes ''liris'', snd (the (build_seat id None)))" by code_simp
  have "framebuffer_mapped \<lparr>fw_table = True, fw_con_out = True, fw_boot_services = True, fw_gop = Some None\<rparr>
      \<lparr>serial = [], console = [], pixels = []\<rparr>" by (simp add: framebuffer_mapped_def)
  from machine_behaviour [OF seat this, of 3 "\<lambda>_. []" id "\<lambda>_. 0xFFFFFFFF" "\<lambda>_ _. 0" 0 1 4096] show ?thesis by auto
qed

end
