(* ===== verification/Spec2Isabelle.thy ===== *)
theory Spec2Isabelle
  imports Prelude Hash_Chain Tickets Syscall_Types Frame_Alloc Envelope Vfs Sha256 Crypto
    Cosign_Chain Reflection_Room Tier Transit Gates Pid Agent_Runtime Gnn Syscall Kernel Init
    Link_Auth Level_Tag Cycle_Orch Fedenv Atlas Bus_Fabric Glyph_Genesis Bus_And_Kick Line_Writer Boot_Diag Boot_Identity
    Boot_Rows Hwinv Boot_Clock Boot_Main Surface
    Slot_Liveness Vfs_Concurrent Fork_Concurrent Host_Text Atlas_Codegen Parity_Vectors Identities Surface_Host Uefi_Layout Serial_Port
    Release_Acquire Slot_Memory Atomics_Memory Fork_Memory Machine
begin

text \<open>
  Asolaria OS: a verification of the kernel core, its boot crate and its host surface.

  \<^bold>\<open>The program.\<close> The repository holds three Rust crates. \<^verbatim>\<open>kernel/core\<close> is a \<^verbatim>\<open>no_std\<close> library: the
  syscall surface and the components behind it (memory, the one-slot envelope bus, a small file system,
  gates, signatures, hash chains, PIDs, agents). \<^verbatim>\<open>kernel/boot\<close> is the UEFI program that reports the
  machine and runs \<open>init\<close>, which talks to the kernel only through syscalls. \<^verbatim>\<open>surface\<close> is a local HTTP
  server for terminal sessions. State in the kernel is a handful of atomics; every syscall is a function
  of them. The components meet in the syscalls (theories \<open>Syscall\<close>, \<open>Kernel\<close>), in
  \<open>init\<close> (theory \<open>Init\<close>), in the UEFI entry (theory \<open>Boot_Main\<close>) and in the whole (theory \<open>Machine\<close>); the
  composed properties are there.

  \<^bold>\<open>Conventions.\<close> A machine integer is a word of its width, and arithmetic on it wraps as in a release
  build. \<open>Result\<close> is the datatype \<open>result\<close> with the source's error enumerations. A string is the list of
  its bytes. A panic is \<open>None\<close> or a constructor of its own. Statics and atomics are passed explicitly;
  where several threads can interleave, one atomic access is one step of a relation. SHA-256 of the
  \<^verbatim>\<open>sha2\<close> crate, Unicode case mapping and trimming, PCI configuration space, the CMOS clock and child
  processes are arguments; the only assumption made of a hash is that digests have 32 bytes (locale
  \<open>digest\<close>), and statements about tampering name the collision they rest on.

  \<^bold>\<open>Shared theories.\<close> \<open>Prelude\<close>: results, saturating and checked arithmetic, bytes of integers,
  strings, decimal and hexadecimal text, with the simplification collections. \<open>Hash_Chain\<close>: the locale
  \<open>hash_chain\<close>, interpreted as \<open>cosign\<close> and \<open>room\<close>. \<open>Tickets\<close>: the locale \<open>ticket_counter\<close> of
  wrapping counters, interpreted as \<open>transit_ids\<close>, \<open>kernel_clock\<close> and \<open>surface_ids\<close>. \<open>Line_Writer\<close>: the
  locale \<open>bounded_writer\<close>, interpreted as \<open>status\<close> and \<open>identity\<close>, and the trait \<open>Decimal\<close> as the locale
  \<open>decimal_type\<close>, interpreted for \<^verbatim>\<open>u32\<close> and \<^verbatim>\<open>usize\<close>. \<open>Boot_Rows\<close>: the relation \<open>prints\<close> for rows written
  into fixed arrays. \<open>Host_Text\<close>: parsing of integers and lines as the standard library does it.

  \<^bold>\<open>Memory\<close> (\<^verbatim>\<open>frame_alloc\<close>, theory \<open>Frame_Alloc\<close>). \<open>alloc_pages\<close> and \<open>free_pages\<close> over the watermark, and the
  compare-exchange loop as the relation \<open>alloc_step\<close>. The locale \<open>bump_allocator\<close> gives disjointness of
  all blocks ever granted; it is interpreted as \<open>frames\<close> and, in \<open>Boot_Main\<close>, as \<open>boot_heap\<close>. Also shown:
  disjointness under any interleaving of threads, a bound on the steps of the compare-exchange loop (so
  it terminates under every schedule), and the request sizes at which rounding wraps.

  \<^bold>\<open>Bus\<close> (\<^verbatim>\<open>envelope/mod.rs\<close>, theory \<open>Envelope\<close>). Enqueue, dequeue with its polling loop (its fuel is the
  budget the code computes from the timeout, so the loop is total), reset, and the atomic steps of
  concurrent senders and receivers. The slot refines a one-place buffer (locale \<open>one_place_buffer\<close>,
  interpreted as \<open>env_slot\<close>), and no interleaving tears, loses or duplicates a message. \<open>Slot_Liveness\<close>
  shows that the concurrent calls are wait-free. \<open>Fedenv\<close> (\<^verbatim>\<open>envelope/fedenv.rs\<close>) has the validation of
  federation envelopes.

  \<^bold>\<open>Memory orders\<close> (theories \<open>Release_Acquire\<close>, \<open>Slot_Memory\<close>, \<open>Atomics_Memory\<close>, \<open>Fork_Memory\<close>). \<open>Release_Acquire\<close> is
  the memory of Rust's atomics for the orders the code uses: timestamped stores, each with the view it
  releases. The concurrent code runs on it as programs of accesses. For the envelope slot the safety
  properties are shown again there (its sequentially consistent runs are some of these runs), so the
  \<open>Relaxed\<close> bytes and length are covered by the \<open>Release\<close> and \<open>Acquire\<close> of the state byte. The frame allocator and
  the descriptor table change their statics with read-modify-writes only: they are interpretations
  \<open>alloc_mem\<close> and \<open>fd_mem\<close> of the locale \<open>rmw_program\<close>. The child counter, which also uses a plain relaxed
  store, has an invariant of its own. The other counters are single \<open>fetch_add\<close>s, one step each.

  \<^bold>\<open>Files\<close> (\<^verbatim>\<open>vfs\<close>, theories \<open>Vfs\<close>, \<open>Vfs_Concurrent\<close>). Descriptor table, open, close, read and write, with the
  bus file; and opens and closes of concurrent callers, one access of a slot at a time: no descriptor is
  given twice and none leaks, but the slot given need not be the lowest free one.

  \<^bold>\<open>Hashes and signatures.\<close> \<open>Sha256\<close> (the boot crate's own SHA-256) is proved equal to FIPS 180-4 on
  inputs up to its 512-byte cap. \<open>Crypto\<close>, \<open>Cosign_Chain\<close>,
  \<open>Reflection_Room\<close> and \<open>Link_Auth\<close> model the modules of those names: what verifies, that a valid chain
  commits to every earlier row, two-phase commit of room events, and the HMAC gate of a link.

  \<^bold>\<open>Gates and names.\<close> \<open>Syscall_Types\<close> and \<open>Tier\<close> (\<^verbatim>\<open>tier\<close>, \<^verbatim>\<open>tier_gate\<close>), \<open>Transit\<close> (\<^verbatim>\<open>highway\<close>, \<^verbatim>\<open>transit\<close>), \<open>Gates\<close>
  (\<^verbatim>\<open>hookwall\<close>, \<^verbatim>\<open>sign_gate\<close>, \<^verbatim>\<open>spawn_gate\<close>), \<open>Pid\<close>, \<open>Agent_Runtime\<close>, \<open>Gnn\<close>, \<open>Level_Tag\<close>, \<open>Cycle_Orch\<close>, \<open>Atlas\<close>,
  \<open>Bus_Fabric\<close>, \<open>Glyph_Genesis\<close> and \<open>Bus_And_Kick\<close> each hold the data, the operations and the behaviour of
  the module of that name on every branch: access matrices, verdict composition, PID parsing against
  minting, the invariant of the agent registry (and in \<open>Fork_Concurrent\<close> the child handles under
  concurrent forks), classification of rows, legality of recorded peer
  transitions, tables and handles. \<open>Parity_Vectors\<close> (\<^verbatim>\<open>triple_runtime_parity.rs\<close>) evaluates the recorded
  fingerprints on the SHA-256 of the standard, and \<open>Identities\<close> relates the PIDs used by the components
  to the grammar. \<open>Atlas_Codegen\<close> is the build script \<^verbatim>\<open>core/build.rs\<close>: what the generated tables mean.

  \<^bold>\<open>Syscalls\<close> (\<^verbatim>\<open>syscall\<close>, theories \<open>Syscall\<close>, \<open>Kernel\<close>). The record \<open>kernel\<close> of all statics, one definition for
  each syscall, and runs of calls by several processes. Shown for every run from boot: the invariant of
  the statics, disjointness of mapped memory, that a successful receive returns the bytes of the latest
  unread send, and which error each refused call gives.

  \<^bold>\<open>init\<close> (\<^verbatim>\<open>boot/src/init.rs\<close>, theory \<open>Init\<close>). Start-up, emission, dispatch and one iteration of the receive
  loop, interleaved with calls of other processes: every documented command is answered as blocked,
  \<open>init\<close> answers its own messages for ever, and a message longer than its buffer makes it exit after 32
  iterations. The endless loop is the iteration of the total function \<open>init_step\<close>; \<open>sys_exit\<close>, which
  spins, is the outcome \<open>Exited\<close>.

  \<^bold>\<open>Boot\<close> (theories \<open>Boot_Diag\<close>, \<open>Boot_Identity\<close>, \<open>Hwinv\<close>, \<open>Boot_Clock\<close>, \<open>Boot_Main\<close>). Status line and identity
  line; PCI scan, hardware tuple, 60-dimensional coordinate and device PID; clock, boot projection and
  driver rows; boot heap, painting and \<open>efi_main\<close>. Each row is proved to have its documented text and to
  fit its array, and the whole entry to reach \<open>init\<close> without a panic or a write outside the framebuffer
  for every seat label the build script accepts. \<open>Uefi_Layout\<close> computes the offsets of the firmware tables
  and compares them with the UEFI specification; \<open>Serial_Port\<close> has the driver of the serial line at its
  ports, which is shown to send what the byte log of \<open>Boot_Main\<close> records; its polling loop is a
  \<open>partial_function\<close> that is proved to return on the reference UART.

  \<^bold>\<open>The machine\<close> (theory \<open>Machine\<close>). The firmware entry followed by its tail call into the receive loop of
  \<open>init\<close>: what the machine as it is built does for ever, from the banner to the state of every static.

  \<^bold>\<open>Surface\<close> (\<^verbatim>\<open>surface/src/main.rs\<close>, theories \<open>Surface\<close>, \<open>Surface_Host\<close>). Request head, routing, session table,
  event stream with base64 and live status; seat identity, probes, launcher and accept loop over a record
  of what the operating system answers. The stream delivers exactly what a session printed, ids are not
  reused, and no answer of a probed service can forge a row of the status block.

  This theory adds the property that joins \<open>Level_Tag\<close> and \<open>Link_Auth\<close>.

  \<^bold>\<open>Not modelled.\<close> The port and halt instructions themselves, which are parameters or \<open>None\<close>, and the endless
  loop of \<open>sys_exit\<close> (hardware); load buffering, and the liveness results under weak memory; sockets, threads and
  processes of the surface beyond what they hand to the modelled code; the trait \<open>FileOps\<close>, which has no
  implementation; accessors that only return a field (the fields of the records stand for them); and
  test code.
\<close>

section \<open>Properties across components\<close>

text \<open>C24: personal data over a link. The serve layer shows a row when its level is at most the effective level of
  the request. A row the classifier finds to be personal is shown only when the request asks for
  level 9 and the host granted level 9 to that owner; the request alone never raises the level.\<close>

theorem pii_needs_grant:
  assumes "effective_level owner req grants = Some e" and "is_pii path content" and "assign_level path content \<le> e"
  shows "9 \<le> req \<and> (\<exists>g \<in> set grants. grant_owner_pid g = owner \<and> 9 \<le> max_level g)"
proof -
  have "9 \<le> e" using assms(2,3) by (simp add: assign_level_def LEVEL_OWNER_PRIVATE_def)
  then show ?thesis using effective_level_le [OF assms(1)] by (force simp: levels_of_def)
qed

theorem pii_needs_grant_witness:
  "\<exists>g \<in> set [\<lparr>grant_owner_pid = ''OP-A'', max_level = 9\<rparr>, \<lparr>grant_owner_pid = ''OP-B'', max_level = 0\<rparr>].
     grant_owner_pid g = ''OP-A'' \<and> 9 \<le> max_level g"
proof -
  have pii: "is_pii ''evidence/scan.pdf'' ''cnpj''" by code_simp
  have eff: "effective_level ''OP-A'' 9 [\<lparr>grant_owner_pid = ''OP-A'', max_level = 9\<rparr>, \<lparr>grant_owner_pid = ''OP-B'', max_level = 0\<rparr>] = Some 9"
    by code_simp
  have "assign_level ''evidence/scan.pdf'' ''cnpj'' \<le> 9" by code_simp
  with pii_needs_grant [OF eff pii] show ?thesis by blast
qed

end
